(* ===== verification/Prelude.thy ===== *)
theory Prelude
  imports Main "HOL-Library.Word" "HOL-Library.Signed_Division"
begin

text \<open>
  The shared vocabulary of the development.  A C string (\<^verbatim>\<open>char *\<close>) is a \<open>string\<close>, the
  characters before the terminating NUL; binary data (\<^verbatim>\<open>uint8_t *\<close> with a length) is a
  list of \<open>byte\<close>s.  The first part models what the sources use of the C library:
  \<^verbatim>\<open>strchr\<close>, \<^verbatim>\<open>strrchr\<close>, \<^verbatim>\<open>strstr\<close>, \<^verbatim>\<open>strtok_r\<close>, the \<^verbatim>\<open>printf\<close> conversions
  \<^verbatim>\<open>%d\<close>, \<^verbatim>\<open>%02x\<close> and \<^verbatim>\<open>%04x\<close>, the truncation of \<^verbatim>\<open>snprintf\<close>, truncating division, and the
  loops that shift an array left by one or double a capacity.  The second part holds the
  lemmas on them that the components share.
\<close>

named_theorems c_defs \<open>definitions of the C library model, unfolded to evaluate a call\<close>
named_theorems c_simps \<open>rewrite rules of the C library model\<close>

type_synonym byte = "8 word"
type_synonym u32 = "32 word"

section \<open>Characters and bytes\<close>

definition c2b :: "char \<Rightarrow> byte" where
  "c2b c = of_char c"

definition b2c :: "byte \<Rightarrow> char" where
  "b2c b = char_of (unat b)"

abbreviation bytes_of :: "string \<Rightarrow> byte list" where
  "bytes_of s \<equiv> map c2b s"

abbreviation chars_of :: "byte list \<Rightarrow> string" where
  "chars_of bs \<equiv> map b2c bs"

abbreviation code :: "char \<Rightarrow> nat" where
  "code c \<equiv> of_char c"

abbreviation NUL :: char where
  "NUL \<equiv> CHR 0x00"

definition c_str :: "string \<Rightarrow> string" where
  "c_str s = takeWhile (\<lambda>c. c \<noteq> NUL) s"

section \<open>String search\<close>

fun strchr :: "string \<Rightarrow> char \<Rightarrow> nat option" where
  "strchr [] c = None"
| "strchr (x # xs) c = (if x = c then Some 0 else map_option Suc (strchr xs c))"

fun strrchr :: "string \<Rightarrow> char \<Rightarrow> nat option" where
  "strrchr [] c = None"
| "strrchr (x # xs) c =
     (case strrchr xs c of Some i \<Rightarrow> Some (Suc i)
      | None \<Rightarrow> (if x = c then Some 0 else None))"

fun starts_with :: "string \<Rightarrow> string \<Rightarrow> bool" where
  "starts_with s [] = True"
| "starts_with [] (p # ps) = False"
| "starts_with (x # xs) (p # ps) = (x = p \<and> starts_with xs ps)"

fun strstr :: "string \<Rightarrow> string \<Rightarrow> nat option" where
  "strstr [] p = (if p = [] then Some 0 else None)"
| "strstr (x # xs) p =
     (if starts_with (x # xs) p then Some 0 else map_option Suc (strstr xs p))"

text \<open>\<^verbatim>\<open>strtok_r\<close> with one delimiter: the maximal runs of other characters.\<close>

fun strtok_aux :: "char \<Rightarrow> string \<Rightarrow> string \<Rightarrow> string list" where
  "strtok_aux d cur [] = (if cur = [] then [] else [cur])"
| "strtok_aux d cur (x # xs) =
     (if x = d then (if cur = [] then [] else [cur]) @ strtok_aux d [] xs
      else strtok_aux d (cur @ [x]) xs)"

definition strtok_all :: "string \<Rightarrow> char \<Rightarrow> string list" where
  "strtok_all s d = strtok_aux d [] s"

section \<open>Printing\<close>

definition snprintf :: "nat \<Rightarrow> string \<Rightarrow> string" where [c_defs]:
  "snprintf n s = take (n - 1) s"

definition digit_char :: "nat \<Rightarrow> char" where
  "digit_char d = char_of (if d < 10 then 48 + d else 87 + d)"

fun dec_nat :: "nat \<Rightarrow> string" where
  "dec_nat n = (if n < 10 then [digit_char n] else dec_nat (n div 10) @ [digit_char (n mod 10)])"

declare dec_nat.simps [simp del]

definition dec_int :: "int \<Rightarrow> string" where
  "dec_int i = (if i < 0 then CHR ''-'' # dec_nat (nat (- i)) else dec_nat (nat i))"

definition hex_02x :: "nat \<Rightarrow> string" where
  "hex_02x n = [digit_char (n div 16), digit_char (n mod 16)]"

definition hex_04x :: "nat \<Rightarrow> string" where
  "hex_04x n = [digit_char (n div 4096), digit_char (n div 256 mod 16),
                digit_char (n div 16 mod 16), digit_char (n mod 16)]"

definition xdigit :: "char \<Rightarrow> nat option" where
  "xdigit c =
     (let n = code c in
      if 48 \<le> n \<and> n \<le> 57 then Some (n - 48)
      else if 97 \<le> n \<and> n \<le> 102 then Some (n - 87)
      else if 65 \<le> n \<and> n \<le> 70 then Some (n - 55)
      else None)"

section \<open>Case conversion\<close>

definition to_lower :: "char \<Rightarrow> char" where
  "to_lower c = (if 65 \<le> code c \<and> code c \<le> 90 then char_of (code c + 32) else c)"

definition to_upper :: "char \<Rightarrow> char" where
  "to_upper c = (if 97 \<le> code c \<and> code c \<le> 122 then char_of (code c - 32) else c)"

section \<open>Arrays and capacities\<close>

text \<open>
  The loop \<^verbatim>\<open>for (j = i; j < count - 1; j++) a[j] = a[j + 1];\<close> on an array whose live part
  is the list \<open>xs\<close> (\<open>count = length xs\<close>), followed by \<^verbatim>\<open>count--\<close>.
\<close>

function shift_loop :: "nat \<Rightarrow> 'a list \<Rightarrow> 'a list" where
  "shift_loop j xs =
     (if j + 1 < length xs then shift_loop (j + 1) (xs[j := xs ! (j + 1)]) else xs)"
  by pat_completeness auto
termination
  by (relation "measure (\<lambda>(j, xs). length xs - j)") auto

declare shift_loop.simps [simp del]

definition remove_at :: "nat \<Rightarrow> 'a list \<Rightarrow> 'a list" where
  "remove_at i xs = take (length xs - 1) (shift_loop i xs)"

text \<open>
  The loop \<^verbatim>\<open>while (need > cap) cap *= 2;\<close>.  It runs for ever on a capacity of 0, so its
  model returns an option; \<open>grow_cap_Some\<close> below shows that it stops on the capacities the
  code has.
\<close>

partial_function (option) grow_cap :: "nat \<Rightarrow> nat \<Rightarrow> nat option" where
  "grow_cap need cap = (if need \<le> cap then Some cap else grow_cap need (2 * cap))"

section \<open>Lemmas: characters and bytes\<close>

lemma unat_byte_less [simp]: "unat (b :: byte) < 256"
  using unsigned_less [of b, where 'a = nat] by simp

lemma unat_c2b [simp]: "unat (c2b c) = code c"
proof -
  have "c2b c = of_nat (code c)" by (simp add: c2b_def of_nat_of_char)
  then show ?thesis by (simp add: unsigned_of_nat take_bit_eq_mod)
qed

lemma b2c_c2b [simp]: "b2c (c2b c) = c"
  by (simp add: b2c_def)

lemma code_char_of [simp]: "n < 256 \<Longrightarrow> code (char_of n) = n"
  by simp

lemma code_b2c [simp]: "code (b2c b) = unat b"
  by (simp add: b2c_def)

lemma c2b_b2c [simp]: "c2b (b2c b) = b"
  by (simp add: word_unat_eq_iff)

lemma b2c_inject [simp]: "b2c a = b2c b \<longleftrightarrow> a = b"
  by (metis c2b_b2c)

lemma c2b_inject [simp]: "c2b a = c2b b \<longleftrightarrow> a = b"
  by (metis b2c_c2b)

lemma bytes_chars [simp]: "map (c2b \<circ> b2c) bs = bs" and chars_bytes [simp]: "map (b2c \<circ> c2b) s = s"
  by (simp_all add: comp_def)

lemma c_str_no_NUL [simp]: "NUL \<notin> set (c_str s)"
  unfolding c_str_def by (metis (mono_tags, lifting) set_takeWhileD)

lemma c_str_id [simp]: "NUL \<notin> set s \<Longrightarrow> c_str s = s"
  unfolding c_str_def by (induction s) auto

section \<open>Lemmas: searching\<close>

lemma strchr_None [simp]: "strchr s c = None \<longleftrightarrow> c \<notin> set s"
  by (induction s) auto

lemma strchr_Some: "strchr s c = Some i \<longleftrightarrow> i < length s \<and> s ! i = c \<and> c \<notin> set (take i s)"
proof (induction s arbitrary: i)
  case Nil
  then show ?case by simp
next
  case (Cons x xs)
  show ?case
  proof (cases i)
    case 0
    then show ?thesis by auto
  next
    case (Suc j)
    then show ?thesis using Cons.IH [of j] by auto
  qed
qed

lemma strchr_append [c_simps]: "c \<notin> set a \<Longrightarrow> strchr (a @ c # b) c = Some (length a)"
  by (induction a) auto

lemma strchr_takeWhile: "strchr s c = Some i \<Longrightarrow> take i s = takeWhile (\<lambda>x. x \<noteq> c) s"
proof (induction s arbitrary: i)
  case (Cons x xs)
  then show ?case by (cases i) (auto split: if_splits)
qed simp

lemma strrchr_None [simp]: "strrchr s c = None \<longleftrightarrow> c \<notin> set s"
  by (induction s) (auto split: option.splits)

lemma strrchr_append [c_simps]: "c \<notin> set b \<Longrightarrow> strrchr (a @ c # b) c = Some (length a)"
proof (induction a)
  case Nil
  then show ?case by (simp split: option.split)
next
  case (Cons x a)
  then show ?case by simp
qed

lemma strrchr_Some: "strrchr s c = Some i \<Longrightarrow> c \<notin> set (drop (Suc i) s)"
  by (induction s arbitrary: i) (auto split: option.splits if_splits simp flip: strrchr_None)

lemma starts_with_iff: "starts_with s p \<longleftrightarrow> (\<exists>r. s = p @ r)"
  by (induction s p rule: starts_with.induct) auto

lemma strstr_None: "strstr s p = None \<longleftrightarrow> (\<forall>a b. s \<noteq> a @ p @ b)"
proof (induction s p rule: strstr.induct)
  case (1 p)
  then show ?case by auto
next
  case (2 x xs p)
  show ?case
  proof (cases "starts_with (x # xs) p")
    case True
    then show ?thesis by (auto simp: starts_with_iff) (metis append_Nil)
  next
    case False
    have "(\<exists>a b. x # xs = a @ p @ b) \<longleftrightarrow> (\<exists>a b. xs = a @ p @ b)" (is "?L \<longleftrightarrow> ?R")
    proof
      assume ?L
      then obtain a b where ab: "x # xs = a @ p @ b" by blast
      from ab False have "a \<noteq> []" by (auto simp: starts_with_iff)
      with ab show ?R by (cases a) auto
    next
      assume ?R
      then show ?L by (metis append_Cons)
    qed
    with False 2 show ?thesis by auto
  qed
qed

lemma strstr_split: "strstr s p = Some n \<Longrightarrow> \<exists>a b. s = a @ p @ b \<and> length a = n"
proof (induction s p arbitrary: n rule: strstr.induct)
  case (2 x xs p)
  show ?case
  proof (cases "starts_with (x # xs) p")
    case True
    with 2 show ?thesis by (auto simp: starts_with_iff)
  next
    case False
    with 2 obtain m a b where "n = Suc m" "xs = a @ p @ b" "length a = m" by auto
    then show ?thesis by (intro exI [of _ "x # a"] exI [of _ b]) simp
  qed
qed (auto split: if_splits)

lemma strstr_first: "strstr s p = Some n \<Longrightarrow> s = a @ p @ b \<Longrightarrow> n \<le> length a"
proof (induction s p arbitrary: n a rule: strstr.induct)
  case (2 x xs p)
  show ?case
  proof (cases "starts_with (x # xs) p")
    case False
    with "2.prems"(1) obtain m where m: "n = Suc m" "strstr xs p = Some m" by auto
    from False "2.prems"(2) obtain a' where "a = x # a'"
      by (cases a) (auto simp: starts_with_iff)
    with "2.IH" [OF False m(2), of a'] "2.prems"(2) m(1) show ?thesis by simp
  qed (use "2.prems"(1) in simp)
qed (auto split: if_splits)

lemma strstr_append:
  assumes "\<And>a' b'. a @ p @ b = a' @ p @ b' \<Longrightarrow> length a \<le> length a'"
  shows "strstr (a @ p @ b) p = Some (length a)"
proof -
  obtain n where n: "strstr (a @ p @ b) p = Some n"
    using strstr_None [of "a @ p @ b" p] by (metis not_None_eq)
  from strstr_split [OF n] assms have "length a \<le> n" by metis
  with strstr_first [OF n refl] n show ?thesis by simp
qed

lemma strtok_aux_run: "d \<notin> set w \<Longrightarrow> strtok_aux d cur (w @ s) = strtok_aux d (cur @ w) s"
  by (induction w arbitrary: cur) auto

lemma strtok_all_Cons [c_simps]:
  "d \<notin> set w \<Longrightarrow> w \<noteq> [] \<Longrightarrow> strtok_all (w @ d # s) d = w # strtok_all s d"
  by (simp add: strtok_all_def strtok_aux_run)

lemma strtok_all_single [c_simps]: "d \<notin> set w \<Longrightarrow> w \<noteq> [] \<Longrightarrow> strtok_all w d = [w]"
  using strtok_aux_run [of d w "[]" "[]"] by (simp add: strtok_all_def)

lemma strtok_all_Nil [simp]: "strtok_all [] d = []"
  by (simp add: strtok_all_def)

section \<open>Lemmas: printing\<close>

lemma length_snprintf: "0 < n \<Longrightarrow> length (snprintf n s) < n"
  by (simp add: snprintf_def)

lemma snprintf_id [c_simps]: "length s < n \<Longrightarrow> snprintf n s = s"
  by (simp add: snprintf_def)

lemma code_digit_char: "d < 16 \<Longrightarrow> code (digit_char d) = (if d < 10 then 48 + d else 87 + d)"
  by (simp add: digit_char_def)

lemma xdigit_digit_char [simp]: "d < 16 \<Longrightarrow> xdigit (digit_char d) = Some d"
  by (auto simp: xdigit_def Let_def code_digit_char)

lemma digit_char_NUL: "d < 16 \<Longrightarrow> digit_char d \<noteq> NUL"
  by (auto dest!: code_digit_char split: if_splits)

lemma digit_char_inj: "a < 16 \<Longrightarrow> b < 16 \<Longrightarrow> digit_char a = digit_char b \<Longrightarrow> a = b"
  by (metis option.inject xdigit_digit_char)

lemma digit_char_hex: "d < 16 \<Longrightarrow> digit_char d \<in> set ''0123456789abcdef''"
proof -
  have "\<forall>d \<in> set [0..<16]. digit_char d \<in> set ''0123456789abcdef''" by code_simp
  then show "d < 16 \<Longrightarrow> digit_char d \<in> set ''0123456789abcdef''" by (metis atLeastLessThan_iff le0 set_upt)
qed

lemma dec_nat_not_Nil [simp]: "dec_nat n \<noteq> []"
  by (subst dec_nat.simps) simp

lemma dec_nat_inj: "dec_nat m = dec_nat n \<longleftrightarrow> m = n"
proof (induction m arbitrary: n rule: less_induct)
  case (less m)
  show ?case
  proof (cases "m < 10 \<or> n < 10")
    case True
    then show ?thesis
      using dec_nat_not_Nil [of "m div 10"] dec_nat_not_Nil [of "n div 10", symmetric]
      by (auto simp: dec_nat.simps [of m] dec_nat.simps [of n] dest!: digit_char_inj [rotated 2])
  next
    case False
    then have IH: "dec_nat (m div 10) = dec_nat (n div 10) \<longleftrightarrow> m div 10 = n div 10"
      by (intro less.IH) simp
    have "m mod 10 = n mod 10 \<and> m div 10 = n div 10 \<longleftrightarrow> m = n"
      by (metis div_mult_mod_eq)
    with False IH show ?thesis
      by (auto simp: dec_nat.simps [of m] dec_nat.simps [of n] dest!: digit_char_inj [rotated 2])
  qed
qed

lemma hex_02x_length [simp]: "length (hex_02x n) = 2"
  by (simp add: hex_02x_def)

section \<open>Lemmas: arrays and capacities\<close>

lemma length_shift_loop [simp]: "length (shift_loop j xs) = length xs"
proof (induction j xs rule: shift_loop.induct)
  case (1 j xs)
  then show ?case by (subst shift_loop.simps) simp
qed

lemma shift_loop_append:
  "shift_loop (length a) (a @ x # b) = (if b = [] then a @ [x] else a @ b @ [last b])"
proof (induction b arbitrary: a x)
  case Nil
  then show ?case by (subst shift_loop.simps) simp
next
  case (Cons y b)
  have "shift_loop (length a) (a @ x # y # b) = shift_loop (length (a @ [y])) ((a @ [y]) @ y # b)"
    by (subst shift_loop.simps) (simp add: nth_append)
  also have "\<dots> = (if b = [] then a @ [y, y] else a @ y # b @ [last b])"
    using Cons.IH [of "a @ [y]" y] by simp
  finally show ?case by simp
qed

lemma remove_at_append [simp]: "remove_at (length a) (a @ x # b) = a @ b"
  by (simp add: remove_at_def shift_loop_append)

lemma remove_at_eq: "i < length xs \<Longrightarrow> remove_at i xs = take i xs @ drop (Suc i) xs"
  using remove_at_append [of "take i xs" "xs ! i" "drop (Suc i) xs"]
  by (simp add: id_take_nth_drop [symmetric] min_def)

lemma length_remove_at: "length (remove_at i xs) = length xs - 1"
  by (simp add: remove_at_def)

lemma remove_at_0 [simp]: "remove_at 0 (x # xs) = xs"
  using remove_at_append [of "[]" x xs] by simp

lemma remove_at_Suc [simp]: "i < length xs \<Longrightarrow> remove_at (Suc i) (x # xs) = x # remove_at i xs"
  by (simp add: remove_at_eq)

lemma remove_at_split:
  assumes "i < length es"
  obtains a b where "es = a @ es ! i # b" "length a = i" "remove_at i es = a @ b"
    "\<forall>e. es[i := e] = a @ e # b"
proof
  show "es = take i es @ es ! i # drop (Suc i) es" using assms by (rule id_take_nth_drop)
  show "length (take i es) = i" using assms by (simp add: min_def)
  show "remove_at i es = take i es @ drop (Suc i) es" using assms by (simp add: remove_at_eq)
  show "\<forall>e. es[i := e] = take i es @ e # drop (Suc i) es"
    using assms by (simp add: upd_conv_take_nth_drop)
qed

lemma set_remove_at: "i < length xs \<Longrightarrow> set (remove_at i xs) \<subseteq> set xs"
  by (auto simp: remove_at_eq dest: in_set_takeD in_set_dropD)

lemma distinct_map_remove_at:
  assumes "distinct (map f xs)" and "i < length xs"
  shows "distinct (map f (remove_at i xs))"
proof -
  obtain a x b where "xs = a @ x # b" "remove_at i xs = a @ b"
    by (rule remove_at_split [OF assms(2)])
  with assms(1) show ?thesis by simp
qed

lemma grow_cap_Some:
  assumes "0 < cap"
  shows "\<exists>c. grow_cap need cap = Some c \<and> need \<le> c \<and> cap \<le> c"
  using assms
proof (induction "need - cap" arbitrary: cap rule: less_induct)
  case less
  show ?case
  proof (cases "need \<le> cap")
    case True
    then show ?thesis by (simp add: grow_cap.simps)
  next
    case False
    with less.prems have "need - 2 * cap < need - cap" and "0 < 2 * cap" by auto
    from less.hyps [OF this] obtain c where
      "grow_cap need (2 * cap) = Some c" "need \<le> c" "2 * cap \<le> c" by blast
    with False show ?thesis by (auto simp: grow_cap.simps [of need cap])
  qed
qed

end
