(* ===== verification/Js_Api.thy ===== *)
theory Js_Api
  imports Prelude
begin

text \<open>
  The interface between the C code and the JavaScript engine.  The engine (vendored under
  \<^verbatim>\<open>src/quickjs\<close>) is a parameter of the model: a value of type \<open>'v js_api\<close> says what the
  conversions the polyfills call return for a JavaScript value of the abstract type \<open>'v\<close>, and
  a \<open>js_result\<close> is the value a native function hands back, named after the constructor call
  that builds it.  Memory allocation is the parameter \<open>malloc_ok\<close>: whether an allocation of
  that many bytes succeeds, for the calls whose result the code checks.
\<close>

section \<open>What the engine answers\<close>

text \<open>
  \<open>js_cstring_len v\<close> is \<^verbatim>\<open>JS_ToCStringLen\<close>: the UTF-8 bytes of the value's string form, or
  \<open>None\<close> where the conversion throws and the pointer is NULL.  \<open>js_array_buffer v\<close> is
  \<^verbatim>\<open>JS_GetArrayBuffer\<close>.  \<open>js_int32\<close> and \<open>js_int64\<close> are what \<^verbatim>\<open>JS_ToInt32\<close> and \<^verbatim>\<open>JS_ToInt64\<close>
  leave in the result variable.
\<close>

record 'v js_api =
  js_cstring_len :: "'v \<Rightarrow> string option"
  js_array_buffer :: "'v \<Rightarrow> byte list option"
  js_int32 :: "'v \<Rightarrow> int"
  js_int64 :: "'v \<Rightarrow> int"
  js_is_object :: "'v \<Rightarrow> bool"
  js_is_undefined :: "'v \<Rightarrow> bool"
  js_is_null :: "'v \<Rightarrow> bool"
  js_get_property :: "'v \<Rightarrow> string \<Rightarrow> 'v"
  js_own_names :: "'v \<Rightarrow> string list option"

text \<open>\<^verbatim>\<open>JS_ToCString\<close>: the same bytes read as a C string, so up to the first NUL.\<close>

definition js_cstring :: "'v js_api \<Rightarrow> 'v \<Rightarrow> string option" where
  "js_cstring api v = map_option c_str (js_cstring_len api v)"

section \<open>What a native function returns\<close>

datatype js_result =
    JS_UNDEFINED
  | JS_NULL
  | JS_EXCEPTION
  | JS_NewBool bool
  | JS_NewInt32 int
  | JS_NewInt64 int
  | JS_NewStringLen string
  | JS_NewArrayBufferCopy "byte list"
  | JS_ThrowTypeError string

abbreviation JS_NewString :: "string \<Rightarrow> js_result" where
  "JS_NewString s \<equiv> JS_NewStringLen s"

text \<open>A promise made by \<^verbatim>\<open>JS_NewPromiseCapability\<close> and settled before the native function returns.\<close>

datatype js_settled = Resolved js_result | Rejected js_result

lemma js_cstring_no_NUL: "js_cstring api v = Some s \<Longrightarrow> NUL \<notin> set s"
  by (auto simp: js_cstring_def)

section \<open>Plain objects\<close>

text \<open>\<^verbatim>\<open>JS_SetPropertyStr\<close> on a plain object: replace the property or add it at the end.\<close>

fun set_property :: "(string \<times> 'p) list \<Rightarrow> string \<Rightarrow> 'p \<Rightarrow> (string \<times> 'p) list" where
  "set_property [] k v = [(k, v)]"
| "set_property ((k', v') # ps) k v = (if k' = k then (k, v) # ps else (k', v') # set_property ps k v)"

lemma map_of_set_property: "map_of (set_property ps k v) = (map_of ps)(k \<mapsto> v)"
  by (induction ps) (auto simp: fun_upd_twist)

end
