(* ===== verification/Encoding.thy ===== *)
theory Encoding
  imports Js_Api
begin

text \<open>
  The component \<^verbatim>\<open>src/polyfill/encoding.c\<close>: base64 and hexadecimal conversion and the native
  functions \<^verbatim>\<open>atob\<close>, \<^verbatim>\<open>btoa\<close>, \<^verbatim>\<open>TextEncoder.encode\<close> and \<^verbatim>\<open>TextDecoder.decode\<close>.  The decoding
  table is the source's, entry by entry.
\<close>

unbundle bit_operations_syntax

section \<open>Base64\<close>

definition b64_table :: string where
  "b64_table = ''ABCDEFGHIJKLMNOPQRSTUVWXYZabcdefghijklmnopqrstuvwxyz0123456789+/''"

definition b64_decode_entries :: "(char \<times> u32) list" where
  "b64_decode_entries =
    [(CHR ''A'',0),(CHR ''B'',1),(CHR ''C'',2),(CHR ''D'',3),(CHR ''E'',4),(CHR ''F'',5),
     (CHR ''G'',6),(CHR ''H'',7),(CHR ''I'',8),(CHR ''J'',9),(CHR ''K'',10),(CHR ''L'',11),
     (CHR ''M'',12),(CHR ''N'',13),(CHR ''O'',14),(CHR ''P'',15),(CHR ''Q'',16),(CHR ''R'',17),
     (CHR ''S'',18),(CHR ''T'',19),(CHR ''U'',20),(CHR ''V'',21),(CHR ''W'',22),(CHR ''X'',23),
     (CHR ''Y'',24),(CHR ''Z'',25),(CHR ''a'',26),(CHR ''b'',27),(CHR ''c'',28),(CHR ''d'',29),
     (CHR ''e'',30),(CHR ''f'',31),(CHR ''g'',32),(CHR ''h'',33),(CHR ''i'',34),(CHR ''j'',35),
     (CHR ''k'',36),(CHR ''l'',37),(CHR ''m'',38),(CHR ''n'',39),(CHR ''o'',40),(CHR ''p'',41),
     (CHR ''q'',42),(CHR ''r'',43),(CHR ''s'',44),(CHR ''t'',45),(CHR ''u'',46),(CHR ''v'',47),
     (CHR ''w'',48),(CHR ''x'',49),(CHR ''y'',50),(CHR ''z'',51),(CHR ''0'',52),(CHR ''1'',53),
     (CHR ''2'',54),(CHR ''3'',55),(CHR ''4'',56),(CHR ''5'',57),(CHR ''6'',58),(CHR ''7'',59),
     (CHR ''+'',62),(CHR ''/'',63)]"

text \<open>An array element without an initializer is 0.\<close>

definition b64_decode_table :: "char \<Rightarrow> u32" where
  "b64_decode_table c = (case map_of b64_decode_entries c of Some v \<Rightarrow> v | None \<Rightarrow> 0)"

definition b64_sextet :: "u32 \<Rightarrow> nat \<Rightarrow> u32" where
  "b64_sextet triple n = drop_bit n triple AND 0x3F"

definition b64_triple :: "byte \<Rightarrow> byte \<Rightarrow> byte \<Rightarrow> u32" where
  "b64_triple a b c = (push_bit 16 (ucast a) OR push_bit 8 (ucast b)) OR ucast c"

definition b64_quad :: "byte \<Rightarrow> byte \<Rightarrow> byte \<Rightarrow> string" where
  "b64_quad a b c =
     (let triple = b64_triple a b c in
      [b64_table ! unat (b64_sextet triple 18), b64_table ! unat (b64_sextet triple 12),
       b64_table ! unat (b64_sextet triple 6), b64_table ! unat (b64_sextet triple 0)])"

text \<open>The encoding loop reads up to three bytes a round, 0 for the missing ones.\<close>

fun b64_enc_loop :: "byte list \<Rightarrow> string" where
  "b64_enc_loop [] = []"
| "b64_enc_loop [a] = b64_quad a 0 0"
| "b64_enc_loop [a, b] = b64_quad a b 0"
| "b64_enc_loop (a # b # c # rest) = b64_quad a b c @ b64_enc_loop rest"

definition base64_encode :: "(nat \<Rightarrow> bool) \<Rightarrow> byte list \<Rightarrow> string option" where
  "base64_encode malloc_ok data =
     (let olen = 4 * ((length data + 2) div 3) in
      if \<not> malloc_ok (olen + 1) then None
      else
        let out = b64_enc_loop data; j = length out; m = length data mod 3 in
        Some (if m = 1 then out[j - 1 := CHR ''='', j - 2 := CHR ''='']
              else if m = 2 then out[j - 1 := CHR ''='']
              else out))"

text \<open>The loop that drops trailing \<^verbatim>\<open>=\<close>, line feeds and carriage returns.\<close>

definition b64_is_trailer :: "char \<Rightarrow> bool" where
  "b64_is_trailer c \<longleftrightarrow> c = CHR ''='' \<or> c = CHR 0x0A \<or> c = CHR 0x0D"

definition b64_strip :: "string \<Rightarrow> string" where
  "b64_strip s = rev (dropWhile b64_is_trailer (rev s))"

definition b64_dec_triple :: "u32 \<Rightarrow> u32 \<Rightarrow> u32 \<Rightarrow> u32 \<Rightarrow> u32" where
  "b64_dec_triple a b c d =
     ((push_bit 18 a OR push_bit 12 b) OR push_bit 6 c) OR d"

definition b64_put :: "nat \<Rightarrow> byte list \<Rightarrow> u32 \<Rightarrow> byte list" where
  "b64_put olen out w = (if length out < olen then out @ [ucast (w AND 0xFF)] else out)"

definition b64_put3 :: "nat \<Rightarrow> byte list \<Rightarrow> u32 \<Rightarrow> byte list" where
  "b64_put3 olen out triple =
     b64_put olen (b64_put olen (b64_put olen out (drop_bit 16 triple)) (drop_bit 8 triple)) triple"

fun b64_dec_loop :: "nat \<Rightarrow> byte list \<Rightarrow> string \<Rightarrow> byte list" where
  "b64_dec_loop olen out [] = out"
| "b64_dec_loop olen out [a] =
     b64_put3 olen out (b64_dec_triple (b64_decode_table a) 0 0 0)"
| "b64_dec_loop olen out [a, b] =
     b64_put3 olen out (b64_dec_triple (b64_decode_table a) (b64_decode_table b) 0 0)"
| "b64_dec_loop olen out [a, b, c] =
     b64_put3 olen out
       (b64_dec_triple (b64_decode_table a) (b64_decode_table b) (b64_decode_table c) 0)"
| "b64_dec_loop olen out (a # b # c # d # rest) =
     b64_dec_loop olen
       (b64_put3 olen out
         (b64_dec_triple (b64_decode_table a) (b64_decode_table b)
           (b64_decode_table c) (b64_decode_table d))) rest"

definition base64_decode :: "(nat \<Rightarrow> bool) \<Rightarrow> string \<Rightarrow> byte list option" where
  "base64_decode malloc_ok src =
     (let s = b64_strip src; olen = length s * 3 div 4 in
      if \<not> malloc_ok (olen + 1) then None else Some (b64_dec_loop olen [] s))"

section \<open>Hexadecimal\<close>

definition hex_encode :: "(nat \<Rightarrow> bool) \<Rightarrow> byte list \<Rightarrow> string option" where
  "hex_encode malloc_ok data =
     (if \<not> malloc_ok (length data * 2 + 1) then None
      else Some (concat (map (\<lambda>b. hex_02x (unat b)) data)))"

text \<open>
  \<^verbatim>\<open>sscanf(s, "%2x", &val)\<close>: white space is skipped and does not count against the width; then
  at most two characters form an optionally signed hexadecimal number.  \<^verbatim>\<open>0x\<close> alone is not a
  number, so the conversion fails there as it does on any other non-digit, and \<^verbatim>\<open>val\<close> is not
  written.
\<close>

definition is_space :: "char \<Rightarrow> bool" where
  "is_space c \<longleftrightarrow> c = CHR '' '' \<or> (9 \<le> code c \<and> code c \<le> 13)"

definition sscanf_2x :: "string \<Rightarrow> u32 option" where
  "sscanf_2x s =
     (case dropWhile is_space s of
        [] \<Rightarrow> None
      | a # r \<Rightarrow>
          (let nxt = (case r of [] \<Rightarrow> None | b # _ \<Rightarrow> xdigit b) in
           if a = CHR ''+'' then map_option of_nat nxt
           else if a = CHR ''-'' then map_option (\<lambda>d. - of_nat d) nxt
           else case xdigit a of
                  None \<Rightarrow> None
                | Some d \<Rightarrow>
                    if d = 0 \<and> r \<noteq> [] \<and> (hd r = CHR ''x'' \<or> hd r = CHR ''X'') then None
                    else case nxt of None \<Rightarrow> Some (of_nat d)
                         | Some e \<Rightarrow> Some (of_nat (16 * d + e))))"

text \<open>
  \<^verbatim>\<open>val\<close> has no initializer: where the conversion fails, its value in round \<open>i\<close> is the
  parameter \<open>indet i\<close>.
\<close>

definition hex_decode :: "(nat \<Rightarrow> bool) \<Rightarrow> (nat \<Rightarrow> u32) \<Rightarrow> string \<Rightarrow> byte list option" where
  "hex_decode malloc_ok indet src =
     (let olen = length src div 2 in
      if \<not> malloc_ok olen then None
      else Some (map (\<lambda>i. ucast (case sscanf_2x (c_str (drop (i * 2) src)) of
                                   Some v \<Rightarrow> v | None \<Rightarrow> indet i) :: byte) [0..<olen]))"

section \<open>The native functions\<close>

definition js_atob :: "(nat \<Rightarrow> bool) \<Rightarrow> 'v js_api \<Rightarrow> 'v list \<Rightarrow> js_result" where
  "js_atob malloc_ok api argv =
     (case argv of
        [] \<Rightarrow> JS_ThrowTypeError ''atob requires 1 argument''
      | a # _ \<Rightarrow>
          (case js_cstring api a of
             None \<Rightarrow> JS_EXCEPTION
           | Some encoded \<Rightarrow>
               (case base64_decode malloc_ok encoded of
                  None \<Rightarrow> JS_ThrowTypeError ''atob: invalid base64 string''
                | Some decoded \<Rightarrow> JS_NewStringLen (chars_of decoded))))"

definition js_btoa :: "(nat \<Rightarrow> bool) \<Rightarrow> 'v js_api \<Rightarrow> 'v list \<Rightarrow> js_result" where
  "js_btoa malloc_ok api argv =
     (case argv of
        [] \<Rightarrow> JS_ThrowTypeError ''btoa requires 1 argument''
      | a # _ \<Rightarrow>
          (case js_cstring_len api a of
             None \<Rightarrow> JS_EXCEPTION
           | Some str \<Rightarrow>
               (case base64_encode malloc_ok (bytes_of str) of
                  None \<Rightarrow> JS_ThrowTypeError ''btoa: encoding failed''
                | Some encoded \<Rightarrow> JS_NewStringLen encoded)))"

definition js_text_encoder_encode :: "'v js_api \<Rightarrow> 'v list \<Rightarrow> js_result" where
  "js_text_encoder_encode api argv =
     (case argv of
        [] \<Rightarrow> JS_NewArrayBufferCopy []
      | a # _ \<Rightarrow>
          (case js_cstring_len api a of
             None \<Rightarrow> JS_EXCEPTION
           | Some str \<Rightarrow> JS_NewArrayBufferCopy (bytes_of str)))"

definition js_text_decoder_decode :: "'v js_api \<Rightarrow> 'v list \<Rightarrow> js_result" where
  "js_text_decoder_decode api argv =
     (case argv of
        [] \<Rightarrow> JS_NewString []
      | a # _ \<Rightarrow>
          (case js_array_buffer api a of
             Some buf \<Rightarrow> JS_NewStringLen (chars_of buf)
           | None \<Rightarrow>
               (case js_cstring api a of
                  None \<Rightarrow> JS_NewString []
                | Some str \<Rightarrow> JS_NewString str)))"

section \<open>Lemmas: the tables\<close>

lemma length_b64_table [simp]: "length b64_table = 64"
  by (simp add: b64_table_def)

lemma b64_sextet_less [simp]: "unat (b64_sextet t n) < 64"
proof -
  have "unat (drop_bit n t AND 0x3F) \<le> unat (0x3F :: u32)"
    by (rule word_and_le1 [THEN word_le_nat_alt [THEN iffD1]])
  then show ?thesis by (simp add: b64_sextet_def)
qed

text \<open>What the decoding table makes of the character of a sextet: 60 and 61 are lost.\<close>

definition b64_lossy :: "u32 \<Rightarrow> u32" where
  "b64_lossy s = (if s = 60 \<or> s = 61 then 0 else s)"

lemma b64_tables_agree:
  "list_all (\<lambda>i. b64_decode_table (b64_table ! i) = b64_lossy (of_nat i) \<and>
     \<not> b64_is_trailer (b64_table ! i) \<and>
     (b64_table ! i \<in> {CHR ''8'', CHR ''9''} \<longleftrightarrow> i = 60 \<or> i = 61)) [0..<64]"
  by code_simp

lemma b64_table_nth:
  assumes "unat s < 64"
  shows "b64_decode_table (b64_table ! unat s) = b64_lossy s"
    and "\<not> b64_is_trailer (b64_table ! unat s)"
    and "b64_table ! unat s \<in> {CHR ''8'', CHR ''9''} \<longleftrightarrow> b64_lossy s \<noteq> s"
proof -
  from assms have "unat s \<in> set [0..<64]" by simp
  with b64_tables_agree have *: "b64_decode_table (b64_table ! unat s) = b64_lossy (of_nat (unat s))"
    "\<not> b64_is_trailer (b64_table ! unat s)"
    "b64_table ! unat s \<in> {CHR ''8'', CHR ''9''} \<longleftrightarrow> unat s = 60 \<or> unat s = 61"
    unfolding list_all_iff by blast+
  then show "b64_decode_table (b64_table ! unat s) = b64_lossy s"
    and "\<not> b64_is_trailer (b64_table ! unat s)" by simp_all
  have "unat s = 60 \<longleftrightarrow> s = 60" and "unat s = 61 \<longleftrightarrow> s = 61"
    by (simp_all add: word_unat_eq_iff)
  with *(3) show "b64_table ! unat s \<in> {CHR ''8'', CHR ''9''} \<longleftrightarrow> b64_lossy s \<noteq> s"
    by (auto simp: b64_lossy_def)
qed

section \<open>Lemmas: one group of three bytes\<close>

lemma mask_numerals: "(0x3F :: u32) = mask 6" "(0xFF :: u32) = mask 8"
  by (simp_all add: mask_eq_exp_minus_1)

lemma bit_sextet: "bit (b64_sextet t n) k \<longleftrightarrow> k < 6 \<and> bit t (n + k)"
  by (auto simp: b64_sextet_def mask_numerals bit_simps dest: bit_imp_le_length)

lemma bit_ucast_byte: "bit (ucast (a :: byte) :: u32) k \<longleftrightarrow> k < 8 \<and> bit a k"
  by (auto simp: bit_simps dest: bit_imp_le_length)

lemma bit_triple:
  "bit (b64_triple a b c) k \<longleftrightarrow>
     (16 \<le> k \<and> k < 24 \<and> bit a (k - 16)) \<or> (8 \<le> k \<and> k < 16 \<and> bit b (k - 8)) \<or> (k < 8 \<and> bit c k)"
  by (auto simp: b64_triple_def bit_simps bit_ucast_byte dest: bit_imp_le_length)

lemma bit_dec_triple:
  assumes "\<forall>k\<ge>6. \<not> bit s0 k" "\<forall>k\<ge>6. \<not> bit s1 k" "\<forall>k\<ge>6. \<not> bit s2 k" "\<forall>k\<ge>6. \<not> bit s3 k"
  shows "bit (b64_dec_triple s0 s1 s2 s3) k \<longleftrightarrow>
     (18 \<le> k \<and> k < 24 \<and> bit s0 (k - 18)) \<or> (12 \<le> k \<and> k < 18 \<and> bit s1 (k - 12)) \<or>
     (6 \<le> k \<and> k < 12 \<and> bit s2 (k - 6)) \<or> (k < 6 \<and> bit s3 k)"
proof -
  have 0: "bit s0 j \<Longrightarrow> j < 6" "bit s1 j \<Longrightarrow> j < 6" "bit s2 j \<Longrightarrow> j < 6" "bit s3 j \<Longrightarrow> j < 6" for j
    using assms by (metis not_less)+
  have "bit (b64_dec_triple s0 s1 s2 s3) k \<longleftrightarrow> k < 32 \<and>
      ((18 \<le> k \<and> bit s0 (k - 18)) \<or> (12 \<le> k \<and> bit s1 (k - 12)) \<or>
       (6 \<le> k \<and> bit s2 (k - 6)) \<or> bit s3 k)"
    by (auto simp: b64_dec_triple_def bit_simps dest: bit_imp_le_length)
  then show ?thesis
    using 0(1) [of "k - 18"] 0(2) [of "k - 12"] 0(3) [of "k - 6"] 0(4) [of k] by auto
qed

lemma lossy_sextet_bits: "6 \<le> k \<Longrightarrow> \<not> bit (b64_lossy (b64_sextet t n)) k"
  by (auto simp: b64_lossy_def bit_sextet)

definition b64_redecode :: "u32 \<Rightarrow> u32" where
  "b64_redecode t = b64_dec_triple (b64_lossy (b64_sextet t 18)) (b64_lossy (b64_sextet t 12))
     (b64_lossy (b64_sextet t 6)) (b64_lossy (b64_sextet t 0))"

lemma bit_redecode:
  "bit (b64_redecode t) k \<longleftrightarrow>
     (18 \<le> k \<and> k < 24 \<and> bit (b64_lossy (b64_sextet t 18)) (k - 18)) \<or>
     (12 \<le> k \<and> k < 18 \<and> bit (b64_lossy (b64_sextet t 12)) (k - 12)) \<or>
     (6 \<le> k \<and> k < 12 \<and> bit (b64_lossy (b64_sextet t 6)) (k - 6)) \<or>
     (k < 6 \<and> bit (b64_lossy (b64_sextet t 0)) k)"
  unfolding b64_redecode_def by (rule bit_dec_triple) (simp_all add: lossy_sextet_bits)

definition b64_lossless :: "u32 \<Rightarrow> bool" where
  "b64_lossless t \<longleftrightarrow> (\<forall>n \<in> {0, 6, 12, 18}. b64_lossy (b64_sextet t n) = b64_sextet t n)"

lemma bit_lossy: "bit (b64_lossy s) k \<Longrightarrow> bit s k"
  by (auto simp: b64_lossy_def split: if_splits)

lemma bit_redecode_subset: "bit (b64_redecode t) k \<Longrightarrow> k < 24 \<and> bit t k"
  by (auto simp: bit_redecode bit_sextet dest!: bit_lossy)

lemma sextet_redecode:
  "n \<in> {0, 6, 12, 18} \<Longrightarrow> b64_sextet (b64_redecode t) n = b64_lossy (b64_sextet t n)"
  by (rule bit_word_eqI)
    (auto simp: bit_sextet bit_redecode dest: lossy_sextet_bits [THEN notE, rotated])

lemma redecode_eq:
  assumes "\<And>k. bit t k \<Longrightarrow> k < 24"
  shows "b64_redecode t = t \<longleftrightarrow> b64_lossless t"
proof
  assume "b64_redecode t = t"
  then show "b64_lossless t"
    unfolding b64_lossless_def by (metis sextet_redecode)
next
  assume "b64_lossless t"
  then have l: "b64_lossy (b64_sextet t 0) = b64_sextet t 0" "b64_lossy (b64_sextet t 6) = b64_sextet t 6"
    "b64_lossy (b64_sextet t 12) = b64_sextet t 12" "b64_lossy (b64_sextet t 18) = b64_sextet t 18"
    by (simp_all add: b64_lossless_def)
  have "bit (b64_redecode t) k \<longleftrightarrow> bit t k" for k :: nat
  proof -
    consider "k < 6" | "6 \<le> k" "k < 12" | "12 \<le> k" "k < 18" | "18 \<le> k" "k < 24" | "24 \<le> k"
      by linarith
    then show ?thesis
      by cases (use assms [of k] in \<open>auto simp: bit_redecode bit_sextet l\<close>)
  qed
  then show "b64_redecode t = t" by (rule bit_word_eqI)
qed

definition b64_byte :: "u32 \<Rightarrow> nat \<Rightarrow> byte" where
  "b64_byte t n = ucast (drop_bit n t AND 0xFF)"

lemma bit_b64_byte: "bit (b64_byte t n) k \<longleftrightarrow> k < 8 \<and> bit t (n + k)"
  by (auto simp: b64_byte_def mask_numerals bit_simps dest: bit_imp_le_length)

lemma bytes_of_triple [simp]:
  "b64_byte (b64_triple a b c) 16 = a" "b64_byte (b64_triple a b c) 8 = b"
  "b64_byte (b64_triple a b c) 0 = c"
  by (rule bit_word_eqI, auto simp: bit_b64_byte bit_triple dest: bit_imp_le_length)+

lemma triple_of_bytes:
  assumes "\<And>k. bit t k \<Longrightarrow> k < 24" and "\<And>k. bit t' k \<Longrightarrow> k < 24"
    and "b64_byte t 16 = b64_byte t' 16" "b64_byte t 8 = b64_byte t' 8" "b64_byte t 0 = b64_byte t' 0"
  shows "t = t'"
proof (rule bit_word_eqI)
  fix k :: nat
  consider "k < 8" | "8 \<le> k" "k < 16" | "16 \<le> k" "k < 24" | "24 \<le> k" by linarith
  then show "bit t k \<longleftrightarrow> bit t' k"
  proof cases
    case 1
    then show ?thesis using bit_b64_byte [of t 0 k] bit_b64_byte [of t' 0 k] assms(5) by simp
  next
    case 2
    then have "k - 8 < 8" by arith
    with 2 show ?thesis
      using bit_b64_byte [of t 8 "k - 8"] bit_b64_byte [of t' 8 "k - 8"] assms(4) by simp
  next
    case 3
    then have "k - 16 < 8" by arith
    with 3 show ?thesis
      using bit_b64_byte [of t 16 "k - 16"] bit_b64_byte [of t' 16 "k - 16"] assms(3) by simp
  next
    case 4
    then show ?thesis using assms(1,2) by fastforce
  qed
qed

lemma redecode_bytes:
  fixes a b c :: byte
  defines "t \<equiv> b64_triple a b c"
  assumes "b64_byte (b64_redecode t) 16 = a"
    and "b64_byte (b64_redecode t) 8 = b \<or> b = 0 \<and> b64_byte (b64_redecode t) 8 = 0"
    and "b64_byte (b64_redecode t) 0 = c \<or> c = 0 \<and> b64_byte (b64_redecode t) 0 = 0"
  shows "b64_lossless t"
proof -
  have t: "k < 24" if "bit t k" for k using that by (auto simp: t_def bit_triple)
  have "b64_redecode t = t"
    by (rule triple_of_bytes) (use assms t in \<open>auto dest: bit_redecode_subset\<close>)
  with redecode_eq [of t] t show ?thesis by simp
qed

lemma redecode_byte_zero:
  "b64_byte t n = 0 \<Longrightarrow> b64_byte (b64_redecode t) n = 0"
proof (rule bit_word_eqI)
  fix k
  assume "b64_byte t n = 0"
  then have "\<not> bit (b64_byte t n) k" by simp
  then show "bit (b64_byte (b64_redecode t) n) k \<longleftrightarrow> bit (0 :: byte) k"
    by (auto simp: bit_b64_byte dest: bit_redecode_subset)
qed

text \<open>Decoding the characters of a group gives its bytes back exactly where no sextet is lost.\<close>

lemma redecode_group:
  fixes a b c :: byte
  defines "t \<equiv> b64_triple a b c"
  shows "b64_byte (b64_redecode t) 16 = a \<and> b64_byte (b64_redecode t) 8 = b \<and>
           b64_byte (b64_redecode t) 0 = c \<longleftrightarrow> b64_lossless t"
    and "c = 0 \<Longrightarrow> b64_byte (b64_redecode t) 16 = a \<and> b64_byte (b64_redecode t) 8 = b
           \<longleftrightarrow> b64_lossless t"
    and "b = 0 \<Longrightarrow> c = 0 \<Longrightarrow> b64_byte (b64_redecode t) 16 = a \<longleftrightarrow> b64_lossless t"
proof -
  have "k < 24" if "bit t k" for k
    using that by (auto simp: t_def bit_triple)
  then have lossless: "b64_lossless t \<Longrightarrow> b64_redecode t = t"
    using redecode_eq [of t] by blast
  have zero: "b = 0 \<Longrightarrow> b64_byte (b64_redecode t) 8 = 0" "c = 0 \<Longrightarrow> b64_byte (b64_redecode t) 0 = 0"
    using redecode_byte_zero [of t 8] redecode_byte_zero [of t 0] by (simp_all add: t_def)
  show "b64_byte (b64_redecode t) 16 = a \<and> b64_byte (b64_redecode t) 8 = b \<and>
           b64_byte (b64_redecode t) 0 = c \<longleftrightarrow> b64_lossless t"
    using lossless redecode_bytes [of a b c] by (auto simp: t_def)
  show "c = 0 \<Longrightarrow> b64_byte (b64_redecode t) 16 = a \<and> b64_byte (b64_redecode t) 8 = b
           \<longleftrightarrow> b64_lossless t"
    using lossless redecode_bytes [of a b c] zero by (auto simp: t_def)
  show "b = 0 \<Longrightarrow> c = 0 \<Longrightarrow> b64_byte (b64_redecode t) 16 = a \<longleftrightarrow> b64_lossless t"
    using lossless redecode_bytes [of a b c] zero by (auto simp: t_def)
qed

section \<open>Lemmas: the loops\<close>

definition b64_bytes3 :: "u32 \<Rightarrow> byte list" where
  "b64_bytes3 t = [b64_byte t 16, b64_byte t 8, b64_byte t 0]"

lemma b64_put3_take:
  "length out \<le> olen \<Longrightarrow> b64_put3 olen out t = out @ take (olen - length out) (b64_bytes3 t)"
  by (auto simp: b64_put3_def b64_put_def b64_bytes3_def b64_byte_def take_Cons split: nat.split)

text \<open>The characters of the encoding before the padding, and what decoding them gives.\<close>

fun b64_core :: "byte list \<Rightarrow> string" where
  "b64_core [] = []"
| "b64_core [a] = take 2 (b64_quad a 0 0)"
| "b64_core [a, b] = take 3 (b64_quad a b 0)"
| "b64_core (a # b # c # rest) = b64_quad a b c @ b64_core rest"

fun b64_back :: "byte list \<Rightarrow> byte list" where
  "b64_back [] = []"
| "b64_back [a] = take 1 (b64_bytes3 (b64_redecode (b64_triple a 0 0)))"
| "b64_back [a, b] = take 2 (b64_bytes3 (b64_redecode (b64_triple a b 0)))"
| "b64_back (a # b # c # rest) = b64_bytes3 (b64_redecode (b64_triple a b c)) @ b64_back rest"

lemma length_b64_quad [simp]: "length (b64_quad a b c) = 4"
  by (simp add: b64_quad_def Let_def)

lemma length_b64_core: "length (b64_core bs) = (4 * length bs + 2) div 3"
  by (induction bs rule: b64_core.induct) auto

lemma b64_enc_loop_core:
  "\<exists>pad. b64_enc_loop bs = b64_core bs @ pad \<and> length pad = (3 - length bs mod 3) mod 3"
proof (induction bs rule: b64_core.induct)
  case (2 a)
  show ?case by (rule exI [of _ "drop 2 (b64_quad a 0 0)"]) simp
next
  case (3 a b)
  show ?case by (rule exI [of _ "drop 3 (b64_quad a b 0)"]) simp
next
  case (4 a b c rest)
  then obtain pad where "b64_enc_loop rest = b64_core rest @ pad"
    "length pad = (3 - length rest mod 3) mod 3" by blast
  moreover have "length (a # b # c # rest) mod 3 = length rest mod 3" by simp
  ultimately show ?case by (intro exI [of _ pad]) (simp del: list.size)
qed simp

lemma b64_encode_core:
  assumes "\<And>n. malloc_ok n"
  shows "base64_encode malloc_ok bs =
    Some (b64_core bs @ replicate ((3 - length bs mod 3) mod 3) (CHR ''=''))"
proof -
  obtain pad where pad: "b64_enc_loop bs = b64_core bs @ pad" "length pad = (3 - length bs mod 3) mod 3"
    using b64_enc_loop_core by blast
  consider "length bs mod 3 = 0" "pad = []" | x y where "length bs mod 3 = 1" "pad = [x, y]"
    | x where "length bs mod 3 = 2" "pad = [x]"
  proof -
    have "length bs mod 3 = 0 \<or> length bs mod 3 = 1 \<or> length bs mod 3 = 2" by presburger
    then show ?thesis using pad(2) that
      by (elim disjE) (auto simp: length_Suc_conv numeral_2_eq_2)
  qed
  then show ?thesis
    by cases (simp_all add: base64_encode_def Let_def assms pad(1) list_update_append numeral_2_eq_2)
qed

lemma b64_quad_trailer: "c \<in> set (b64_quad x y z) \<Longrightarrow> \<not> b64_is_trailer c"
  by (auto simp: b64_quad_def Let_def b64_table_nth)

lemma b64_core_trailer: "c \<in> set (b64_core bs) \<Longrightarrow> \<not> b64_is_trailer c"
  by (induction bs rule: b64_core.induct) (auto dest!: in_set_takeD b64_quad_trailer)

lemma b64_strip_core: "b64_strip (b64_core bs @ replicate n (CHR ''='')) = b64_core bs"
proof -
  have "\<not> b64_is_trailer c" if "c \<in> set (rev (b64_core bs))" for c
    using that b64_core_trailer by simp
  then have "dropWhile b64_is_trailer (rev (b64_core bs)) = rev (b64_core bs)"
    by (metis dropWhile_eq_self_iff hd_in_set)
  moreover have "b64_is_trailer (CHR ''='')" by (simp add: b64_is_trailer_def)
  ultimately have "dropWhile b64_is_trailer (replicate n (CHR ''='') @ rev (b64_core bs)) =
      rev (b64_core bs)"
    by (induction n) simp_all
  then show ?thesis by (simp add: b64_strip_def)
qed

lemma b64_quad_decode:
  "map b64_decode_table (b64_quad a b c) =
     map (\<lambda>n. b64_lossy (b64_sextet (b64_triple a b c) n)) [18, 12, 6, 0]"
  by (simp add: b64_quad_def Let_def b64_table_nth)

lemma b64_dec_loop_quad:
  assumes "length out \<le> olen"
  shows "b64_dec_loop olen out (b64_quad a b c @ s) =
      b64_dec_loop olen (out @ take (olen - length out) (b64_bytes3 (b64_redecode (b64_triple a b c)))) s"
  using b64_put3_take [OF assms]
  by (simp add: b64_quad_def Let_def b64_table_nth b64_redecode_def)

lemma b64_sextet_zero:
  "b64_sextet (b64_triple a b 0) 0 = 0" "b64_sextet (b64_triple a 0 0) 6 = 0"
  by (rule bit_word_eqI, auto simp: bit_sextet bit_triple)+

lemma b64_dec_loop_core:
  "b64_dec_loop (length out + length bs) out (b64_core bs) = out @ b64_back bs"
proof (induction bs arbitrary: out rule: b64_core.induct)
  case (2 a)
  show ?case
    by (simp add: b64_quad_def Let_def b64_table_nth b64_put3_take b64_redecode_def
        b64_sextet_zero b64_lossy_def [of 0] numeral_2_eq_2)
next
  case (3 a b)
  show ?case
    by (simp add: b64_quad_def Let_def b64_table_nth b64_put3_take b64_redecode_def
        b64_sextet_zero b64_lossy_def [of 0] numeral_3_eq_3 numeral_2_eq_2)
next
  case (4 a b c rest)
  let ?x = "b64_bytes3 (b64_redecode (b64_triple a b c))"
  have len: "length ?x = 3" by (simp add: b64_bytes3_def)
  have "b64_dec_loop (length out + length (a # b # c # rest)) out (b64_core (a # b # c # rest)) =
      b64_dec_loop (length (out @ ?x) + length rest) (out @ ?x) (b64_core rest)"
    using b64_dec_loop_quad [of out "length out + length (a # b # c # rest)"] len
    by (simp add: numeral_3_eq_3)
  with 4 [of "out @ ?x"] show ?case by simp
qed simp

lemma b64_quad_lossless:
  "CHR ''8'' \<notin> set (b64_quad a b c) \<and> CHR ''9'' \<notin> set (b64_quad a b c) \<longleftrightarrow>
     b64_lossless (b64_triple a b c)"
proof -
  have "(\<forall>x \<in> set (b64_quad a b c). x \<notin> {CHR ''8'', CHR ''9''}) \<longleftrightarrow> b64_lossless (b64_triple a b c)"
    by (simp add: b64_quad_def Let_def b64_table_nth(3) b64_lossless_def conj_ac
        del: insert_iff)
  then show ?thesis by auto
qed

lemma b64_take_lossless:
  assumes "n = 2 \<and> b = 0 \<or> n = 3"
  shows "CHR ''8'' \<notin> set (take n (b64_quad a b 0)) \<and> CHR ''9'' \<notin> set (take n (b64_quad a b 0)) \<longleftrightarrow>
     b64_lossless (b64_triple a b 0)"
proof -
  have "b64_table ! 0 = CHR ''A''" by (simp add: b64_table_def)
  then have "CHR ''8'' \<notin> set (drop n (b64_quad a b 0)) \<and> CHR ''9'' \<notin> set (drop n (b64_quad a b 0))"
    using assms by (auto simp: b64_quad_def Let_def b64_sextet_zero)
  then show ?thesis
    using b64_quad_lossless [of a b 0] append_take_drop_id [of n "b64_quad a b 0"]
    by (metis UnCI UnE set_append)
qed

lemma b64_back_iff:
  "b64_back bs = bs \<longleftrightarrow> CHR ''8'' \<notin> set (b64_core bs) \<and> CHR ''9'' \<notin> set (b64_core bs)"
proof (induction bs rule: b64_core.induct)
  case (2 a)
  then show ?case
    using redecode_group(3) [of 0 0 a] b64_take_lossless [of 2 0 a]
    by (simp add: b64_bytes3_def)
next
  case (3 a b)
  then show ?case
    using redecode_group(2) [of 0 a b] b64_take_lossless [of 3 b a]
    by (simp add: b64_bytes3_def numeral_2_eq_2)
next
  case (4 a b c rest)
  then show ?case
    using redecode_group(1) [of a b c] b64_quad_lossless [of a b c]
    by (auto simp: b64_bytes3_def)
qed simp

lemma b64_decode_encode:
  assumes "\<And>n. malloc_ok n" and "base64_encode malloc_ok bs = Some enc"
  shows "base64_decode malloc_ok enc = Some (b64_back bs)"
proof -
  have "(4 * length bs + 2) div 3 * 3 div 4 = length bs" by presburger
  moreover from assms have "enc = b64_core bs @ replicate ((3 - length bs mod 3) mod 3) (CHR ''='')"
    by (simp add: b64_encode_core)
  ultimately show ?thesis
    using b64_dec_loop_core [of "[]" bs] assms(1)
    by (simp add: base64_decode_def Let_def b64_strip_core length_b64_core)
qed

lemma b64_length_arith: "(4 * n + 2) div 3 + (3 - n mod 3) mod 3 = 4 * ((n + 2) div 3)" for n :: nat
proof -
  define k r where "k = n div 3" and "r = n mod 3"
  have n: "n = 3 * k + r" "r < 3" by (simp_all add: k_def r_def)
  have group: "(4 * (3 * k + r) + 2) div 3 + (3 - r) mod 3 = 4 * ((3 * k + r + 2) div 3)"
  proof -
    from n(2) consider "r = 0" | "r = 1" | "r = 2" by linarith
    then show ?thesis by cases (simp_all, arith)
  qed
  from group [folded n(1)] show ?thesis unfolding r_def .
qed

lemma b64_core_alphabet: "set (b64_core bs) \<subseteq> set b64_table"
proof -
  have "set (b64_quad a b c) \<subseteq> set b64_table" for a b c
    by (auto simp: b64_quad_def Let_def)
  then show ?thesis
    by (induction bs rule: b64_core.induct) (auto dest!: in_set_takeD)
qed

lemma length_b64_put3:
  "length out \<le> olen \<Longrightarrow> length (b64_put3 olen out t) = min olen (length out + 3)"
  by (auto simp: b64_put3_take b64_bytes3_def min_def)

lemma length_b64_dec_loop:
  "length out \<le> olen \<Longrightarrow>
     length (b64_dec_loop olen out s) = min olen (length out + (length s + 3) div 4 * 3)"
proof (induction olen out s rule: b64_dec_loop.induct)
  case (5 olen out a b c d rest)
  have "(length (a # b # c # d # rest) + 3) div 4 = Suc ((length rest + 3) div 4)" by simp
  with 5 show ?case by (simp add: length_b64_put3 min_def)
qed (simp_all add: length_b64_put3)

lemma sscanf_2x_hex:
  assumes "b < 256"
  shows "sscanf_2x (hex_02x b @ r) = Some (of_nat b)"
proof -
  have d: "b div 16 < 16" "b mod 16 < 16" using assms by auto
  have sp: "\<not> is_space (digit_char d)" "digit_char d \<noteq> CHR ''+''" "digit_char d \<noteq> CHR ''-''"
      "digit_char d \<noteq> CHR ''x''" "digit_char d \<noteq> CHR ''X''" if "d < 16" for d
  proof -
    have n: "code (digit_char d) = (if d < 10 then 48 + d else 87 + d)"
      using that by (rule code_digit_char)
    then show "\<not> is_space (digit_char d)"
      using that by (auto simp: is_space_def split: if_splits)
    from n that show "digit_char d \<noteq> CHR ''+''" "digit_char d \<noteq> CHR ''-''"
      "digit_char d \<noteq> CHR ''x''" "digit_char d \<noteq> CHR ''X''"
      by (auto split: if_splits dest: arg_cong [where f = code])
  qed
  have "16 * (b div 16) + b mod 16 = b" by simp
  with d sp [OF d(1)] sp [OF d(2)] show ?thesis
    by (simp add: sscanf_2x_def hex_02x_def)
qed

section \<open>Properties\<close>

text \<open>
  Property C36.  Base64 round trip, exactly as far as it holds: decoding an encoding gives the
  data back if and only if the encoded text has no \<^verbatim>\<open>8\<close> and no \<^verbatim>\<open>9\<close>.  The decoding table of
  the source has no entry for these two characters, so their sextets (60 and 61) come back as 0.
\<close>

theorem base64_roundtrip_iff:
  assumes "\<And>n. malloc_ok n" and "base64_encode malloc_ok bs = Some enc"
  shows "base64_decode malloc_ok enc = Some bs \<longleftrightarrow> CHR ''8'' \<notin> set enc \<and> CHR ''9'' \<notin> set enc"
proof -
  from assms have "enc = b64_core bs @ replicate ((3 - length bs mod 3) mod 3) (CHR ''='')"
    by (simp add: b64_encode_core)
  then have "CHR ''8'' \<notin> set enc \<and> CHR ''9'' \<notin> set enc \<longleftrightarrow>
      CHR ''8'' \<notin> set (b64_core bs) \<and> CHR ''9'' \<notin> set (b64_core bs)"
    by auto
  with b64_decode_encode [OF assms] b64_back_iff [of bs] show ?thesis by simp
qed

theorem base64_roundtrip_iff_witness:
  "base64_encode (\<lambda>_. True) [0x4D, 0x61] = Some ''TWE='' \<and>
   base64_decode (\<lambda>_. True) ''TWE='' = Some [0x4D, 0x61] \<and>
   base64_encode (\<lambda>_. True) [0xF3, 0xCF] = Some ''888='' \<and>
   base64_decode (\<lambda>_. True) ''888='' \<noteq> Some [0xF3, 0xCF]"
proof -
  have e: "base64_encode (\<lambda>_. True) [0x4D, 0x61] = Some ''TWE=''"
    "base64_encode (\<lambda>_. True) [0xF3, 0xCF] = Some ''888=''"
    by code_simp+
  show ?thesis
    using base64_roundtrip_iff [OF _ e(1)] base64_roundtrip_iff [OF _ e(2)] e by simp
qed

text \<open>
  Base64 encoding never writes past its buffer and produces padded text: the
  result has exactly \<open>4 * \<lceil>n / 3\<rceil>\<close> characters, the size the code allocates, each from the
  alphabet or a trailing \<^verbatim>\<open>=\<close>; decoding never yields more than three bytes for four characters.
\<close>

theorem base64_sizes:
  assumes "\<And>n. malloc_ok n"
  shows "(\<exists>enc. base64_encode malloc_ok bs = Some enc \<and>
           length enc = 4 * ((length bs + 2) div 3) \<and>
           (\<exists>core n. enc = core @ replicate n (CHR ''='') \<and> n \<le> 2 \<and> set core \<subseteq> set b64_table)) \<and>
         (\<exists>dec. base64_decode malloc_ok src = Some dec \<and>
           length dec = length (b64_strip src) * 3 div 4)"
proof
  have "length (b64_core bs) + (3 - length bs mod 3) mod 3 = 4 * ((length bs + 2) div 3)"
    unfolding length_b64_core by (rule b64_length_arith)
  moreover have "(3 - length bs mod 3) mod 3 < 3" by simp
  then have "(3 - length bs mod 3) mod 3 \<le> 2" by linarith
  ultimately show "\<exists>enc. base64_encode malloc_ok bs = Some enc \<and>
           length enc = 4 * ((length bs + 2) div 3) \<and>
           (\<exists>core n. enc = core @ replicate n (CHR ''='') \<and> n \<le> 2 \<and> set core \<subseteq> set b64_table)"
    using b64_encode_core [of malloc_ok bs, OF assms] b64_core_alphabet [of bs]
    by (metis length_append length_replicate)
next
  have "length (b64_dec_loop (length (b64_strip src) * 3 div 4) [] (b64_strip src)) =
      length (b64_strip src) * 3 div 4"
    using length_b64_dec_loop [of "[]" "length (b64_strip src) * 3 div 4" "b64_strip src"] by simp
  then show "\<exists>dec. base64_decode malloc_ok src = Some dec \<and>
           length dec = length (b64_strip src) * 3 div 4"
    by (simp add: base64_decode_def Let_def assms)
qed

theorem base64_sizes_witness:
  "(\<exists>enc. base64_encode (\<lambda>_. True) [1, 2, 3, 4] = Some enc \<and>
           length enc = 4 * ((length [1, 2, 3, 4 :: byte] + 2) div 3) \<and>
           (\<exists>core n. enc = core @ replicate n (CHR ''='') \<and> n \<le> 2 \<and> set core \<subseteq> set b64_table)) \<and>
   (\<exists>dec. base64_decode (\<lambda>_. True) ''AQIDBA=='' = Some dec \<and>
           length dec = length (b64_strip ''AQIDBA=='') * 3 div 4)"
  using base64_sizes [of "\<lambda>_. True" "[1, 2, 3, 4]" "''AQIDBA==''"] by blast

lemma hex_decode_encode:
  assumes "\<And>n. malloc_ok n" and "hex_encode malloc_ok bs = Some enc"
  shows "hex_decode malloc_ok indet enc = Some bs"
proof -
  from assms have enc: "enc = concat (map (\<lambda>b. hex_02x (unat b)) bs)"
    by (simp add: hex_encode_def split: if_splits)
  have len: "length (concat (map (\<lambda>b. hex_02x (unat b)) xs)) = 2 * length xs" for xs :: "byte list"
    by (induction xs) auto
  have digits: "NUL \<notin> set (hex_02x (unat b))" for b :: byte
  proof -
    have "unat b div 16 < 16" using unat_byte_less [of b] by (simp add: less_mult_imp_div_less)
    then show ?thesis by (simp add: hex_02x_def digit_char_NUL [symmetric])
  qed
  have no_NUL: "NUL \<notin> set (concat (map (\<lambda>b. hex_02x (unat b)) xs))" for xs :: "byte list"
    by (induction xs) (use digits in auto)
  have nth: "sscanf_2x (c_str (drop (i * 2) enc)) = Some (of_nat (unat (bs ! i)))" if "i < length bs" for i
  proof -
    have "bs = take i bs @ bs ! i # drop (Suc i) bs" using that by (rule id_take_nth_drop)
    then have "enc = concat (map (\<lambda>b. hex_02x (unat b)) (take i bs)) @
        hex_02x (unat (bs ! i)) @ concat (map (\<lambda>b. hex_02x (unat b)) (drop (Suc i) bs))"
      unfolding enc by (metis (no_types, lifting) append.assoc concat.simps(2) concat_append list.simps(9) map_append)
    then have "drop (i * 2) enc =
        hex_02x (unat (bs ! i)) @ concat (map (\<lambda>b. hex_02x (unat b)) (drop (Suc i) bs))"
      using that by (simp add: len min_def mult.commute)
    then show ?thesis
      using no_NUL [of "bs ! i # drop (Suc i) bs"] by (simp add: sscanf_2x_hex)
  qed
  have up: "ucast (ucast b :: u32) = b" for b :: byte
    by (rule bit_word_eqI) (auto simp: bit_simps dest: bit_imp_le_length)
  have "map (\<lambda>i. ucast (case sscanf_2x (c_str (drop (i * 2) enc)) of Some v \<Rightarrow> v | None \<Rightarrow> indet i) :: byte)
      [0..<length bs] = map (\<lambda>i. bs ! i) [0..<length bs]"
    by (rule map_cong [OF refl]) (simp add: nth up)
  then show ?thesis
    using assms(1) len [of bs] by (simp add: hex_decode_def Let_def enc map_nth)
qed

text \<open>
  Hexadecimal round trip: decoding an encoding gives the data back, whatever the
  uninitialized variable of the decoder holds.
\<close>

theorem hex_roundtrip:
  assumes "\<And>n. malloc_ok n" and "hex_encode malloc_ok bs = Some enc"
  shows "hex_decode malloc_ok indet enc = Some bs"
  using assms by (rule hex_decode_encode)

theorem hex_roundtrip_witness:
  "hex_encode (\<lambda>_. True) [0x00, 0xAB, 0xFF] = Some ''00abff'' \<and>
   hex_decode (\<lambda>_. True) (\<lambda>_. 7) ''00abff'' = Some [0x00, 0xAB, 0xFF]"
proof -
  have e: "hex_encode (\<lambda>_. True) [0x00, 0xAB, 0xFF] = Some ''00abff''" by code_simp
  show ?thesis using hex_roundtrip [OF _ e] e by blast
qed

end
