(* ===== verification/Buffer.thy ===== *)
theory Buffer
  imports Encoding
begin

text \<open>
  The \<^verbatim>\<open>Buffer\<close> object of \<^verbatim>\<open>src/polyfill/buffer.c\<close> and the \<^verbatim>\<open>console\<close> object of
  \<^verbatim>\<open>src/polyfill/console.c\<close>.  What a console call prints is the text it appends to standard error.
\<close>

section \<open>Buffer\<close>

definition arg_encoding :: "'v js_api \<Rightarrow> 'v list \<Rightarrow> string" where
  "arg_encoding api rest =
     (case rest of
        [] \<Rightarrow> ''utf8''
      | a # _ \<Rightarrow> (case js_cstring api a of Some enc \<Rightarrow> enc | None \<Rightarrow> ''utf8''))"

definition js_buffer_from ::
    "(nat \<Rightarrow> bool) \<Rightarrow> (nat \<Rightarrow> u32) \<Rightarrow> 'v js_api \<Rightarrow> 'v list \<Rightarrow> js_result" where
  "js_buffer_from malloc_ok indet api argv =
     (case argv of
        [] \<Rightarrow> JS_NewArrayBufferCopy []
      | a # rest \<Rightarrow>
          (case js_array_buffer api a of
             Some buf \<Rightarrow> JS_NewArrayBufferCopy buf
           | None \<Rightarrow>
               (case js_cstring_len api a of
                  None \<Rightarrow> JS_EXCEPTION
                | Some str \<Rightarrow>
                    (let encoding = arg_encoding api rest in
                     if encoding = ''base64'' then
                       (case base64_decode malloc_ok str of
                          Some decoded \<Rightarrow> JS_NewArrayBufferCopy decoded
                        | None \<Rightarrow> JS_NewArrayBufferCopy [])
                     else if encoding = ''hex'' then
                       (case hex_decode malloc_ok indet str of
                          Some decoded \<Rightarrow> JS_NewArrayBufferCopy decoded
                        | None \<Rightarrow> JS_NewArrayBufferCopy [])
                     else JS_NewArrayBufferCopy (bytes_of str)))))"

definition js_buffer_is_buffer :: "'v js_api \<Rightarrow> 'v list \<Rightarrow> js_result" where
  "js_buffer_is_buffer api argv =
     (case argv of
        [] \<Rightarrow> JS_NewBool False
      | a # _ \<Rightarrow> JS_NewBool (js_array_buffer api a \<noteq> None))"

definition js_buffer_to_string :: "(nat \<Rightarrow> bool) \<Rightarrow> 'v js_api \<Rightarrow> 'v list \<Rightarrow> js_result" where
  "js_buffer_to_string malloc_ok api argv =
     (case argv of
        [] \<Rightarrow> JS_NewString ''''
      | a # rest \<Rightarrow>
          (case js_array_buffer api a of
             None \<Rightarrow>
               (case js_cstring api a of
                  None \<Rightarrow> JS_NewString ''''
                | Some str \<Rightarrow> JS_NewString str)
           | Some buf \<Rightarrow>
               (let encoding = arg_encoding api rest in
                if encoding = ''base64'' then
                  (case base64_encode malloc_ok buf of
                     Some encoded \<Rightarrow> JS_NewStringLen encoded
                   | None \<Rightarrow> JS_NewString '''')
                else if encoding = ''hex'' then
                  (case hex_encode malloc_ok buf of
                     Some encoded \<Rightarrow> JS_NewStringLen encoded
                   | None \<Rightarrow> JS_NewString '''')
                else JS_NewStringLen (chars_of buf))))"

section \<open>Console\<close>

fun console_args :: "'v js_api \<Rightarrow> string \<Rightarrow> nat \<Rightarrow> 'v list \<Rightarrow> string" where
  "console_args api prefix i [] = ''''"
| "console_args api prefix i (a # rest) =
     (case js_cstring api a of
        None \<Rightarrow> console_args api prefix (Suc i) rest
      | Some str \<Rightarrow>
          (if 0 < i then '' '' else '''') @
          (if i = 0 \<and> prefix \<noteq> [] then ''['' @ prefix @ ''] '' @ str else str) @
          console_args api prefix (Suc i) rest)"

definition js_console_log_impl :: "'v js_api \<Rightarrow> 'v list \<Rightarrow> string \<Rightarrow> js_result \<times> string" where
  "js_console_log_impl api argv prefix = (JS_UNDEFINED, console_args api prefix 0 argv @ [CHR 0x0A])"

definition js_console_log :: "'v js_api \<Rightarrow> 'v list \<Rightarrow> js_result \<times> string" where
  "js_console_log api argv = js_console_log_impl api argv ''''"

definition js_console_info :: "'v js_api \<Rightarrow> 'v list \<Rightarrow> js_result \<times> string" where
  "js_console_info api argv = js_console_log_impl api argv ''INFO''"

definition js_console_warn :: "'v js_api \<Rightarrow> 'v list \<Rightarrow> js_result \<times> string" where
  "js_console_warn api argv = js_console_log_impl api argv ''WARN''"

definition js_console_error :: "'v js_api \<Rightarrow> 'v list \<Rightarrow> js_result \<times> string" where
  "js_console_error api argv = js_console_log_impl api argv ''ERROR''"

definition js_console_debug :: "'v js_api \<Rightarrow> 'v list \<Rightarrow> js_result \<times> string" where
  "js_console_debug api argv = js_console_log_impl api argv ''DEBUG''"

definition js_console_trace :: "'v js_api \<Rightarrow> 'v list \<Rightarrow> js_result \<times> string" where
  "js_console_trace api argv = js_console_log_impl api argv ''TRACE''"

section \<open>Correctness\<close>

text \<open>
  The text formats of a buffer: what \<^verbatim>\<open>Buffer.toString\<close> prints, \<^verbatim>\<open>Buffer.from\<close> reads back.  Base64 fails on
  the two characters missing from the decoding table.
\<close>

lemma buffer_hex_text:
  assumes "\<And>n. malloc_ok n" and "js_array_buffer api a = Some buf" and "js_cstring api e = Some ''hex''"
  shows "js_buffer_to_string malloc_ok api [a, e] = JS_NewStringLen (concat (map (\<lambda>b. hex_02x (unat b)) buf))"
  using assms by (simp add: js_buffer_to_string_def arg_encoding_def hex_encode_def)

text \<open>
  Printing a buffer and reading the text back gives the same bytes, in hexadecimal always
  and in UTF-8 always, when the engine hands the printed text back unchanged.
\<close>

theorem buffer_roundtrip:
  assumes "\<And>n. malloc_ok n" and "js_array_buffer api a = Some buf" and "js_cstring api e = Some enc"
    and "js_buffer_to_string malloc_ok api [a, e] = JS_NewStringLen s"
    and "js_array_buffer api t = None" and "js_cstring_len api t = Some s" and "enc \<noteq> ''base64''"
  shows "js_buffer_from malloc_ok indet api [t, e] = JS_NewArrayBufferCopy buf"
proof (cases "enc = ''hex''")
  case True
  have h: "hex_encode malloc_ok buf = Some s"
    using assms True by (simp add: js_buffer_to_string_def arg_encoding_def hex_encode_def)
  from hex_decode_encode [of malloc_ok buf s indet, OF assms(1) h] assms True show ?thesis
    by (simp add: js_buffer_from_def arg_encoding_def)
next
  case False
  then show ?thesis
    using assms by (auto simp: js_buffer_from_def js_buffer_to_string_def arg_encoding_def)
qed

definition ex_buf_api :: "string js_api" where
  "ex_buf_api = \<lparr>js_cstring_len = Some,
     js_array_buffer = \<lambda>v. if v = ''B'' then Some [171, 0] else None, js_int32 = \<lambda>_. 0, js_int64 = \<lambda>_. 0,
     js_is_object = \<lambda>_. False, js_is_undefined = \<lambda>_. False, js_is_null = \<lambda>_. False,
     js_get_property = \<lambda>v _. v, js_own_names = \<lambda>_. None\<rparr>"

theorem buffer_roundtrip_witness:
  "js_buffer_from (\<lambda>_. True) (\<lambda>_. 0) ex_buf_api [''ab00'', ''hex''] = JS_NewArrayBufferCopy [171, 0]"
proof (rule buffer_roundtrip [where a = "''B''" and enc = "''hex''" and s = "''ab00''"])
  show "js_buffer_to_string (\<lambda>_. True) ex_buf_api [''B'', ''hex''] = JS_NewStringLen ''ab00''" by code_simp
qed (code_simp)+

text \<open>
  A console call prints one line: the arguments that convert to strings, separated by
  spaces, after the level in brackets.  When the first argument does not convert, the level is left
  out and the line starts with a space.
\<close>

theorem console_line:
  assumes "list_all2 (\<lambda>a s. js_cstring api a = Some s) args strs" and "level \<noteq> []"
  shows "snd (js_console_log_impl api (a # args) level) =
     (case js_cstring api a of
        Some s \<Rightarrow> ''['' @ level @ ''] '' @ s
      | None \<Rightarrow> '''') @ concat (map (\<lambda>s. '' '' @ s) strs) @ [CHR 0x0A]"
proof -
  have "console_args api level (Suc i) args = concat (map (\<lambda>s. '' '' @ s) strs)" for i
    using assms(1) by (induction arbitrary: i rule: list_all2_induct) auto
  then show ?thesis using assms(2) by (simp add: js_console_log_impl_def split: option.split)
qed

theorem console_line_witness:
  "snd (js_console_log_impl ex_buf_api [''a'', ''b''] ''WARN'') = ''[WARN] a b'' @ [CHR 0x0A]"
proof -
  have "list_all2 (\<lambda>a s. js_cstring ex_buf_api a = Some s) [''b''] [''b'']" by code_simp
  moreover have "js_cstring ex_buf_api ''a'' = Some ''a''" by code_simp
  ultimately show ?thesis using console_line [of ex_buf_api "[''b'']" "[''b'']" "''WARN''" "''a''"] by simp
qed

end
