(* ===== verification/Timespec.thy ===== *)
theory Timespec
  imports Prelude
begin

text \<open>
  The time helpers of \<^verbatim>\<open>src/cqjs.c\<close> and their private copies in \<^verbatim>\<open>src/polyfill/timer.c\<close>.  A
  \<^verbatim>\<open>struct timespec\<close> is a record of two integers; the C operators \<^verbatim>\<open>/\<close> and \<^verbatim>\<open>%\<close> truncate, so they
  are \<open>sdiv\<close> and \<open>smod\<close>.  \<open>time_ns\<close> is the instant in nanoseconds that a timespec stands for.
\<close>

record timespec =
  tv_sec :: int
  tv_nsec :: int

definition cqjs_now_ms :: "timespec \<Rightarrow> int" where
  "cqjs_now_ms ts = tv_sec ts * 1000 + tv_nsec ts sdiv 1000000"

definition timespec_add_ms :: "timespec \<Rightarrow> int \<Rightarrow> timespec" where
  "timespec_add_ms ts ms =
     (let s = tv_sec ts + ms sdiv 1000; n = tv_nsec ts + (ms smod 1000) * 1000000 in
      if 1000000000 \<le> n then \<lparr>tv_sec = s + 1, tv_nsec = n - 1000000000\<rparr>
      else \<lparr>tv_sec = s, tv_nsec = n\<rparr>)"

definition cqjs_timespec_add_ms :: "timespec \<Rightarrow> int \<Rightarrow> timespec" where
  "cqjs_timespec_add_ms ts ms =
     (let s = tv_sec ts + ms sdiv 1000; n = tv_nsec ts + (ms smod 1000) * 1000000 in
      if 1000000000 \<le> n then \<lparr>tv_sec = s + 1, tv_nsec = n - 1000000000\<rparr>
      else \<lparr>tv_sec = s, tv_nsec = n\<rparr>)"

definition timespec_cmp :: "timespec \<Rightarrow> timespec \<Rightarrow> int" where
  "timespec_cmp a b =
     (if tv_sec a < tv_sec b then - 1
      else if tv_sec b < tv_sec a then 1
      else if tv_nsec a < tv_nsec b then - 1
      else if tv_nsec b < tv_nsec a then 1
      else 0)"

definition cqjs_timespec_cmp :: "timespec \<Rightarrow> timespec \<Rightarrow> int" where
  "cqjs_timespec_cmp a b =
     (if tv_sec a < tv_sec b then - 1
      else if tv_sec b < tv_sec a then 1
      else if tv_nsec a < tv_nsec b then - 1
      else if tv_nsec b < tv_nsec a then 1
      else 0)"

section \<open>Specification and lemmas\<close>

definition time_ns :: "timespec \<Rightarrow> int" where
  "time_ns ts = tv_sec ts * 1000000000 + tv_nsec ts"

definition wf_timespec :: "timespec \<Rightarrow> bool" where
  "wf_timespec ts \<longleftrightarrow> 0 \<le> tv_nsec ts \<and> tv_nsec ts < 1000000000"

lemma sdiv_nonneg: "0 \<le> a \<Longrightarrow> a sdiv (1000 :: int) = a div 1000"
  and smod_nonneg: "0 \<le> a \<Longrightarrow> a smod (1000 :: int) = a mod 1000"
  by (simp_all add: signed_divide_int_def signed_modulo_int_def sgn_if minus_div_mult_eq_mod)

lemma wf_add_ms: "wf_timespec ts \<Longrightarrow> 0 \<le> ms \<Longrightarrow> wf_timespec (timespec_add_ms ts ms)"
proof -
  assume "wf_timespec ts" "0 \<le> ms"
  moreover have "0 \<le> ms mod 1000" "ms mod 1000 < 1000" by simp_all
  ultimately show ?thesis
    by (auto simp: wf_timespec_def timespec_add_ms_def Let_def smod_nonneg)
qed

lemma time_ns_add_ms: "0 \<le> ms \<Longrightarrow> time_ns (timespec_add_ms ts ms) = time_ns ts + ms * 1000000"
proof -
  assume "0 \<le> ms"
  moreover have "ms mod 1000 * 1000000 + ms div 1000 * 1000000000 = ms * 1000000"
    using div_mult_mod_eq [of ms 1000] by linarith
  ultimately show ?thesis
    by (simp add: time_ns_def timespec_add_ms_def Let_def smod_nonneg sdiv_nonneg algebra_simps)
qed

lemma timespec_cmp_ns:
  assumes "wf_timespec a" and "wf_timespec b"
  shows "timespec_cmp a b = sgn (time_ns a - time_ns b)"
  using assms by (auto simp: timespec_cmp_def wf_timespec_def time_ns_def sgn_if)

lemma cqjs_copies [simp]:
  "cqjs_timespec_add_ms = timespec_add_ms" "cqjs_timespec_cmp = timespec_cmp"
  by (auto simp: fun_eq_iff cqjs_timespec_add_ms_def timespec_add_ms_def cqjs_timespec_cmp_def
      timespec_cmp_def)

section \<open>Properties\<close>

text \<open>
  Adding a non-negative number of milliseconds to a normalised timespec gives a
  normalised timespec exactly that much later, and the comparison orders normalised timespecs by
  the instants they stand for; the private copies in the timer agree with the shared functions.
\<close>

theorem timespec_arith:
  assumes "wf_timespec a" and "wf_timespec b" and "0 \<le> ms"
  shows "wf_timespec (cqjs_timespec_add_ms a ms) \<and>
         time_ns (cqjs_timespec_add_ms a ms) = time_ns a + ms * 1000000 \<and>
         cqjs_timespec_cmp a b = sgn (time_ns a - time_ns b) \<and>
         timespec_add_ms a ms = cqjs_timespec_add_ms a ms \<and>
         timespec_cmp a b = cqjs_timespec_cmp a b"
  using assms by (simp add: wf_add_ms time_ns_add_ms timespec_cmp_ns)

theorem timespec_arith_witness:
  "let a = \<lparr>tv_sec = 1, tv_nsec = 999999999\<rparr>; b = \<lparr>tv_sec = 3, tv_nsec = 0\<rparr> in
   wf_timespec (cqjs_timespec_add_ms a 1500) \<and>
   time_ns (cqjs_timespec_add_ms a 1500) = time_ns a + 1500 * 1000000 \<and>
   cqjs_timespec_cmp a b = sgn (time_ns a - time_ns b) \<and>
   timespec_add_ms a 1500 = cqjs_timespec_add_ms a 1500 \<and>
   timespec_cmp a b = cqjs_timespec_cmp a b"
  unfolding Let_def by (rule timespec_arith) (simp_all add: wf_timespec_def)

end
