(* ===== verification/Timer.thy ===== *)
theory Timer
  imports Js_Api Timespec "HOL-Library.Sublist"
begin

text \<open>
  The timer manager of \<^verbatim>\<open>src/polyfill/timer.c\<close>.  The linked list of timers is a list of entries,
  newest first as the code inserts them.  The monotonic clock is a parameter
  \<open>clk :: nat \<Rightarrow> timespec\<close>, the successive readings a thread gets from \<^verbatim>\<open>clock_gettime\<close>, and the
  state carries the number of readings taken so far.  Everything else a callback can touch is
  the abstract rest \<open>'x\<close> of the state: the engine's reference counting and calls are the fields
  of a \<open>timer_env\<close>.
\<close>

section \<open>State\<close>

record 'v timer_entry =
  te_id :: int
  te_callback :: 'v
  te_interval_ms :: int
  te_is_interval :: bool
  te_canceled :: bool
  te_next_fire :: timespec

text \<open>\<open>tm_pipe\<close> is the number of bytes waiting in the notification pipe.\<close>

record 'v timer_manager =
  tm_head :: "'v timer_entry list"
  tm_counter :: int
  tm_pipe :: nat

type_synonym ('v, 'x) timer_state = "'v timer_manager \<times> nat \<times> 'x"

record ('v, 'x) timer_env =
  js_dup :: "'v \<Rightarrow> 'x \<Rightarrow> 'x"
  js_free :: "'v \<Rightarrow> 'x \<Rightarrow> 'x"
  js_callback :: "'v \<Rightarrow> ('v, 'x) timer_state \<Rightarrow> ('v, 'x) timer_state"

section \<open>Operations\<close>

definition tm_init :: "'v timer_manager" where
  "tm_init = \<lparr>tm_head = [], tm_counter = 0, tm_pipe = 0\<rparr>"

definition tm_set_timeout ::
    "(nat \<Rightarrow> timespec) \<Rightarrow> bool \<Rightarrow> 'v \<Rightarrow> int \<Rightarrow> 'v timer_manager \<times> nat \<Rightarrow>
     int \<times> 'v timer_manager \<times> nat" where
  "tm_set_timeout clk calloc_ok callback delay_ms s =
     (case s of (tm, n) \<Rightarrow>
      if \<not> calloc_ok then (- 1, tm, n)
      else
        let i = tm_counter tm + 1;
            e = \<lparr>te_id = i, te_callback = callback, te_interval_ms = 0, te_is_interval = False,
                 te_canceled = False,
                 te_next_fire = timespec_add_ms (clk n) (if delay_ms < 0 then 0 else delay_ms)\<rparr>
        in (i, tm\<lparr>tm_head := e # tm_head tm, tm_counter := i, tm_pipe := Suc (tm_pipe tm)\<rparr>, Suc n))"

definition tm_set_interval ::
    "(nat \<Rightarrow> timespec) \<Rightarrow> bool \<Rightarrow> 'v \<Rightarrow> int \<Rightarrow> 'v timer_manager \<times> nat \<Rightarrow>
     int \<times> 'v timer_manager \<times> nat" where
  "tm_set_interval clk calloc_ok callback interval_ms s =
     (case s of (tm, n) \<Rightarrow>
      if \<not> calloc_ok then (- 1, tm, n)
      else
        let ms = (if interval_ms \<le> 0 then 1 else interval_ms);
            i = tm_counter tm + 1;
            e = \<lparr>te_id = i, te_callback = callback, te_interval_ms = ms, te_is_interval = True,
                 te_canceled = False, te_next_fire = timespec_add_ms (clk n) ms\<rparr>
        in (i, tm\<lparr>tm_head := e # tm_head tm, tm_counter := i, tm_pipe := Suc (tm_pipe tm)\<rparr>, Suc n))"

text \<open>Only the first entry with the id is marked, and it stays in the list.\<close>

fun mark_canceled :: "int \<Rightarrow> 'v timer_entry list \<Rightarrow> 'v timer_entry list" where
  "mark_canceled i [] = []"
| "mark_canceled i (e # es) =
     (if te_id e = i then e\<lparr>te_canceled := True\<rparr> # es else e # mark_canceled i es)"

definition tm_clear :: "'v timer_manager \<Rightarrow> int \<Rightarrow> 'v timer_manager" where
  "tm_clear tm i = tm\<lparr>tm_head := mark_canceled i (tm_head tm)\<rparr>"

text \<open>
  The scan of \<^verbatim>\<open>tm_process_pending\<close> from position \<open>i\<close> of the list (the pointer \<^verbatim>\<open>pp\<close>).  It may run
  for ever when callbacks keep adding timers that are already due, so it returns an option.
  \<open>fired\<close> lists the ids of the timers fired so far; its length is the C variable \<^verbatim>\<open>processed\<close>.
\<close>

partial_function (option) tm_scan ::
    "(nat \<Rightarrow> timespec) \<Rightarrow> ('v, 'x) timer_env \<Rightarrow> timespec \<Rightarrow> nat \<Rightarrow> int list \<Rightarrow>
     ('v, 'x) timer_state \<Rightarrow> (int list \<times> ('v, 'x) timer_state) option" where
  "tm_scan clk env now i fired s =
     (case s of (tm, n, x) \<Rightarrow>
      if length (tm_head tm) \<le> i then Some (fired, s)
      else
        let e = tm_head tm ! i in
        if te_canceled e then
          tm_scan clk env now i fired
            (tm\<lparr>tm_head := remove_at i (tm_head tm)\<rparr>, n, js_free env (te_callback e) x)
        else if 0 \<le> timespec_cmp now (te_next_fire e) then
          (let x1 = js_dup env (te_callback e) x;
               s1 = (if te_is_interval e then
                       (tm\<lparr>tm_head := (tm_head tm)
                          [i := e\<lparr>te_next_fire := timespec_add_ms (clk n) (te_interval_ms e)\<rparr>]\<rparr>,
                        Suc n, x1)
                     else
                       (tm\<lparr>tm_head := remove_at i (tm_head tm)\<rparr>, n, js_free env (te_callback e) x1))
           in case js_callback env (te_callback e) s1 of (tm2, n2, x2) \<Rightarrow>
              tm_scan clk env now 0 (fired @ [te_id e]) (tm2, n2, js_free env (te_callback e) x2))
        else tm_scan clk env now (Suc i) fired s)"

text \<open>The pipe is drained first, then the clock is read once for the whole pass.\<close>

definition tm_process_pending ::
    "(nat \<Rightarrow> timespec) \<Rightarrow> ('v, 'x) timer_env \<Rightarrow> ('v, 'x) timer_state \<Rightarrow>
     (int list \<times> ('v, 'x) timer_state) option" where
  "tm_process_pending clk env s =
     (case s of (tm, n, x) \<Rightarrow>
      tm_scan clk env (clk n) 0 [] (tm\<lparr>tm_pipe := 0\<rparr>, Suc n, x))"

text \<open>The conversion of an \<^verbatim>\<open>int64_t\<close> to \<^verbatim>\<open>int\<close>.\<close>

definition int32_of :: "int \<Rightarrow> int" where
  "int32_of d = (d + 2147483648) mod 4294967296 - 2147483648"

definition timer_diff_ms :: "timespec \<Rightarrow> 'v timer_entry \<Rightarrow> int" where
  "timer_diff_ms now e =
     (let d = (tv_sec (te_next_fire e) - tv_sec now) * 1000 +
              (tv_nsec (te_next_fire e) - tv_nsec now) sdiv 1000000
      in if d < 0 then 0 else d)"

fun next_timeout_loop :: "timespec \<Rightarrow> int \<Rightarrow> 'v timer_entry list \<Rightarrow> int" where
  "next_timeout_loop now min_ms [] = min_ms"
| "next_timeout_loop now min_ms (e # es) =
     (if te_canceled e then next_timeout_loop now min_ms es
      else if min_ms < 0 \<or> timer_diff_ms now e < min_ms
      then next_timeout_loop now (int32_of (timer_diff_ms now e)) es
      else next_timeout_loop now min_ms es)"

definition tm_next_timeout_ms ::
    "(nat \<Rightarrow> timespec) \<Rightarrow> 'v timer_manager \<times> nat \<Rightarrow> int \<times> nat" where
  "tm_next_timeout_ms clk s =
     (case s of (tm, n) \<Rightarrow>
      if tm_head tm = [] then (- 1, n)
      else (next_timeout_loop (clk n) (- 1) (tm_head tm), Suc n))"

definition tm_free :: "('v, 'x) timer_env \<Rightarrow> 'v timer_manager \<Rightarrow> 'x \<Rightarrow> 'v timer_manager \<times> 'x" where
  "tm_free env tm x =
     (tm\<lparr>tm_head := [], tm_pipe := 0\<rparr>, fold (\<lambda>e. js_free env (te_callback e)) (tm_head tm) x)"

section \<open>The native functions\<close>

text \<open>
  \<open>tm_ptr\<close> is what \<^verbatim>\<open>get_tm\<close> finds: whether the hidden global property still holds the pointer.
\<close>

definition js_set_timeout ::
    "(nat \<Rightarrow> timespec) \<Rightarrow> bool \<Rightarrow> 'v js_api \<Rightarrow> ('v, 'x) timer_env \<Rightarrow> bool \<Rightarrow> 'v list \<Rightarrow>
     ('v, 'x) timer_state \<Rightarrow> js_result \<times> ('v, 'x) timer_state" where
  "js_set_timeout clk calloc_ok api env tm_ptr argv s =
     (case s of (tm, n, x) \<Rightarrow>
      case argv of
        [] \<Rightarrow> (JS_NewInt32 0, s)
      | f # rest \<Rightarrow>
          if \<not> tm_ptr then (JS_NewInt32 0, s)
          else
            let x1 = js_dup env f x;
                delay = (case rest of [] \<Rightarrow> 0 | d # _ \<Rightarrow> js_int32 api d)
            in case tm_set_timeout clk calloc_ok f delay (tm, n) of
                 (i, tm', n') \<Rightarrow> (JS_NewInt64 i, (tm', n', x1)))"

definition js_set_interval ::
    "(nat \<Rightarrow> timespec) \<Rightarrow> bool \<Rightarrow> 'v js_api \<Rightarrow> ('v, 'x) timer_env \<Rightarrow> bool \<Rightarrow> 'v list \<Rightarrow>
     ('v, 'x) timer_state \<Rightarrow> js_result \<times> ('v, 'x) timer_state" where
  "js_set_interval clk calloc_ok api env tm_ptr argv s =
     (case s of (tm, n, x) \<Rightarrow>
      case argv of
        [] \<Rightarrow> (JS_NewInt32 0, s)
      | f # rest \<Rightarrow>
          if \<not> tm_ptr then (JS_NewInt32 0, s)
          else
            let x1 = js_dup env f x;
                delay = (case rest of [] \<Rightarrow> 0 | d # _ \<Rightarrow> js_int32 api d)
            in case tm_set_interval clk calloc_ok f delay (tm, n) of
                 (i, tm', n') \<Rightarrow> (JS_NewInt64 i, (tm', n', x1)))"

definition js_clear_timeout ::
    "'v js_api \<Rightarrow> bool \<Rightarrow> 'v list \<Rightarrow> ('v, 'x) timer_state \<Rightarrow> js_result \<times> ('v, 'x) timer_state" where
  "js_clear_timeout api tm_ptr argv s =
     (case s of (tm, n, x) \<Rightarrow>
      case argv of
        [] \<Rightarrow> (JS_UNDEFINED, s)
      | a # _ \<Rightarrow>
          if \<not> tm_ptr then (JS_UNDEFINED, s)
          else (JS_UNDEFINED, (tm_clear tm (js_int64 api a), n, x)))"

definition js_clear_interval ::
    "'v js_api \<Rightarrow> bool \<Rightarrow> 'v list \<Rightarrow> ('v, 'x) timer_state \<Rightarrow> js_result \<times> ('v, 'x) timer_state" where
  "js_clear_interval api tm_ptr argv s =
     (case s of (tm, n, x) \<Rightarrow>
      case argv of
        [] \<Rightarrow> (JS_UNDEFINED, s)
      | a # _ \<Rightarrow>
          if \<not> tm_ptr then (JS_UNDEFINED, s)
          else (JS_UNDEFINED, (tm_clear tm (js_int64 api a), n, x)))"

section \<open>Invariant\<close>

definition timer_ok :: "int \<Rightarrow> 'v timer_entry \<Rightarrow> bool" where
  "timer_ok c e \<longleftrightarrow>
     1 \<le> te_id e \<and> te_id e \<le> c \<and> wf_timespec (te_next_fire e) \<and>
     (if te_is_interval e then 1 \<le> te_interval_ms e else te_interval_ms e = 0)"

text \<open>Ids are positive, at most the counter, and strictly decrease along the list.\<close>

definition tm_inv :: "'v timer_manager \<Rightarrow> bool" where
  "tm_inv tm \<longleftrightarrow>
     0 \<le> tm_counter tm \<and> sorted_wrt (>) (map te_id (tm_head tm)) \<and>
     (\<forall>e \<in> set (tm_head tm). timer_ok (tm_counter tm) e)"

text \<open>What code running on the timer thread can do to the timers: any number of calls.\<close>

inductive tm_ops ::
    "(nat \<Rightarrow> timespec) \<Rightarrow> 'v timer_manager \<times> nat \<Rightarrow> 'v timer_manager \<times> nat \<Rightarrow> bool"
  for clk where
  ops_refl: "tm_ops clk s s"
| ops_timeout: "tm_ops clk s t \<Longrightarrow> tm_set_timeout clk ok cb d t = (i, t') \<Longrightarrow> tm_ops clk s t'"
| ops_interval: "tm_ops clk s t \<Longrightarrow> tm_set_interval clk ok cb d t = (i, t') \<Longrightarrow> tm_ops clk s t'"
| ops_clear: "tm_ops clk s (tm, n) \<Longrightarrow> tm_ops clk s (tm_clear tm i, n)"
| ops_clock: "tm_ops clk s (tm, n) \<Longrightarrow> tm_ops clk s (tm, Suc n)"

lemma tm_ops_trans: "tm_ops clk t u \<Longrightarrow> tm_ops clk s t \<Longrightarrow> tm_ops clk s u"
  by (induction rule: tm_ops.induct) (auto intro: tm_ops.intros)

lemma map_id_mark_canceled [simp]: "map te_id (mark_canceled i es) = map te_id es"
  by (induction es) auto

lemma mark_canceled_set:
  "e' \<in> set (mark_canceled i es) \<Longrightarrow> \<exists>e \<in> set es. e' = e \<or> e' = e\<lparr>te_canceled := True\<rparr>"
  by (induction es) (auto split: if_splits)

lemma timer_ok_mono: "timer_ok c e \<Longrightarrow> c \<le> d \<Longrightarrow> timer_ok d e"
  by (auto simp: timer_ok_def)

lemma timer_ok_canceled [simp]: "timer_ok c (e\<lparr>te_canceled := b\<rparr>) \<longleftrightarrow> timer_ok c e"
  by (simp add: timer_ok_def)

lemma tm_inv_init: "tm_inv tm_init"
  by (simp add: tm_inv_def tm_init_def)

lemma tm_inv_add:
  assumes "tm_inv tm" and "te_id e = tm_counter tm + 1" and "timer_ok (tm_counter tm + 1) e"
  shows "tm_inv (tm\<lparr>tm_head := e # tm_head tm, tm_counter := tm_counter tm + 1, tm_pipe := p\<rparr>)"
proof -
  have "\<forall>x \<in> set (tm_head tm). timer_ok (tm_counter tm + 1) x \<and> te_id x < te_id e"
    using assms(1,2) by (fastforce simp: tm_inv_def timer_ok_def)
  with assms show ?thesis by (auto simp: tm_inv_def)
qed

lemma tm_inv_set_timeout:
  assumes "tm_inv tm" and "\<And>k. wf_timespec (clk k)"
    and "tm_set_timeout clk ok cb d (tm, n) = (i, tm', n')"
  shows "tm_inv tm'"
proof -
  have "0 \<le> tm_counter tm" using assms(1) by (simp add: tm_inv_def)
  with assms show ?thesis
    by (auto simp: tm_set_timeout_def Let_def timer_ok_def wf_add_ms split: if_splits
        intro!: tm_inv_add)
qed

lemma tm_inv_set_interval:
  assumes "tm_inv tm" and "\<And>k. wf_timespec (clk k)"
    and "tm_set_interval clk ok cb d (tm, n) = (i, tm', n')"
  shows "tm_inv tm'"
proof -
  have "0 \<le> tm_counter tm" using assms(1) by (simp add: tm_inv_def)
  with assms show ?thesis
    by (auto simp: tm_set_interval_def Let_def timer_ok_def wf_add_ms split: if_splits
        intro!: tm_inv_add)
qed

lemma tm_inv_clear: "tm_inv tm \<Longrightarrow> tm_inv (tm_clear tm i)"
  by (auto simp: tm_inv_def tm_clear_def dest!: mark_canceled_set)

lemma tm_inv_ops:
  assumes "tm_ops clk s t" and "\<And>k. wf_timespec (clk k)" and "tm_inv (fst s)"
  shows "tm_inv (fst t)"
  using assms
proof (induction rule: tm_ops.induct)
  case (ops_timeout s t ok cb d i t')
  then show ?case by (cases t; cases t') (auto intro: tm_inv_set_timeout)
next
  case (ops_interval s t ok cb d i t')
  then show ?case by (cases t; cases t') (auto intro: tm_inv_set_interval)
qed (auto intro: tm_inv_clear)

section \<open>How calls change the list\<close>

definition cancels :: "'v timer_entry \<Rightarrow> 'v timer_entry \<Rightarrow> bool" where
  "cancels e e' \<longleftrightarrow> e' = e \<or> e' = e\<lparr>te_canceled := True\<rparr>"

lemma cancels_same:
  "cancels e e' \<Longrightarrow> te_id e' = te_id e" "cancels e e' \<Longrightarrow> te_next_fire e' = te_next_fire e"
  by (auto simp: cancels_def)

lemma cancels_refl [simp]: "cancels e e"
  by (simp add: cancels_def)

lemma list_all2_mark_canceled: "list_all2 cancels es es' \<Longrightarrow> list_all2 cancels es (mark_canceled i es')"
  by (induction rule: list_all2_induct) (auto simp: cancels_def)

lemma mark_canceled_append:
  "\<exists>a' b'. mark_canceled i (a @ b) = a' @ b' \<and> list_all2 cancels a a' \<and>
     (b' = b \<or> b' = mark_canceled i b)"
proof (induction a)
  case Nil
  show ?case by (rule exI [of _ "[]"]) auto
next
  case (Cons e a)
  then obtain a' b' where ih: "mark_canceled i (a @ b) = a' @ b'" "list_all2 cancels a a'"
    "b' = b \<or> b' = mark_canceled i b" by blast
  show ?case
  proof (cases "te_id e = i")
    case True
    then show ?thesis
      by (intro exI [of _ "e\<lparr>te_canceled := True\<rparr> # a"] exI [of _ b])
        (auto simp: cancels_def intro: list.rel_refl)
  next
    case False
    with ih show ?thesis by (intro exI [of _ "e # a'"] exI [of _ b']) auto
  qed
qed

text \<open>
  After any calls the list is the old one, some entries marked, behind new entries whose ids
  are above the old counter and which fire no earlier than a clock reading taken since.
\<close>

definition newer :: "(nat \<Rightarrow> timespec) \<Rightarrow> nat \<Rightarrow> nat \<Rightarrow> int \<Rightarrow> 'v timer_entry \<Rightarrow> bool" where
  "newer clk n n' c e \<longleftrightarrow>
     c < te_id e \<and> (\<exists>k. n \<le> k \<and> k < n' \<and> time_ns (clk k) \<le> time_ns (te_next_fire e))"

lemma newer_cancels: "newer clk n n' c e \<Longrightarrow> cancels e e' \<Longrightarrow> newer clk n n' c e'"
  by (auto simp: newer_def cancels_def)

lemma newer_mono: "newer clk n n' c e \<Longrightarrow> n' \<le> n'' \<Longrightarrow> newer clk n n'' c e"
  by (auto simp: newer_def)

definition tm_ext :: "(nat \<Rightarrow> timespec) \<Rightarrow> 'v timer_manager \<times> nat \<Rightarrow> 'v timer_manager \<times> nat \<Rightarrow> bool" where
  "tm_ext clk s t \<longleftrightarrow>
     snd s \<le> snd t \<and> tm_counter (fst s) \<le> tm_counter (fst t) \<and>
     (\<exists>new old. tm_head (fst t) = new @ old \<and> list_all2 cancels (tm_head (fst s)) old \<and>
        (\<forall>e \<in> set new. newer clk (snd s) (snd t) (tm_counter (fst s)) e))"

lemma tm_ext_add:
  assumes "tm_ext clk s (tm, n)" and "newer clk (snd s) (Suc n) (tm_counter (fst s)) e"
  shows "tm_ext clk s (tm\<lparr>tm_head := e # tm_head tm, tm_counter := tm_counter tm + 1,
                        tm_pipe := p\<rparr>, Suc n)"
proof -
  from assms(1) obtain new old where "tm_head tm = new @ old" "list_all2 cancels (tm_head (fst s)) old"
    "\<forall>e \<in> set new. newer clk (snd s) n (tm_counter (fst s)) e" "snd s \<le> n"
    "tm_counter (fst s) \<le> tm_counter tm"
    by (auto simp: tm_ext_def)
  with assms(2) show ?thesis
    unfolding tm_ext_def
    by (intro conjI exI [of _ "e # new"] exI [of _ old]) (auto intro: newer_mono)
qed

lemma tm_ext_set_timeout:
  assumes "tm_ext clk s t" and "tm_set_timeout clk ok cb d t = (i, t')"
  shows "tm_ext clk s t'"
proof (cases ok)
  case True
  obtain tm n where t: "t = (tm, n)" by fastforce
  let ?e = "\<lparr>te_id = tm_counter tm + 1, te_callback = cb, te_interval_ms = 0, te_is_interval = False,
     te_canceled = False, te_next_fire = timespec_add_ms (clk n) (if d < 0 then 0 else d)\<rparr>"
  have "newer clk (snd s) (Suc n) (tm_counter (fst s)) ?e"
    using assms(1) t unfolding newer_def tm_ext_def by (auto intro!: exI [of _ n] simp: time_ns_add_ms)
  from tm_ext_add [OF assms(1) [unfolded t] this, of "Suc (tm_pipe tm)"] assms(2) t True
  show ?thesis by (auto simp: tm_set_timeout_def Let_def)
qed (use assms in \<open>simp add: tm_set_timeout_def split: prod.splits\<close>)

lemma tm_ext_set_interval:
  assumes "tm_ext clk s t" and "tm_set_interval clk ok cb d t = (i, t')"
  shows "tm_ext clk s t'"
proof (cases ok)
  case True
  obtain tm n where t: "t = (tm, n)" by fastforce
  let ?ms = "if d \<le> 0 then 1 else d"
  let ?e = "\<lparr>te_id = tm_counter tm + 1, te_callback = cb, te_interval_ms = ?ms, te_is_interval = True,
     te_canceled = False, te_next_fire = timespec_add_ms (clk n) ?ms\<rparr>"
  have "newer clk (snd s) (Suc n) (tm_counter (fst s)) ?e"
    using assms(1) t unfolding newer_def tm_ext_def by (auto intro!: exI [of _ n] simp: time_ns_add_ms)
  from tm_ext_add [OF assms(1) [unfolded t] this, of "Suc (tm_pipe tm)"] assms(2) t True
  show ?thesis by (auto simp: tm_set_interval_def Let_def)
qed (use assms in \<open>simp add: tm_set_interval_def split: prod.splits\<close>)

lemma tm_ext_clear:
  assumes "tm_ext clk s (tm, n)"
  shows "tm_ext clk s (tm_clear tm i, n)"
proof -
  from assms obtain new old where h: "tm_head tm = new @ old" "list_all2 cancels (tm_head (fst s)) old"
    "\<forall>e \<in> set new. newer clk (snd s) n (tm_counter (fst s)) e" "snd s \<le> n"
    "tm_counter (fst s) \<le> tm_counter tm"
    by (auto simp: tm_ext_def)
  obtain new' old' where m: "mark_canceled i (new @ old) = new' @ old'" "list_all2 cancels new new'"
    "old' = old \<or> old' = mark_canceled i old"
    using mark_canceled_append by blast
  have "\<forall>e \<in> set new'. newer clk (snd s) n (tm_counter (fst s)) e"
    using m(2) h(3) newer_cancels by (fastforce simp: list_all2_conv_all_nth in_set_conv_nth)
  moreover have "list_all2 cancels (tm_head (fst s)) old'"
    using m(3) h(2) list_all2_mark_canceled by blast
  ultimately show ?thesis
    using h m(1) unfolding tm_ext_def tm_clear_def by auto
qed

lemma tm_ops_ext:
  assumes "tm_ops clk s t"
  shows "tm_ext clk s t"
  using assms
proof (induction rule: tm_ops.induct)
  case (ops_refl s)
  show ?case unfolding tm_ext_def
    by (intro conjI exI [of _ "[]"] exI [of _ "tm_head (fst s)"]) (auto intro: list.rel_refl)
next
  case (ops_clock s tm n)
  then show ?case
    unfolding tm_ext_def by (fastforce intro: newer_mono)
qed (auto intro: tm_ext_set_timeout tm_ext_set_interval tm_ext_clear)

section \<open>The scan\<close>

definition due :: "timespec \<Rightarrow> 'v timer_entry \<Rightarrow> bool" where
  "due now e \<longleftrightarrow> \<not> te_canceled e \<and> time_ns (te_next_fire e) \<le> time_ns now"

abbreviation due_ids :: "timespec \<Rightarrow> 'v timer_entry list \<Rightarrow> int list" where
  "due_ids now es \<equiv> map te_id (filter (due now) es)"

definition active_ids :: "'v timer_entry list \<Rightarrow> int set" where
  "active_ids es = te_id ` {e \<in> set es. \<not> te_canceled e}"

text \<open>An entry that stays in the list: not cleared and later than \<open>now\<close>.\<close>

definition waiting :: "timespec \<Rightarrow> 'v timer_entry \<Rightarrow> bool" where
  "waiting now e \<longleftrightarrow> \<not> te_canceled e \<and> time_ns now < time_ns (te_next_fire e)"

text \<open>Callbacks that clear no timer of the list they find.\<close>

definition keeps_timers :: "('v, 'x) timer_env \<Rightarrow> bool" where
  "keeps_timers env \<longleftrightarrow>
     (\<forall>cb tm n x tm' n' x'. js_callback env cb (tm, n, x) = (tm', n', x') \<longrightarrow>
        (\<exists>new. tm_head tm' = new @ tm_head tm))"

text \<open>What a pass over the timers leaves and fires.\<close>

definition scan_post ::
    "('v, 'x) timer_env \<Rightarrow> timespec \<Rightarrow> bool \<Rightarrow> 'v timer_manager \<Rightarrow> nat \<Rightarrow> int list \<Rightarrow>
     'v timer_manager \<Rightarrow> nat \<Rightarrow> bool" where
  "scan_post env now strict tm n fired tm' n' \<longleftrightarrow>
     tm_inv tm' \<and> n \<le> n' \<and> tm_counter tm \<le> tm_counter tm' \<and>
     (\<forall>e \<in> set (tm_head tm'). waiting now e) \<and>
     active_ids (tm_head tm') \<subseteq> active_ids (tm_head tm) \<union> {f. tm_counter tm < f} \<and>
     (\<forall>f \<in> set fired. f \<in> set (due_ids now (tm_head tm)) \<or> tm_counter tm < f) \<and>
     (strict \<longrightarrow> subseq fired (due_ids now (tm_head tm)) \<and>
        (keeps_timers env \<longrightarrow> fired = due_ids now (tm_head tm)))"

lemma due_ids_cancels:
  "list_all2 cancels es es' \<Longrightarrow> subseq (due_ids now es') (due_ids now es)"
  by (induction rule: list_all2_induct) (auto simp: cancels_def due_def)

lemma active_ids_append [simp]: "active_ids (a @ b) = active_ids a \<union> active_ids b"
  and active_ids_Cons [simp]:
    "active_ids (e # b) = (if te_canceled e then active_ids b else insert (te_id e) (active_ids b))"
  by (auto simp: active_ids_def)

lemma active_ids_cancels: "list_all2 cancels es es' \<Longrightarrow> active_ids es' \<subseteq> active_ids es"
  by (induction rule: list_all2_induct) (auto simp: cancels_def)

lemma pending_cancels:
  "list_all2 cancels es es' \<Longrightarrow>
     length (filter (\<lambda>e. time_ns (te_next_fire e) \<le> t) es') =
     length (filter (\<lambda>e. time_ns (te_next_fire e) \<le> t) es)"
  by (induction rule: list_all2_induct) (auto simp: cancels_def)

lemma waiting_not_due: "waiting now e \<Longrightarrow> \<not> due now e"
  by (simp add: waiting_def due_def)

lemma subseq_set: "subseq xs ys \<Longrightarrow> set xs \<subseteq> set ys"
  by (auto elim: list_emb_set)

lemma tm_inv_remove:
  assumes "tm_inv tm" and "i < length (tm_head tm)"
  shows "tm_inv (tm\<lparr>tm_head := remove_at i (tm_head tm)\<rparr>)"
proof -
  obtain a e b where "tm_head tm = a @ e # b" "remove_at i (tm_head tm) = a @ b"
    by (rule remove_at_split [OF assms(2)])
  with assms(1) show ?thesis
    by (simp add: tm_inv_def sorted_wrt_append)
qed

lemma tm_inv_update:
  assumes "tm_inv tm" and "i < length (tm_head tm)"
    and "te_id e = te_id (tm_head tm ! i)" and "timer_ok (tm_counter tm) e"
  shows "tm_inv (tm\<lparr>tm_head := (tm_head tm)[i := e]\<rparr>)"
proof -
  have "map te_id ((tm_head tm)[i := e]) = map te_id (tm_head tm)"
    using assms(2,3) by (metis list_update_id map_update nth_map)
  with assms(1,4) show ?thesis
    by (auto simp: tm_inv_def dest!: set_update_subset_insert [THEN subsetD])
qed

definition pending :: "timespec \<Rightarrow> 'v timer_entry list \<Rightarrow> nat" where
  "pending now es = length (filter (\<lambda>e. time_ns (te_next_fire e) \<le> time_ns now) es)"

lemma filter_due_waiting: "\<forall>e \<in> set es. waiting now e \<Longrightarrow> filter (due now) es = []"
  by (auto simp: waiting_not_due filter_empty_conv)

lemma tm_inv_id_inj:
  "tm_inv tm \<Longrightarrow> i < j \<Longrightarrow> j < length (tm_head tm) \<Longrightarrow> te_id (tm_head tm ! j) < te_id (tm_head tm ! i)"
  by (auto simp: tm_inv_def sorted_wrt_iff_nth_less)

lemma fires_iff_due:
  assumes "wf_timespec now" and "wf_timespec (te_next_fire e)" and "\<not> te_canceled e"
  shows "0 \<le> timespec_cmp now (te_next_fire e) \<longleftrightarrow> due now e"
  using assms by (auto simp: timespec_cmp_ns due_def sgn_if)

lemma not_due_waiting: "\<not> te_canceled e \<Longrightarrow> \<not> due now e \<Longrightarrow> waiting now e"
  by (auto simp: due_def waiting_def)

text \<open>Callbacks that change the timers through the operations above and not otherwise.\<close>

definition uses_timer_calls :: "(nat \<Rightarrow> timespec) \<Rightarrow> ('v, 'x) timer_env \<Rightarrow> bool" where
  "uses_timer_calls clk env \<longleftrightarrow>
     (\<forall>cb tm n x tm' n' x'. js_callback env cb (tm, n, x) = (tm', n', x') \<longrightarrow>
        tm_ops clk (tm, n) (tm', n'))"

text \<open>
  The interface between the timer manager and the engine.  Whatever a callback does, it does
  through the operations above, and the clock returns normalised readings.
\<close>

locale timer_callbacks =
  fixes clk :: "nat \<Rightarrow> timespec" and env :: "('v, 'x) timer_env"
  assumes clk_wf: "wf_timespec (clk k)"
    and callback_ops:
      "js_callback env cb (tm, n, x) = (tm', n', x') \<Longrightarrow> tm_ops clk (tm, n) (tm', n')"
begin

lemma callback_inv:
  assumes "js_callback env cb (tm, n, x) = (tm', n', x')" and "tm_inv tm"
  shows "tm_inv tm'"
  using tm_inv_ops [OF callback_ops [OF assms(1)] clk_wf] assms(2) by simp

lemma callback_list:
  assumes "js_callback env cb (tm, n, x) = (tm', n', x')"
  obtains new old where "tm_head tm' = new @ old" "list_all2 cancels (tm_head tm) old"
    "\<forall>e \<in> set new. newer clk n n' (tm_counter tm) e"
    "n \<le> n'" "tm_counter tm \<le> tm_counter tm'"
  using tm_ops_ext [OF callback_ops [OF assms]] by (auto simp: tm_ext_def)

lemma callback_mono:
  assumes "js_callback env cb (tm, n, x) = (tm', n', x')"
  shows "n \<le> n'" and "tm_counter tm \<le> tm_counter tm'"
  using tm_ops_ext [OF callback_ops [OF assms]] by (simp_all add: tm_ext_def)

lemma callback_due_ids:
  assumes "js_callback env cb (tm, n, x) = (tm', n', x')"
    and "f \<in> set (due_ids now (tm_head tm'))"
  shows "f \<in> set (due_ids now (tm_head tm)) \<or> tm_counter tm < f"
proof -
  obtain new old where h: "tm_head tm' = new @ old" "list_all2 cancels (tm_head tm) old"
    "\<forall>e \<in> set new. newer clk n n' (tm_counter tm) e"
    by (rule callback_list [OF assms(1)])
  have "set (due_ids now old) \<subseteq> set (due_ids now (tm_head tm))"
    using due_ids_cancels [OF h(2)] by (rule subseq_set)
  with assms(2) h(1,3) show ?thesis by (fastforce simp: newer_def)
qed

lemma callback_active_ids:
  assumes "js_callback env cb (tm, n, x) = (tm', n', x')"
  shows "active_ids (tm_head tm') \<subseteq> active_ids (tm_head tm) \<union> {f. tm_counter tm < f}"
proof -
  obtain new old where h: "tm_head tm' = new @ old" "list_all2 cancels (tm_head tm) old"
    "\<forall>e \<in> set new. newer clk n n' (tm_counter tm) e"
    by (rule callback_list [OF assms(1)])
  then have "active_ids new \<subseteq> {f. tm_counter tm < f}" by (auto simp: active_ids_def newer_def)
  with h(1) active_ids_cancels [OF h(2)] show ?thesis by auto
qed

lemma callback_pending_same:
  assumes "js_callback env cb (tm, n, x) = (tm', n, x')"
  shows "pending now (tm_head tm') = pending now (tm_head tm)"
proof -
  obtain new old where h: "tm_head tm' = new @ old" "list_all2 cancels (tm_head tm) old"
    "\<forall>e \<in> set new. newer clk n n (tm_counter tm) e"
    by (rule callback_list [OF assms(1)])
  have "new = []" using h(3) by (cases new) (auto simp: newer_def)
  with h show ?thesis by (simp add: pending_def pending_cancels)
qed

lemma callback_strict:
  assumes cb: "js_callback env cb (tm, n, x) = (tm', n', x')"
    and late: "\<And>k. n \<le> k \<Longrightarrow> time_ns now < time_ns (clk k)"
  shows "subseq (due_ids now (tm_head tm')) (due_ids now (tm_head tm))"
    and "pending now (tm_head tm') = pending now (tm_head tm)"
    and "keeps_timers env \<Longrightarrow> due_ids now (tm_head tm') = due_ids now (tm_head tm)"
proof -
  obtain new old where h: "tm_head tm' = new @ old" "list_all2 cancels (tm_head tm) old"
    "\<forall>e \<in> set new. newer clk n n' (tm_counter tm) e"
    by (rule callback_list [OF cb])
  have new: "\<not> time_ns (te_next_fire e) \<le> time_ns now" if "e \<in> set new" for e
    using h(3) late that by (force simp: newer_def)
  then have fil: "filter (due now) new = []" "filter (\<lambda>e. time_ns (te_next_fire e) \<le> time_ns now) new = []"
    by (auto simp: filter_empty_conv due_def)
  show "subseq (due_ids now (tm_head tm')) (due_ids now (tm_head tm))"
    using due_ids_cancels [OF h(2)] by (simp add: h(1) fil)
  show "pending now (tm_head tm') = pending now (tm_head tm)"
    using pending_cancels [OF h(2)] by (simp add: h(1) fil pending_def)
  assume "keeps_timers env"
  with cb obtain new' where "tm_head tm' = new' @ tm_head tm" unfolding keeps_timers_def by blast
  with h(1) list_all2_lengthD [OF h(2)] have "tm_head tm = old" by (simp add: append_eq_append_conv)
  then show "due_ids now (tm_head tm') = due_ids now (tm_head tm)" by (simp add: h(1) fil)
qed

definition scan_meas :: "timespec \<Rightarrow> nat \<Rightarrow> nat \<times> 'v timer_manager \<times> nat \<Rightarrow> nat \<times> nat \<times> nat" where
  "scan_meas now N = (\<lambda>(i, tm, n). (N - n, pending now (tm_head tm), length (tm_head tm) - i))"

definition scan_rel ::
    "timespec \<Rightarrow> nat \<Rightarrow> ((nat \<times> 'v timer_manager \<times> nat) \<times> (nat \<times> 'v timer_manager \<times> nat)) set" where
  "scan_rel now N = inv_image (less_than <*lex*> less_than <*lex*> less_than) (scan_meas now N)"

lemma wf_scan_rel: "wf (scan_rel now N)"
  unfolding scan_rel_def by (intro wf_inv_image wf_lex_prod wf_less_than)

text \<open>The state in which the callback of the due timer at position \<open>i\<close> is called.\<close>

definition fire_start :: "nat \<Rightarrow> 'v timer_manager \<times> nat \<Rightarrow> 'v timer_manager \<times> nat" where
  "fire_start i = (\<lambda>(tm, n).
     let e = tm_head tm ! i in
     if te_is_interval e
     then (tm\<lparr>tm_head := (tm_head tm)
             [i := e\<lparr>te_next_fire := timespec_add_ms (clk n) (te_interval_ms e)\<rparr>]\<rparr>, Suc n)
     else (tm\<lparr>tm_head := remove_at i (tm_head tm)\<rparr>, n))"

lemma fire_start_facts:
  assumes inv: "tm_inv tm" and i: "i < length (tm_head tm)"
    and pre: "\<forall>j < i. waiting now (tm_head tm ! j)" and due: "due now (tm_head tm ! i)"
    and st: "fire_start i (tm, n) = (tm1, n1)"
  shows "tm_inv tm1" and "n \<le> n1" and "tm_counter tm1 = tm_counter tm"
    and "set (due_ids now (tm_head tm1)) \<subseteq> set (due_ids now (tm_head tm))"
    and "(\<And>k. n \<le> k \<Longrightarrow> time_ns now < time_ns (clk k)) \<Longrightarrow>
         due_ids now (tm_head tm) = te_id (tm_head tm ! i) # due_ids now (tm_head tm1)"
    and "n1 = n \<or> (\<forall>k \<ge> n. time_ns now < time_ns (clk k)) \<Longrightarrow>
         pending now (tm_head tm1) < pending now (tm_head tm)"
    and "active_ids (tm_head tm1) \<subseteq> active_ids (tm_head tm)"
proof -
  let ?e = "tm_head tm ! i"
  have "?e \<in> set (tm_head tm)" using i by simp
  then have ok: "timer_ok (tm_counter tm) ?e" using inv by (simp add: tm_inv_def)
  obtain a b where ab: "tm_head tm = a @ ?e # b" "length a = i" "remove_at i (tm_head tm) = a @ b"
    "\<forall>e. (tm_head tm)[i := e] = a @ e # b"
    by (rule remove_at_split [OF i])
  have "\<forall>e \<in> set a. waiting now e"
    using pre ab(1,2) by (metis in_set_conv_nth nth_append)
  then have a: "filter (due now) a = []" by (rule filter_due_waiting)
  obtain e where e: "e = ?e" by simp
  note h = ab(1) [folded e]
  have d: "due now e" "timer_ok (tm_counter tm) e" using due ok e by simp_all
  let ?e' = "e\<lparr>te_next_fire := timespec_add_ms (clk n) (te_interval_ms e)\<rparr>"
  have "timer_ok (tm_counter tm) ?e'" if "te_is_interval e"
    using d(2) that clk_wf [of n] by (auto simp: timer_ok_def intro: wf_add_ms)
  then show "tm_inv tm1"
    using st tm_inv_remove [OF inv i] tm_inv_update [OF inv i, of ?e'] e
    by (auto simp: fire_start_def Let_def split: if_splits)
  show "n \<le> n1" "tm_counter tm1 = tm_counter tm"
    using st by (auto simp: fire_start_def Let_def split: if_splits)
  have cases: "tm_head tm1 = a @ b \<and> n1 = n \<or> tm_head tm1 = a @ ?e' # b \<and> n1 = Suc n \<and> te_is_interval e"
    using st ab(3,4) e by (auto simp: fire_start_def Let_def split: if_splits)
  then show "set (due_ids now (tm_head tm1)) \<subseteq> set (due_ids now (tm_head tm))"
    using d(1) by (auto simp: h a simp del: set_filter split: if_splits)
  show "active_ids (tm_head tm1) \<subseteq> active_ids (tm_head tm)"
    using cases by (auto simp: h split: if_splits)
  have late: "\<not> time_ns (te_next_fire ?e') \<le> time_ns now"
    if "te_is_interval e" "time_ns now < time_ns (clk n)"
    using that d(2) by (simp add: time_ns_add_ms timer_ok_def)
  show "due_ids now (tm_head tm) = te_id ?e # due_ids now (tm_head tm1)"
    if "\<And>k. n \<le> k \<Longrightarrow> time_ns now < time_ns (clk k)"
    using cases d(1) late that [of n] by (auto simp: h a due_def nth_append ab(2))
  show "pending now (tm_head tm1) < pending now (tm_head tm)"
    if "n1 = n \<or> (\<forall>k \<ge> n. time_ns now < time_ns (clk k))"
    using cases d(1) late that by (auto simp: h pending_def due_def)
qed

lemma fire_decreases:
  assumes inv: "tm_inv tm" and i: "i < length (tm_head tm)"
    and pre: "\<forall>j < i. waiting now (tm_head tm ! j)" and due: "due now (tm_head tm ! i)"
    and st: "fire_start i (tm, n) = (tm1, n1)"
    and cb: "js_callback env cb (tm1, n1, x) = (tm2, n2, x2)"
    and late: "\<forall>k \<ge> N. time_ns now < time_ns (clk k)"
  shows "((0, tm2, n2), (i, tm, n)) \<in> scan_rel now N"
proof -
  note facts = fire_start_facts [OF inv i pre due st]
  have "n1 \<le> n2" using cb by (rule callback_mono)
  consider "N \<le> n" | "n < N" "n < n2" | "n2 = n1" "n1 = n"
    using facts(2) \<open>n1 \<le> n2\<close> by linarith
  then show ?thesis
  proof cases
    case 1
    then have l: "\<And>k. n \<le> k \<Longrightarrow> time_ns now < time_ns (clk k)" using late by simp
    have "pending now (tm_head tm2) = pending now (tm_head tm1)"
      using callback_strict(2) [OF cb] l facts(2) by simp
    with facts(6) l have "pending now (tm_head tm2) < pending now (tm_head tm)" by simp
    with 1 facts(2) \<open>n1 \<le> n2\<close> show ?thesis by (simp add: scan_rel_def scan_meas_def)
  next
    case 2
    then show ?thesis by (simp add: scan_rel_def scan_meas_def) linarith
  next
    case 3
    with callback_pending_same cb facts(6) show ?thesis by (simp add: scan_rel_def scan_meas_def)
  qed
qed

lemma scan_step_fire:
  assumes "i < length (tm_head tm)" and "\<not> te_canceled (tm_head tm ! i)"
    and "0 \<le> timespec_cmp now (te_next_fire (tm_head tm ! i))"
    and "fire_start i (tm, n) = (tm1, n1)"
  obtains tm2 n2 x1 x2 x3 where
    "js_callback env (te_callback (tm_head tm ! i)) (tm1, n1, x1) = (tm2, n2, x2)"
    "tm_scan clk env now i fired (tm, n, x) =
       tm_scan clk env now 0 (fired @ [te_id (tm_head tm ! i)]) (tm2, n2, x3)"
proof -
  let ?cb = "te_callback (tm_head tm ! i)"
  let ?x1 = "if te_is_interval (tm_head tm ! i) then js_dup env ?cb x else js_free env ?cb (js_dup env ?cb x)"
  obtain tm2 n2 x2 where r: "js_callback env ?cb (tm1, n1, ?x1) = (tm2, n2, x2)"
    by (metis prod_cases3)
  show ?thesis
    by (rule that [OF r, of "js_free env ?cb x2"], subst tm_scan.simps)
      (use assms r in \<open>auto simp: Let_def fire_start_def split: if_splits\<close>)
qed

lemma scan_post_fire:
  assumes "scan_post env now strict tm2 n2 fs tm' n'"
    and "n \<le> n2" and "tm_counter tm \<le> tm_counter tm2"
    and "\<forall>f \<in> set (due_ids now (tm_head tm2)). f \<in> set (due_ids now (tm_head tm)) \<or> tm_counter tm < f"
    and "f \<in> set (due_ids now (tm_head tm))"
    and "strict \<Longrightarrow> subseq (f # due_ids now (tm_head tm2)) (due_ids now (tm_head tm))"
    and "strict \<Longrightarrow> keeps_timers env \<Longrightarrow> due_ids now (tm_head tm) = f # due_ids now (tm_head tm2)"
    and "active_ids (tm_head tm2) \<subseteq> active_ids (tm_head tm) \<union> {f. tm_counter tm < f}"
  shows "scan_post env now strict tm n (f # fs) tm' n'"
proof -
  have "subseq (f # fs) (due_ids now (tm_head tm))" if strict
  proof (rule subseq_order.order_trans)
    show "subseq (f # fs) (f # due_ids now (tm_head tm2))"
      using assms(1) that by (simp add: scan_post_def)
  qed (rule assms(6) [OF that])
  moreover have "g \<in> set (due_ids now (tm_head tm)) \<or> tm_counter tm < g" if "g \<in> set fs" for g
  proof -
    have "g \<in> set (due_ids now (tm_head tm2)) \<or> tm_counter tm2 < g"
      using assms(1) that unfolding scan_post_def by blast
    with assms(3,4) show ?thesis by (meson order.strict_trans1)
  qed
  moreover have "f # fs = due_ids now (tm_head tm)" if strict "keeps_timers env"
    using assms(1) assms(7) [OF that] that by (simp add: scan_post_def)
  moreover have "tm_inv tm'" "n \<le> n'" "tm_counter tm \<le> tm_counter tm'"
    "\<forall>e \<in> set (tm_head tm'). waiting now e"
    using assms(1-3) by (auto simp: scan_post_def)
  moreover have "active_ids (tm_head tm') \<subseteq> active_ids (tm_head tm) \<union> {f. tm_counter tm < f}"
    using assms(1,3,8) unfolding scan_post_def by fastforce
  ultimately show ?thesis using assms(5) unfolding scan_post_def by (metis set_ConsD)
qed

text \<open>The scan from position \<open>i\<close> returns, and with the promised result.\<close>

definition scan_ok :: "timespec \<Rightarrow> bool \<Rightarrow> nat \<Rightarrow> 'v timer_manager \<Rightarrow> nat \<Rightarrow> bool" where
  "scan_ok now strict i tm n \<longleftrightarrow>
     (\<forall>fired x. \<exists>fs tm' n' x'.
        tm_scan clk env now i fired (tm, n, x) = Some (fired @ fs, tm', n', x') \<and>
        scan_post env now strict tm n fs tm' n')"

lemma scan_ok_end:
  assumes "tm_inv tm" and "\<forall>j < length (tm_head tm). waiting now (tm_head tm ! j)"
  shows "scan_ok now strict (length (tm_head tm)) tm n"
proof -
  have w: "\<forall>e \<in> set (tm_head tm). waiting now e" using assms(2) by (simp add: all_set_conv_all_nth)
  have "tm_scan clk env now (length (tm_head tm)) fired (tm, n, x) = Some (fired @ [], tm, n, x)" for fired x
    by (subst tm_scan.simps) simp
  moreover have "scan_post env now strict tm n [] tm n"
    using assms(1) w filter_due_waiting [OF w] by (simp add: scan_post_def)
  ultimately show ?thesis unfolding scan_ok_def by blast
qed

lemma scan_ok_cancel:
  assumes i: "i < length (tm_head tm)" and c: "te_canceled (tm_head tm ! i)"
    and ok: "scan_ok now strict i (tm\<lparr>tm_head := remove_at i (tm_head tm)\<rparr>) n"
  shows "scan_ok now strict i tm n"
proof -
  obtain a e b where ab: "tm_head tm = a @ e # b" "length a = i" "remove_at i (tm_head tm) = a @ b"
    by (rule remove_at_split [OF i])
  then have "te_canceled e" using c by (simp add: nth_append)
  then have "due_ids now (tm_head tm) = due_ids now (remove_at i (tm_head tm))"
    "active_ids (tm_head tm) = active_ids (remove_at i (tm_head tm))"
    using ab by (simp_all add: due_def)
  then have "scan_post env now strict (tm\<lparr>tm_head := remove_at i (tm_head tm)\<rparr>) n fs tm' n' \<Longrightarrow>
      scan_post env now strict tm n fs tm' n'" for fs tm' n'
    by (simp add: scan_post_def)
  moreover have "tm_scan clk env now i fired (tm, n, x) = tm_scan clk env now i fired
      (tm\<lparr>tm_head := remove_at i (tm_head tm)\<rparr>, n, js_free env (te_callback (tm_head tm ! i)) x)" for fired x
    using i by (subst tm_scan.simps) (simp add: c)
  ultimately show ?thesis using ok unfolding scan_ok_def by metis
qed

lemma scan_ok_skip:
  assumes "i < length (tm_head tm)" and "\<not> te_canceled (tm_head tm ! i)"
    and "\<not> 0 \<le> timespec_cmp now (te_next_fire (tm_head tm ! i))"
    and ok: "scan_ok now strict (Suc i) tm n"
  shows "scan_ok now strict i tm n"
proof -
  have "tm_scan clk env now i fired (tm, n, x) = tm_scan clk env now (Suc i) fired (tm, n, x)" for fired x
    using assms(1,3) by (subst tm_scan.simps) (simp add: assms(2))
  with ok show ?thesis by (simp add: scan_ok_def)
qed

lemma scan_post_callback:
  assumes inv: "tm_inv tm" and i: "i < length (tm_head tm)"
    and pre: "\<forall>j < i. waiting now (tm_head tm ! j)" and due: "due now (tm_head tm ! i)"
    and st: "fire_start i (tm, n) = (tm1, n1)"
    and cb: "js_callback env cb (tm1, n1, x1) = (tm2, n2, x2)"
    and strict: "strict \<longrightarrow> (\<forall>k \<ge> n. time_ns now < time_ns (clk k))"
    and post: "scan_post env now strict tm2 n2 fs tm' n'"
  shows "scan_post env now strict tm n (te_id (tm_head tm ! i) # fs) tm' n'"
proof (rule scan_post_fire [OF post])
  note facts = fire_start_facts [OF inv i pre due st]
  show "n \<le> n2" "tm_counter tm \<le> tm_counter tm2"
    using callback_mono [OF cb] facts(2,3) by simp_all
  have sl: "\<And>k. n \<le> k \<Longrightarrow> time_ns now < time_ns (clk k)"
    "\<And>k. n1 \<le> k \<Longrightarrow> time_ns now < time_ns (clk k)" if strict
    using strict facts(2) that by auto
  show "\<forall>f \<in> set (due_ids now (tm_head tm2)). f \<in> set (due_ids now (tm_head tm)) \<or> tm_counter tm < f"
  proof
    fix f assume "f \<in> set (due_ids now (tm_head tm2))"
    from callback_due_ids [OF cb this] facts(3,4)
    show "f \<in> set (due_ids now (tm_head tm)) \<or> tm_counter tm < f" by auto
  qed
  show "active_ids (tm_head tm2) \<subseteq> active_ids (tm_head tm) \<union> {f. tm_counter tm < f}"
    using callback_active_ids [OF cb] facts(3,7) by auto
  show "te_id (tm_head tm ! i) \<in> set (due_ids now (tm_head tm))" using i due by auto
  show "subseq (te_id (tm_head tm ! i) # due_ids now (tm_head tm2)) (due_ids now (tm_head tm))" if strict
    using facts(5) [OF sl(1) [OF that]] callback_strict(1) [OF cb sl(2) [OF that]] by simp
  show "due_ids now (tm_head tm) = te_id (tm_head tm ! i) # due_ids now (tm_head tm2)"
    if strict "keeps_timers env"
    using facts(5) [OF sl(1) [OF that(1)]] callback_strict(3) [OF cb sl(2) [OF that(1)] that(2)] by simp
qed

lemma scan_ok_fire:
  assumes inv: "tm_inv tm" and i: "i < length (tm_head tm)"
    and pre: "\<forall>j < i. waiting now (tm_head tm ! j)"
    and e: "\<not> te_canceled (tm_head tm ! i)" "0 \<le> timespec_cmp now (te_next_fire (tm_head tm ! i))"
      "due now (tm_head tm ! i)"
    and strict: "strict \<longrightarrow> (\<forall>k \<ge> n. time_ns now < time_ns (clk k))"
    and ok: "\<And>tm1 n1 cb x1 tm2 n2 x2. fire_start i (tm, n) = (tm1, n1) \<Longrightarrow>
      js_callback env cb (tm1, n1, x1) = (tm2, n2, x2) \<Longrightarrow> scan_ok now strict 0 tm2 n2"
  shows "scan_ok now strict i tm n"
  unfolding scan_ok_def
proof (intro allI)
  fix fired x
  let ?e = "tm_head tm ! i"
  obtain tm1 n1 where st: "fire_start i (tm, n) = (tm1, n1)" by fastforce
  obtain tm2 n2 x1 x2 x3 where cb: "js_callback env (te_callback ?e) (tm1, n1, x1) = (tm2, n2, x2)"
    and step: "tm_scan clk env now i fired (tm, n, x) =
      tm_scan clk env now 0 (fired @ [te_id ?e]) (tm2, n2, x3)"
    by (rule scan_step_fire [OF i e(1,2) st])
  obtain fs tm' n' x' where
    r: "tm_scan clk env now 0 (fired @ [te_id ?e]) (tm2, n2, x3) =
       Some ((fired @ [te_id ?e]) @ fs, tm', n', x')"
    and post: "scan_post env now strict tm2 n2 fs tm' n'"
    using ok [OF st cb] unfolding scan_ok_def by blast
  from scan_post_callback [OF inv i pre e(3) st cb strict post] r step
  show "\<exists>fs tm' n' x'. tm_scan clk env now i fired (tm, n, x) = Some (fired @ fs, tm', n', x') \<and>
      scan_post env now strict tm n fs tm' n'" by auto
qed

lemma scan_spec:
  assumes "tm_inv tm" and "\<forall>j < i. waiting now (tm_head tm ! j)" and "i \<le> length (tm_head tm)"
    and "strict \<longrightarrow> (\<forall>k \<ge> n. time_ns now < time_ns (clk k))"
    and late: "\<forall>k \<ge> N. time_ns now < time_ns (clk k)" and now: "wf_timespec now"
  shows "scan_ok now strict i tm n"
  using assms(1-4)
proof (induction "(i, tm, n)" arbitrary: i tm n rule: wf_induct_rule [OF wf_scan_rel [of now N]])
  case 1
  note IH = "1.hyps" and inv = "1.prems"(1) and pre = "1.prems"(2) and strict = "1.prems"(4)
  let ?e = "tm_head tm ! i"
  show ?case
  proof (cases "i < length (tm_head tm)")
    case False
    with scan_ok_end [OF inv] pre "1.prems"(3) show ?thesis by (metis le_neq_implies_less)
  next
    case i: True
    then have "timer_ok (tm_counter tm) ?e" using inv by (simp add: tm_inv_def)
    then have cmp: "0 \<le> timespec_cmp now (te_next_fire ?e) \<longleftrightarrow> due now ?e" if "\<not> te_canceled ?e"
      using fires_iff_due [OF now _ that] unfolding timer_ok_def by blast
    consider (cancel) "te_canceled ?e" | (fire) "\<not> te_canceled ?e" "due now ?e"
      | (skip) "\<not> te_canceled ?e" "\<not> due now ?e" by blast
    then show ?thesis
    proof cases
      case cancel
      obtain a e b where ab: "tm_head tm = a @ e # b" "length a = i" "remove_at i (tm_head tm) = a @ b"
        by (rule remove_at_split [OF i])
      then have "((i, tm\<lparr>tm_head := remove_at i (tm_head tm)\<rparr>, n), (i, tm, n)) \<in> scan_rel now N"
        by (auto simp: scan_rel_def scan_meas_def pending_def)
      from IH [OF this] tm_inv_remove [OF inv i] pre strict ab
      have "scan_ok now strict i (tm\<lparr>tm_head := remove_at i (tm_head tm)\<rparr>) n"
        by (auto simp: nth_append)
      then show ?thesis by (rule scan_ok_cancel [OF i cancel])
    next
      case fire
      show ?thesis
      proof (rule scan_ok_fire [OF inv i pre fire(1) _ fire(2) strict])
        show "0 \<le> timespec_cmp now (te_next_fire ?e)" using cmp fire by simp
        fix tm1 n1 cb x1 tm2 n2 x2
        assume st: "fire_start i (tm, n) = (tm1, n1)" and cb: "js_callback env cb (tm1, n1, x1) = (tm2, n2, x2)"
        note facts = fire_start_facts [OF inv i pre fire(2) st]
        have "n \<le> n2" using callback_mono [OF cb] facts(2) by simp
        with IH [OF fire_decreases [OF inv i pre fire(2) st cb late]] callback_inv [OF cb facts(1)] strict
        show "scan_ok now strict 0 tm2 n2" by auto
      qed
    next
      case skip
      have "((Suc i, tm, n), (i, tm, n)) \<in> scan_rel now N"
        using i by (simp add: scan_rel_def scan_meas_def)
      moreover have "\<forall>j < Suc i. waiting now (tm_head tm ! j)"
        using pre not_due_waiting [OF skip] by (auto simp: less_Suc_eq)
      ultimately show ?thesis
        using IH [of "Suc i" tm n] inv i strict cmp skip by (auto intro!: scan_ok_skip)
    qed
  qed
qed

text \<open>A whole pass.\<close>

lemma process_spec:
  assumes "tm_inv tm" and "strict \<longrightarrow> (\<forall>k > n. time_ns (clk n) < time_ns (clk k))"
    and "\<exists>N. \<forall>k \<ge> N. time_ns (clk n) < time_ns (clk k)"
  shows "\<exists>fs tm' n' x'. tm_process_pending clk env (tm, n, x) = Some (fs, tm', n', x') \<and>
           scan_post env (clk n) strict tm (Suc n) fs tm' n'"
proof -
  from assms(3) obtain N where late: "\<forall>k \<ge> N. time_ns (clk n) < time_ns (clk k)" by blast
  have "scan_ok (clk n) strict 0 (tm\<lparr>tm_pipe := 0\<rparr>) (Suc n)"
    by (rule scan_spec [OF _ _ _ _ late clk_wf]) (use assms(1,2) in \<open>auto simp: tm_inv_def\<close>)
  moreover have "scan_post env (clk n) strict (tm\<lparr>tm_pipe := 0\<rparr>) = scan_post env (clk n) strict tm"
    by (intro ext) (simp add: scan_post_def)
  ultimately show ?thesis
    unfolding scan_ok_def tm_process_pending_def by simp (metis append_Nil)
qed

end

section \<open>The timeout computation\<close>

lemma timer_diff_ms_bounds:
  assumes "wf_timespec now" and "wf_timespec (te_next_fire e)"
  shows "timer_diff_ms now e * 1000000 < max 0 (time_ns (te_next_fire e) - time_ns now) + 1000000"
    and "max 0 (time_ns (te_next_fire e) - time_ns now) < timer_diff_ms now e * 1000000 + 1000000"
    and "0 \<le> timer_diff_ms now e"
proof -
  define d where "d = tv_nsec (te_next_fire e) - tv_nsec now"
  define q where "q = d sdiv 1000000"
  have "q * 1000000 - d < 1000000 \<and> d - q * 1000000 < 1000000 \<and> (0 \<le> d \<longrightarrow> q * 1000000 \<le> d \<and> 0 \<le> q) \<and>
      (d \<le> 0 \<longrightarrow> d \<le> q * 1000000 \<and> q \<le> 0)"
  proof (cases "0 \<le> d")
    case True
    then have "q = d div 1000000" by (simp add: q_def signed_divide_int_def sgn_if)
    moreover have "d div 1000000 * 1000000 + d mod 1000000 = d" "0 \<le> d mod 1000000" "d mod 1000000 < 1000000"
      by simp_all
    ultimately show ?thesis using True by (auto simp: pos_imp_zdiv_nonneg_iff)
  next
    case False
    then have "q = - (- d div 1000000)" by (simp add: q_def signed_divide_int_def sgn_if)
    moreover have "- d div 1000000 * 1000000 + - d mod 1000000 = - d" "0 \<le> - d mod 1000000"
      "- d mod 1000000 < 1000000" "0 \<le> - d div 1000000"
      using False by (simp_all add: pos_imp_zdiv_nonneg_iff)
    ultimately show ?thesis using False by auto
  qed
  moreover have "time_ns (te_next_fire e) - time_ns now =
      (tv_sec (te_next_fire e) - tv_sec now) * 1000000000 + d"
    by (simp add: time_ns_def d_def algebra_simps)
  moreover have "timer_diff_ms now e = max 0 ((tv_sec (te_next_fire e) - tv_sec now) * 1000 + q)"
    by (simp add: timer_diff_ms_def q_def d_def Let_def)
  ultimately show "timer_diff_ms now e * 1000000 < max 0 (time_ns (te_next_fire e) - time_ns now) + 1000000"
    "max 0 (time_ns (te_next_fire e) - time_ns now) < timer_diff_ms now e * 1000000 + 1000000"
    "0 \<le> timer_diff_ms now e"
    by (auto simp: max_def)
qed

lemma int32_of_id: "0 \<le> d \<Longrightarrow> d < 2147483648 \<Longrightarrow> int32_of d = d"
  by (simp add: int32_of_def)

lemma next_timeout_loop_min:
  assumes "\<forall>e \<in> set es. \<not> te_canceled e \<longrightarrow> timer_diff_ms now e < 2147483648"
    and "\<forall>e \<in> set es. 0 \<le> timer_diff_ms now e" and "m = - 1 \<or> 0 \<le> m"
    and "next_timeout_loop now m es = r"
  shows "(r = m \<or> (\<exists>e \<in> set es. \<not> te_canceled e \<and> r = timer_diff_ms now e)) \<and>
    (\<forall>e \<in> set es. \<not> te_canceled e \<longrightarrow> 0 \<le> r \<and> r \<le> timer_diff_ms now e) \<and> (0 \<le> m \<longrightarrow> 0 \<le> r \<and> r \<le> m)"
  using assms
proof (induction es arbitrary: m)
  case (Cons e es)
  let ?m = "if te_canceled e \<or> 0 \<le> m \<and> m \<le> timer_diff_ms now e then m else timer_diff_ms now e"
  have "next_timeout_loop now ?m es = r"
    using Cons.prems int32_of_id [of "timer_diff_ms now e"] by (auto split: if_splits)
  with Cons.IH [of ?m] Cons.prems show ?case by (auto split: if_splits)
qed simp

section \<open>Correctness\<close>

text \<open>What the engine and the callbacks keep of the rest of the state, a pass keeps.\<close>

definition timer_env_keeps :: "('x \<Rightarrow> bool) \<Rightarrow> ('v, 'x) timer_env \<Rightarrow> bool" where
  "timer_env_keeps Q env \<longleftrightarrow>
     (\<forall>v x. Q x \<longrightarrow> Q (js_free env v x)) \<and> (\<forall>v x. Q x \<longrightarrow> Q (js_dup env v x)) \<and>
     (\<forall>cb tm n x. Q x \<longrightarrow> Q (snd (snd (js_callback env cb (tm, n, x)))))"

lemma tm_scan_keeps:
  assumes ret: "tm_scan clk env now i fired s = Some r" and "timer_env_keeps Q env" and "Q (snd (snd s))"
  shows "Q (snd (snd (snd r)))"
proof -
  have "timer_env_keeps Q env \<longrightarrow> Q (snd (snd s)) \<longrightarrow> Q (snd (snd (snd r)))"
  proof (rule tm_scan.raw_induct
      [where P = "\<lambda>clk env now i fired s r. timer_env_keeps Q env \<longrightarrow> Q (snd (snd s)) \<longrightarrow> Q (snd (snd (snd r)))",
       OF _ ret], intro impI, goal_cases)
    case (1 scan clk env now i fired s r)
    note IH = 1(1) [rule_format, OF _ 1(3)] and k = 1(3)
    obtain tm n x where s: "s = (tm, n, x)" by (rule prod_cases3)
    with 1(4) have x: "Q x" by simp
    have free: "Q (js_free env v y)" and dup: "Q (js_dup env v y)" if "Q y" for v y
      using k that by (simp_all add: timer_env_keeps_def)
    have call: "Q x2" if "js_callback env cb s1 = (tm2, n2, x2)" "Q (snd (snd s1))" for cb s1 tm2 n2 x2
      using k that unfolding timer_env_keeps_def by (metis prod.collapse snd_conv)
    show ?case
    proof (cases "length (tm_head tm) \<le> i")
      case True
      with 1(2) x show ?thesis by (auto simp: s)
    next
      case False
      let ?e = "tm_head tm ! i"
      consider (gone) "te_canceled ?e" | (fire) "\<not> te_canceled ?e" "0 \<le> timespec_cmp now (te_next_fire ?e)"
        | (wait) "\<not> te_canceled ?e" "\<not> 0 \<le> timespec_cmp now (te_next_fire ?e)" by blast
      then show ?thesis
      proof cases
        case gone
        with 1(2) False show ?thesis using x free by (auto simp: s dest!: IH)
      next
        case fire
        then obtain s1 tm2 n2 x2 where c: "js_callback env (te_callback ?e) s1 = (tm2, n2, x2)" "Q (snd (snd s1))"
          "scan clk env now 0 (fired @ [te_id ?e]) (tm2, n2, js_free env (te_callback ?e) x2) = Some r"
          using 1(2) False x free dup by (auto simp: s Let_def split: prod.splits if_splits)
        from IH [OF c(3)] call [OF c(1,2)] free show ?thesis by simp
      next
        case wait
        with 1(2) False show ?thesis using x by (auto simp: s dest!: IH)
      qed
    qed
  qed
  with assms show ?thesis by blast
qed

lemma tm_process_pending_keeps:
  "tm_process_pending clk env (tm, n, x) = Some (fired, tm', n', x') \<Longrightarrow> timer_env_keeps Q env \<Longrightarrow> Q x \<Longrightarrow> Q x'"
  unfolding tm_process_pending_def by (auto dest: tm_scan_keeps [where Q = Q])

lemma timer_callbacksI: "(\<And>k. wf_timespec (clk k)) \<Longrightarrow> uses_timer_calls clk env \<Longrightarrow> timer_callbacks clk env"
  unfolding uses_timer_calls_def by unfold_locales blast+

lemma mark_canceled_inactive:
  "sorted_wrt (>) (map te_id es) \<Longrightarrow> i \<notin> active_ids (mark_canceled i es)"
proof (induction es)
  case Nil
  show ?case by (simp add: active_ids_def)
next
  case (Cons e es)
  have "te_id e \<notin> active_ids es" using Cons.prems by (auto simp: active_ids_def)
  with Cons show ?case by (cases "te_id e = i") simp_all
qed

text \<open>
  Property C26.  Every operation of the timer manager keeps its invariant: ids are positive and
  unique, at most the counter, and decrease along the list, wake-up times are normalised, and an
  interval timer has a period of at least one millisecond.
\<close>

theorem tm_operations_keep_invariant:
  fixes tm :: "'v timer_manager"
  assumes "\<And>k. wf_timespec (clk k)" and "tm_inv tm"
  shows "tm_inv (tm_init :: 'v timer_manager) \<and> tm_inv (fst (snd (tm_set_timeout clk ok cb d (tm, n)))) \<and>
     tm_inv (fst (snd (tm_set_interval clk ok cb d (tm, n)))) \<and> tm_inv (tm_clear tm i) \<and>
     tm_inv (fst (tm_free env tm x)) \<and>
     (ok \<longrightarrow> fst (tm_set_timeout clk ok cb d (tm, n)) \<notin> te_id ` set (tm_head tm) \<and>
       fst (tm_set_interval clk ok cb d (tm, n)) \<notin> te_id ` set (tm_head tm))"
proof -
  obtain i1 tm1 n1 where t: "tm_set_timeout clk ok cb d (tm, n) = (i1, tm1, n1)" by (rule prod_cases3)
  obtain i2 tm2 n2 where v: "tm_set_interval clk ok cb d (tm, n) = (i2, tm2, n2)" by (rule prod_cases3)
  have "te_id e < tm_counter tm + 1" if "e \<in> set (tm_head tm)" for e
    using assms(2) that by (simp add: tm_inv_def timer_ok_def)
  then have "tm_counter tm + 1 \<notin> te_id ` set (tm_head tm)" by force
  moreover have "ok \<longrightarrow> fst (tm_set_timeout clk ok cb d (tm, n)) = tm_counter tm + 1"
    "ok \<longrightarrow> fst (tm_set_interval clk ok cb d (tm, n)) = tm_counter tm + 1"
    by (simp_all add: tm_set_timeout_def tm_set_interval_def Let_def)
  moreover have "tm_inv (fst (tm_free env tm x))" using assms(2) by (simp add: tm_free_def tm_inv_def)
  moreover have "tm_inv (fst (snd (tm_set_timeout clk ok cb d (tm, n))))"
    "tm_inv (fst (snd (tm_set_interval clk ok cb d (tm, n))))"
    using tm_inv_set_timeout [OF assms(2,1) t] tm_inv_set_interval [OF assms(2,1) v]
    by (simp_all only: t v fst_conv snd_conv)
  ultimately show ?thesis
    using tm_inv_init tm_inv_clear [OF assms(2)] by (intro conjI impI) simp_all
qed

text \<open>
  Property C27.  When every callback acts on the timers only through the timer calls and the clock
  moves past any instant, a pass of \<^verbatim>\<open>tm_process_pending\<close> returns, keeps the invariant, leaves no
  cleared and no due timer in the list, and fires only timers that were due at its start or were
  set during it.
\<close>

theorem tm_process_pending_returns:
  fixes env :: "('v, 'x) timer_env"
  assumes "\<And>k. wf_timespec (clk k)" and "tm_inv tm"
    and "uses_timer_calls clk env"
    and "\<exists>N. \<forall>k \<ge> N. time_ns (clk n) < time_ns (clk k)"
  shows "\<exists>fired tm' n' x'. tm_process_pending clk env (tm, n, x) = Some (fired, tm', n', x') \<and>
     tm_inv tm' \<and> (\<forall>e \<in> set (tm_head tm'). waiting (clk n) e) \<and>
     (\<forall>f \<in> set fired. f \<in> set (due_ids (clk n) (tm_head tm)) \<or> tm_counter tm < f)"
proof -
  have "timer_callbacks clk env" using assms(1,3) by (rule timer_callbacksI)
  from timer_callbacks.process_spec [OF this assms(2) _ assms(4), of False x]
  show ?thesis by (auto simp: scan_post_def)
qed

text \<open>
  Property C29.  When the clock is strictly later at each reading after the pass's own and no
  callback clears a timer, the pass fires exactly the timers that were due, each once, and newest
  first: in decreasing order of their ids, not in the order of their wake-up times.
\<close>

theorem tm_process_pending_fires_newest_first:
  fixes env :: "('v, 'x) timer_env"
  assumes "\<And>k. wf_timespec (clk k)" and "tm_inv tm"
    and "uses_timer_calls clk env"
    and "\<forall>k > n. time_ns (clk n) < time_ns (clk k)" and "keeps_timers env"
  shows "\<exists>fired tm' n' x'. tm_process_pending clk env (tm, n, x) = Some (fired, tm', n', x') \<and>
     fired = map te_id (filter (due (clk n)) (tm_head tm)) \<and> sorted_wrt (>) fired"
proof -
  have "timer_callbacks clk env" using assms(1,3) by (rule timer_callbacksI)
  moreover have "\<exists>N. \<forall>k \<ge> N. time_ns (clk n) < time_ns (clk k)"
    using assms(4) by (intro exI [of _ "Suc n"]) auto
  moreover have "sorted_wrt (>) (due_ids (clk n) (tm_head tm))"
    using assms(2) by (simp add: tm_inv_def sorted_wrt_map sorted_wrt_filter)
  ultimately show ?thesis
    using timer_callbacks.process_spec [of clk env tm True n x] assms(2,4,5)
    by (auto simp: scan_post_def)
qed

text \<open>
  Property C28.  A timer that was cleared before the pass does not fire in it, whatever the
  callbacks do.
\<close>

theorem cleared_timer_never_fires:
  fixes env :: "('v, 'x) timer_env"
  assumes "\<And>k. wf_timespec (clk k)" and "tm_inv tm" and "i \<le> tm_counter tm"
    and "uses_timer_calls clk env"
    and "\<exists>N. \<forall>k \<ge> N. time_ns (clk n) < time_ns (clk k)"
  shows "\<exists>fired tm' n' x'. tm_process_pending clk env (tm_clear tm i, n, x) = Some (fired, tm', n', x') \<and>
     i \<notin> set fired \<and> i \<notin> te_id ` set (tm_head tm')"
proof -
  let ?tm = "tm_clear tm i"
  have "timer_callbacks clk env" using assms(1,4) by (rule timer_callbacksI)
  moreover have "tm_inv ?tm" using assms(2) by (rule tm_inv_clear)
  ultimately obtain fired tm' n' x' where
    r: "tm_process_pending clk env (?tm, n, x) = Some (fired, tm', n', x')"
    "scan_post env (clk n) False ?tm (Suc n) fired tm' n'"
    using timer_callbacks.process_spec [of clk env ?tm False n x] assms(5) by auto
  have i: "i \<notin> active_ids (tm_head ?tm)" "tm_counter ?tm = tm_counter tm"
    using mark_canceled_inactive [of "tm_head tm" i] assms(2)
    by (auto simp: tm_clear_def tm_inv_def)
  moreover have "set (due_ids (clk n) (tm_head ?tm)) \<subseteq> active_ids (tm_head ?tm)"
    by (auto simp: active_ids_def due_def)
  ultimately have "i \<notin> set fired" using r(2) assms(3) by (fastforce simp: scan_post_def)
  moreover have "te_id ` set (tm_head tm') = active_ids (tm_head tm')"
    using r(2) by (auto simp: scan_post_def active_ids_def waiting_def)
  then have "i \<notin> te_id ` set (tm_head tm')" using r(2) i assms(3) by (auto simp: scan_post_def)
  ultimately show ?thesis using r(1) by blast
qed

text \<open>
  \<^verbatim>\<open>tm_next_timeout_ms\<close> is -1 exactly when no active timer is left, and otherwise it
  is within one millisecond of the time to the earliest wake-up: waiting that long overshoots no
  active timer by a millisecond or more, and falls short of some timer by less than one.
\<close>

theorem tm_next_timeout_ms_correct:
  assumes "\<And>k. wf_timespec (clk k)" and "tm_inv tm"
    and "\<forall>e \<in> set (tm_head tm). timer_diff_ms (clk n) e < 2147483648"
  shows "case tm_next_timeout_ms clk (tm, n) of (r, n') \<Rightarrow>
     (r = - 1 \<longleftrightarrow> (\<forall>e \<in> set (tm_head tm). te_canceled e)) \<and>
     (r \<noteq> - 1 \<longrightarrow>
       (\<forall>e \<in> set (tm_head tm). \<not> te_canceled e \<longrightarrow>
          r * 1000000 < max 0 (time_ns (te_next_fire e) - time_ns (clk n)) + 1000000) \<and>
       (\<exists>e \<in> set (tm_head tm). \<not> te_canceled e \<and>
          max 0 (time_ns (te_next_fire e) - time_ns (clk n)) < r * 1000000 + 1000000))"
proof -
  let ?now = "clk n" and ?r = "next_timeout_loop (clk n) (- 1) (tm_head tm)"
  have wf: "wf_timespec (te_next_fire e)" if "e \<in> set (tm_head tm)" for e
    using assms(2) that by (simp add: tm_inv_def timer_ok_def)
  note b = timer_diff_ms_bounds [OF assms(1) [of n] wf]
  have m: "(?r = - 1 \<or> (\<exists>e \<in> set (tm_head tm). \<not> te_canceled e \<and> ?r = timer_diff_ms ?now e)) \<and>
    (\<forall>e \<in> set (tm_head tm). \<not> te_canceled e \<longrightarrow> 0 \<le> ?r \<and> ?r \<le> timer_diff_ms ?now e)"
    using next_timeout_loop_min [of "tm_head tm" ?now "- 1", OF _ _ _ refl] assms(3) b(3) by auto
  have r: "fst (tm_next_timeout_ms clk (tm, n)) = ?r"
    by (simp add: tm_next_timeout_ms_def)
  have "?r = - 1 \<longleftrightarrow> (\<forall>e \<in> set (tm_head tm). te_canceled e)"
    using m b(3) by force
  moreover have "\<exists>e \<in> set (tm_head tm). \<not> te_canceled e \<and>
      max 0 (time_ns (te_next_fire e) - time_ns ?now) < ?r * 1000000 + 1000000" if "?r \<noteq> - 1"
    using m b(2) that by metis
  moreover have "?r * 1000000 < max 0 (time_ns (te_next_fire e) - time_ns ?now) + 1000000"
    if "e \<in> set (tm_head tm)" "\<not> te_canceled e" for e
    using m b(1) [OF that(1)] that by fastforce
  ultimately show ?thesis using r by (simp only: split_beta) blast
qed

section \<open>Witnesses\<close>

text \<open>A clock that advances by 2 ms at each reading, and callbacks that set a new timer.\<close>

definition ex_clk :: "nat \<Rightarrow> timespec" where
  "ex_clk k = \<lparr>tv_sec = 10 + int (k div 500), tv_nsec = int (k mod 500) * 2000000\<rparr>"

definition ex_env :: "(string, string list) timer_env" where
  "ex_env = \<lparr>js_dup = \<lambda>v x. x, js_free = \<lambda>v x. v # x,
     js_callback = \<lambda>cb (tm, n, x). case tm_set_timeout ex_clk True cb 5 (tm, n) of (i, tm', n') \<Rightarrow> (tm', n', x)\<rparr>"

definition ex_tm :: "string timer_manager" where
  "ex_tm = fst (snd (tm_set_timeout ex_clk True ''b'' 2
     (fst (snd (tm_set_interval ex_clk True ''a'' 0 (tm_init, 0))), 1)))"

lemma time_ns_ex_clk: "time_ns (ex_clk k) = 10000000000 + int k * 2000000"
proof -
  obtain q r where k: "k = q * 500 + r" "r < 500"
    using div_mult_mod_eq [of k 500] by (metis mod_less_divisor zero_less_numeral)
  then have "k div 500 = q" "k mod 500 = r" by simp_all
  with k(1) show ?thesis unfolding time_ns_def ex_clk_def by simp
qed

lemma ex_clk_wf: "wf_timespec (ex_clk k)"
  by (simp add: wf_timespec_def ex_clk_def)

lemma ex_callback_ops: "uses_timer_calls ex_clk ex_env"
  by (auto simp: uses_timer_calls_def ex_env_def split: prod.splits intro: ops_timeout [OF ops_refl])

lemma ex_keeps: "keeps_timers ex_env"
  by (auto simp: keeps_timers_def ex_env_def tm_set_timeout_def Let_def)

lemma ex_tm_inv: "tm_inv ex_tm"
  using ex_clk_wf [of 0] ex_clk_wf [of 1]
  by (simp add: tm_inv_def ex_tm_def tm_set_timeout_def tm_set_interval_def tm_init_def timer_ok_def
      Let_def wf_add_ms)

lemma ex_late: "\<exists>N. \<forall>k \<ge> N. time_ns (ex_clk n) < time_ns (ex_clk k)"
  by (intro exI [of _ "Suc n"]) (simp add: time_ns_ex_clk)

theorem tm_operations_keep_invariant_witness:
  "tm_inv (fst (snd (tm_set_timeout ex_clk True ''c'' 7 (ex_tm, 2)))) \<and> tm_inv (tm_clear ex_tm 1)"
  using tm_operations_keep_invariant [of ex_clk ex_tm True "''c''" 7 2 1 ex_env "[]", OF ex_clk_wf ex_tm_inv]
  by blast

theorem tm_process_pending_returns_witness:
  "\<exists>fired tm' n' x'. tm_process_pending ex_clk ex_env (ex_tm, 7, []) = Some (fired, tm', n', x') \<and>
     tm_inv tm' \<and> (\<forall>e \<in> set (tm_head tm'). waiting (ex_clk 7) e)"
  using tm_process_pending_returns
    [where clk = ex_clk and tm = ex_tm and env = ex_env and n = 7 and x = "[]",
      OF ex_clk_wf ex_tm_inv ex_callback_ops ex_late] by blast

theorem tm_process_pending_fires_newest_first_witness:
  "\<exists>tm' n' x'. tm_process_pending ex_clk ex_env (ex_tm, 7, []) = Some ([2, 1], tm', n', x')"
proof -
  have "\<forall>k > 7. time_ns (ex_clk 7) < time_ns (ex_clk k)" by (simp add: time_ns_ex_clk)
  moreover have "map te_id (filter (due (ex_clk 7)) (tm_head ex_tm)) = [2, 1]" by code_simp
  ultimately show ?thesis
    using tm_process_pending_fires_newest_first
      [where clk = ex_clk and tm = ex_tm and env = ex_env and n = 7 and x = "[]",
        OF ex_clk_wf ex_tm_inv ex_callback_ops _ ex_keeps]
    by auto
qed

theorem cleared_timer_never_fires_witness:
  "\<exists>fired tm' n' x'. tm_process_pending ex_clk ex_env (tm_clear ex_tm 1, 7, []) = Some (fired, tm', n', x') \<and>
     1 \<notin> set fired"
proof -
  have "(1 :: int) \<le> tm_counter ex_tm" by code_simp
  then show ?thesis
    using cleared_timer_never_fires
      [where clk = ex_clk and tm = ex_tm and env = ex_env and n = 7 and x = "[]" and i = 1,
        OF ex_clk_wf ex_tm_inv _ ex_callback_ops ex_late] by blast
qed

theorem tm_next_timeout_ms_correct_witness:
  "fst (tm_next_timeout_ms ex_clk (ex_tm, 1)) \<noteq> - 1"
proof -
  have "\<forall>e \<in> set (tm_head ex_tm). timer_diff_ms (ex_clk 1) e < 2147483648"
    "\<not> (\<forall>e \<in> set (tm_head ex_tm). te_canceled e)" by code_simp+
  then show ?thesis
    using tm_next_timeout_ms_correct [of ex_clk ex_tm 1, OF ex_clk_wf ex_tm_inv] by (auto split: prod.splits)
qed

end
