(* ===== verification/Fetch.thy ===== *)
theory Fetch
  imports Js_Api "HOL-Library.AList"
begin

text \<open>
  The fetch manager of \<^verbatim>\<open>src/polyfill/fetch.c\<close>.  libcurl is a parameter \<open>curl\<close>: what a transfer with the
  given options delivers to the callbacks and how it ends.  A request is an entry of the manager's list
  and a worker thread; a thread goes through three phases, the transfer, the time between setting
  \<^verbatim>\<open>completed\<close> and writing to the notification pipe, and the end.  The threads do not take the mutex, so
  their steps interleave with the pass of the event loop: \<open>fe_workers\<close> is what they do before each test
  of a \<^verbatim>\<open>completed\<close> flag, and \<open>fe_call\<close> what happens while a promise is settled.
\<close>

section \<open>State\<close>

type_synonym header_pair = "string \<times> string"

text \<open>\<open>fe_addr\<close> is the address of the entry, by which its thread reaches it.\<close>

record 'v fetch_entry =
  fe_addr :: nat
  fe_resolve :: 'v
  fe_reject :: 'v
  fe_url :: string
  fe_method :: string
  fe_body :: "string option"
  fe_headers :: "header_pair list"
  fe_status_code :: int
  fe_status_text :: "string option"
  fe_response_body :: "byte list"
  fe_response_headers :: "header_pair list"
  fe_completed :: bool
  fe_is_error :: bool
  fe_error_msg :: "string option"

datatype worker_phase = Transfer | Notifying | Finished

record 'v fetch_manager =
  fm_head :: "'v fetch_entry list"
  fm_counter :: int
  fm_pipe :: nat
  fm_threads :: "(nat \<times> worker_phase) list"
  fm_next :: nat

definition fm_init :: "'v fetch_manager" where
  "fm_init = \<lparr>fm_head = [], fm_counter = 0, fm_pipe = 0, fm_threads = [], fm_next = 1\<rparr>"

section \<open>The libcurl callbacks\<close>

record curl_buf =
  cb_data :: "byte list"
  cb_cap :: nat

text \<open>\<open>None\<close> is a copy past the end of the allocation.\<close>

definition curl_write_cb :: "byte list \<Rightarrow> curl_buf \<Rightarrow> (nat \<times> curl_buf) option" where
  "curl_write_cb data buf =
     (let total = length data in
      case grow_cap (length (cb_data buf) + total + 1) (if cb_cap buf = 0 then 4096 else cb_cap buf) of
        None \<Rightarrow> None
      | Some cap \<Rightarrow>
          if length (cb_data buf) + total \<le> cap
          then Some (total, \<lparr>cb_data = cb_data buf @ data, cb_cap = cap\<rparr>)
          else None)"

record header_buf =
  hb_headers :: "header_pair list"
  hb_cap :: nat

fun trim_crlf :: "string \<Rightarrow> nat \<Rightarrow> nat" where
  "trim_crlf v 0 = 0"
| "trim_crlf v (Suc n) = (if v ! n = CHR 0x0D \<or> v ! n = CHR 0x0A then trim_crlf v n else Suc n)"

text \<open>
  The header line is the whole of \<open>buffer\<close>; it has no terminating NUL.  \<open>None\<close> is an access past the end
  of a buffer: of the line, while skipping spaces, or of the copied key when it holds a NUL.
\<close>

definition curl_header_cb :: "string \<Rightarrow> header_buf \<Rightarrow> (nat \<times> header_buf) option" where
  "curl_header_cb buffer hb =
     (let total = length buffer in
      if total \<le> 2 then Some (total, hb)
      else if starts_with buffer ''HTTP/'' then Some (total, hb)
      else
        case strchr buffer CHR '':'' of
          None \<Rightarrow> Some (total, hb)
        | Some key_len \<Rightarrow>
            (let key = take key_len buffer;
                 val_start = dropWhile (\<lambda>c. c = CHR '' '') (drop (Suc key_len) buffer)
             in if NUL \<in> set key \<or> val_start = [] then None
                else
                  let lkey = map to_lower key;
                      val_len = trim_crlf val_start (length val_start);
                      val = c_str (take val_len val_start);
                      cap = (if hb_cap hb \<le> length (hb_headers hb)
                             then (if hb_cap hb = 0 then 16 else hb_cap hb * 2) else hb_cap hb)
                  in if length (hb_headers hb) < cap
                     then Some (total, \<lparr>hb_headers = hb_headers hb @ [(lkey, val)], hb_cap = cap\<rparr>)
                     else None))"

section \<open>The worker thread\<close>

datatype curl_opt =
    CURLOPT_URL string
  | CURLOPT_FOLLOWLOCATION
  | CURLOPT_TIMEOUT nat
  | CURLOPT_SSL_VERIFYPEER bool
  | CURLOPT_USERAGENT string
  | CURLOPT_PROXY string
  | CURLOPT_POST
  | CURLOPT_CUSTOMREQUEST string
  | CURLOPT_NOBODY
  | CURLOPT_POSTFIELDS string
  | CURLOPT_POSTFIELDSIZE nat
  | CURLOPT_HTTPHEADER "string list"

text \<open>
  What a transfer does: the lines it hands to the header callback, the pieces it hands to the write
  callback, and its end, the text of an error or the response code.
\<close>

record curl_transfer =
  ct_headers :: "string list"
  ct_body :: "byte list list"
  ct_end :: "string + int"

definition method_opts :: "string \<Rightarrow> curl_opt list" where
  "method_opts m =
     (if m = ''POST'' then [CURLOPT_POST]
      else if m = ''PUT'' \<or> m = ''DELETE'' \<or> m = ''PATCH'' then [CURLOPT_CUSTOMREQUEST m]
      else if m = ''HEAD'' then [CURLOPT_NOBODY]
      else [])"

definition curl_options :: "'v fetch_entry \<Rightarrow> curl_opt list" where
  "curl_options e =
     [CURLOPT_URL (fe_url e), CURLOPT_FOLLOWLOCATION, CURLOPT_TIMEOUT 30, CURLOPT_SSL_VERIFYPEER False,
      CURLOPT_USERAGENT ''cqjs/1.0'', CURLOPT_PROXY ''''] @
     method_opts (fe_method e) @
     (case fe_body e of
        None \<Rightarrow> []
      | Some b \<Rightarrow> [CURLOPT_POSTFIELDS b, CURLOPT_POSTFIELDSIZE (length b)]) @
     (let slist = map (\<lambda>(k, v). snprintf 4096 (k @ '': '' @ v)) (fe_headers e)
      in if slist = [] then [] else [CURLOPT_HTTPHEADER slist])"

fun run_header_cb :: "string list \<Rightarrow> header_buf \<Rightarrow> header_buf option" where
  "run_header_cb [] hb = Some hb"
| "run_header_cb (l # ls) hb =
     (case curl_header_cb l hb of None \<Rightarrow> None | Some (n, hb') \<Rightarrow> run_header_cb ls hb')"

fun run_write_cb :: "byte list list \<Rightarrow> curl_buf \<Rightarrow> curl_buf option" where
  "run_write_cb [] buf = Some buf"
| "run_write_cb (d # ds) buf =
     (case curl_write_cb d buf of None \<Rightarrow> None | Some (n, buf') \<Rightarrow> run_write_cb ds buf')"

text \<open>
  The thread up to and including \<^verbatim>\<open>entry->completed = 1\<close>.  \<open>curl opts = None\<close> is a failing
  \<^verbatim>\<open>curl_easy_init\<close>; \<open>None\<close> is a callback that left its buffer.
\<close>

definition fetch_worker_wrapper ::
    "(curl_opt list \<Rightarrow> curl_transfer option) \<Rightarrow> 'v fetch_entry \<Rightarrow> 'v fetch_entry option" where
  "fetch_worker_wrapper curl e =
     (case curl (curl_options e) of
        None \<Rightarrow> Some (e\<lparr>fe_is_error := True, fe_error_msg := Some ''fetch: curl_easy_init failed'',
                       fe_completed := True\<rparr>)
      | Some t \<Rightarrow>
          (case run_header_cb (ct_headers t) \<lparr>hb_headers = [], hb_cap = 0\<rparr> of
             None \<Rightarrow> None
           | Some hb \<Rightarrow>
               (case run_write_cb (ct_body t) \<lparr>cb_data = [], cb_cap = 0\<rparr> of
                  None \<Rightarrow> None
                | Some buf \<Rightarrow>
                    (case ct_end t of
                       Inl err \<Rightarrow>
                         Some (e\<lparr>fe_is_error := True,
                                 fe_error_msg := Some (snprintf 256 (''fetch error: '' @ err)),
                                 fe_completed := True\<rparr>)
                     | Inr status \<Rightarrow>
                         Some (e\<lparr>fe_status_code := status,
                                 fe_status_text := Some (snprintf 64 (dec_int status)),
                                 fe_response_body := cb_data buf,
                                 fe_response_headers := hb_headers hb,
                                 fe_completed := True\<rparr>)))))"

section \<open>The Response object\<close>

datatype header_value = HString string | HFunction string

record response_object =
  ro_ok :: bool
  ro_status :: int
  ro_statusText :: string
  ro_url :: string
  ro_headers :: "(string \<times> header_value) list"
  ro_body :: "byte list"

definition headers_object :: "header_pair list \<Rightarrow> (string \<times> header_value) list" where
  "headers_object hs =
     set_property
       (set_property (fold (\<lambda>(k, v) obj. set_property obj k (HString v)) hs []) ''get'' (HFunction ''get''))
       ''has'' (HFunction ''has'')"

definition build_response_object :: "'v fetch_entry \<Rightarrow> response_object" where
  "build_response_object e =
     \<lparr>ro_ok = (200 \<le> fe_status_code e \<and> fe_status_code e < 300),
      ro_status = fe_status_code e,
      ro_statusText = (case fe_status_text e of Some t \<Rightarrow> t | None \<Rightarrow> ''''),
      ro_url = fe_url e,
      ro_headers = headers_object (fe_response_headers e),
      ro_body = fe_response_body e\<rparr>"

text \<open>\<open>proto\<close> is what the prototype of the headers object answers for a name it has not itself.\<close>

definition get_property ::
    "(string \<Rightarrow> header_value option) \<Rightarrow> (string \<times> header_value) list \<Rightarrow> string \<Rightarrow> header_value option" where
  "get_property proto obj k = (case map_of obj k of Some v \<Rightarrow> Some v | None \<Rightarrow> proto k)"

definition js_headers_get ::
    "(string \<Rightarrow> header_value option) \<Rightarrow> 'v js_api \<Rightarrow> (string \<times> header_value) list \<Rightarrow> 'v list \<Rightarrow>
     js_result + header_value" where
  "js_headers_get proto api this argv =
     (case argv of
        [] \<Rightarrow> Inl JS_NULL
      | a # _ \<Rightarrow>
          (case js_cstring api a of
             None \<Rightarrow> Inl JS_EXCEPTION
           | Some key \<Rightarrow>
               (case get_property proto this (map to_lower key) of
                  None \<Rightarrow> Inl JS_NULL
                | Some v \<Rightarrow> Inr v)))"

definition js_headers_has ::
    "(string \<Rightarrow> header_value option) \<Rightarrow> 'v js_api \<Rightarrow> (string \<times> header_value) list \<Rightarrow> 'v list \<Rightarrow> js_result" where
  "js_headers_has proto api this argv =
     (case argv of
        [] \<Rightarrow> JS_NewBool False
      | a # _ \<Rightarrow>
          (case js_cstring api a of
             None \<Rightarrow> JS_EXCEPTION
           | Some key \<Rightarrow> JS_NewBool (get_property proto this (map to_lower key) \<noteq> None)))"

text \<open>
  \<open>body_val\<close> is the value of the property \<^verbatim>\<open>__body\<close>; \<open>parse_json\<close> is \<^verbatim>\<open>JS_ParseJSON\<close>.  The promise is
  settled before the function returns.
\<close>

definition js_resp_text :: "'v js_api \<Rightarrow> 'v \<Rightarrow> js_settled" where
  "js_resp_text api body_val =
     Resolved (JS_NewString (case js_cstring api body_val of Some body \<Rightarrow> body | None \<Rightarrow> ''''))"

definition js_resp_json :: "'v js_api \<Rightarrow> (string \<Rightarrow> 'v option) \<Rightarrow> 'v \<Rightarrow> js_settled + 'v" where
  "js_resp_json api parse_json body_val =
     (case js_cstring api body_val of
        Some body \<Rightarrow>
          (case parse_json body of
             None \<Rightarrow> Inl (Rejected (JS_NewString ''json parse error''))
           | Some v \<Rightarrow> Inr v)
      | None \<Rightarrow> Inl (Rejected (JS_NewString ''empty body'')))"

definition js_resp_array_buffer :: "'v js_api \<Rightarrow> 'v \<Rightarrow> js_settled" where
  "js_resp_array_buffer api body_val =
     Resolved (JS_NewArrayBufferCopy
       (case js_cstring_len api body_val of Some body \<Rightarrow> bytes_of body | None \<Rightarrow> []))"

section \<open>The manager\<close>

datatype settle_arg = SettleError string | SettleResponse response_object

type_synonym ('v, 'x) fetch_state = "'v fetch_manager \<times> 'x"

record ('v, 'x) fetch_env =
  fe_call :: "'v \<Rightarrow> settle_arg \<Rightarrow> ('v, 'x) fetch_state \<Rightarrow> ('v, 'x) fetch_state"
  fe_free :: "'v \<Rightarrow> 'x \<Rightarrow> 'x"
  fe_workers :: "('v, 'x) fetch_state \<Rightarrow> ('v, 'x) fetch_state"

text \<open>Which function of the promise is called and with what.\<close>

definition settle_of :: "'v fetch_entry \<Rightarrow> 'v \<times> settle_arg" where
  "settle_of e =
     (if fe_is_error e
      then (fe_reject e, SettleError (case fe_error_msg e of Some m \<Rightarrow> m | None \<Rightarrow> ''fetch error''))
      else (fe_resolve e, SettleResponse (build_response_object e)))"

text \<open>The loop from position \<open>i\<close>; \<open>settled\<close> lists the address, function and argument of each call.\<close>

partial_function (option) fm_scan ::
    "('v, 'x) fetch_env \<Rightarrow> nat \<Rightarrow> (nat \<times> 'v \<times> settle_arg) list \<Rightarrow> ('v, 'x) fetch_state \<Rightarrow>
     ((nat \<times> 'v \<times> settle_arg) list \<times> ('v, 'x) fetch_state) option" where
  "fm_scan env i settled s =
     (case fe_workers env s of (fm, x) \<Rightarrow>
      if length (fm_head fm) \<le> i then Some (settled, fm, x)
      else
        let e = fm_head fm ! i in
        if fe_completed e then
          (case settle_of e of (f, arg) \<Rightarrow>
           case fe_call env f arg (fm\<lparr>fm_head := remove_at i (fm_head fm)\<rparr>, x) of (fm2, x2) \<Rightarrow>
             fm_scan env 0 (settled @ [(fe_addr e, f, arg)])
               (fm2, fe_free env (fe_reject e) (fe_free env (fe_resolve e) x2)))
        else fm_scan env (Suc i) settled (fm, x))"

definition fm_process_pending ::
    "('v, 'x) fetch_env \<Rightarrow> ('v, 'x) fetch_state \<Rightarrow>
     ((nat \<times> 'v \<times> settle_arg) list \<times> ('v, 'x) fetch_state) option" where
  "fm_process_pending env s =
     (case s of (fm, x) \<Rightarrow>
      let s1 = (fm\<lparr>fm_pipe := 0\<rparr>, x) in
      if fm_head fm = [] then Some ([], s1) else fm_scan env 0 [] s1)"

definition fm_has_pending :: "'v fetch_manager \<Rightarrow> bool" where
  "fm_has_pending fm \<longleftrightarrow> fm_head fm \<noteq> []"

definition fm_free :: "('v, 'x) fetch_env \<Rightarrow> ('v, 'x) fetch_state \<Rightarrow> ('v, 'x) fetch_state" where
  "fm_free env s =
     (case s of (fm, x) \<Rightarrow>
      (fm\<lparr>fm_head := [], fm_pipe := 0\<rparr>,
       fold (\<lambda>e x. fe_free env (fe_reject e) (fe_free env (fe_resolve e) x)) (fm_head fm) x))"

section \<open>The native function fetch\<close>

definition fetch_method :: "'v js_api \<Rightarrow> 'v \<Rightarrow> string" where
  "fetch_method api opts =
     (let v = js_get_property api opts ''method'' in
      if \<not> js_is_undefined api v \<and> \<not> js_is_null api v then
        (case js_cstring api v of Some m \<Rightarrow> map to_upper m | None \<Rightarrow> ''GET'')
      else ''GET'')"

definition fetch_body :: "'v js_api \<Rightarrow> 'v \<Rightarrow> string option" where
  "fetch_body api opts =
     (let v = js_get_property api opts ''body'' in
      if \<not> js_is_undefined api v \<and> \<not> js_is_null api v then js_cstring api v else None)"

definition fetch_headers :: "'v js_api \<Rightarrow> 'v \<Rightarrow> header_pair list" where
  "fetch_headers api opts =
     (let v = js_get_property api opts ''headers'' in
      if js_is_object api v then
        (case js_own_names api v of
           None \<Rightarrow> []
         | Some names \<Rightarrow>
             List.map_filter
               (\<lambda>name. map_option (\<lambda>val. (c_str name, val)) (js_cstring api (js_get_property api v name)))
               names)
      else [])"

definition fetch_new_entry :: "'v js_api \<Rightarrow> nat \<Rightarrow> 'v \<Rightarrow> 'v \<Rightarrow> string \<Rightarrow> 'v list \<Rightarrow> 'v fetch_entry" where
  "fetch_new_entry api addr resolve reject url rest =
     (let opts = (case rest of o1 # _ \<Rightarrow> if js_is_object api o1 then Some o1 else None | [] \<Rightarrow> None)
      in \<lparr>fe_addr = addr, fe_resolve = resolve, fe_reject = reject, fe_url = url,
          fe_method = (case opts of Some o1 \<Rightarrow> fetch_method api o1 | None \<Rightarrow> ''GET''),
          fe_body = (case opts of Some o1 \<Rightarrow> fetch_body api o1 | None \<Rightarrow> None),
          fe_headers = (case opts of Some o1 \<Rightarrow> fetch_headers api o1 | None \<Rightarrow> []),
          fe_status_code = 0, fe_status_text = None, fe_response_body = [],
          fe_response_headers = [], fe_completed = False, fe_is_error = False,
          fe_error_msg = None\<rparr>)"

text \<open>
  \<open>cap\<close> is the promise and its two functions made by the engine; \<open>thread_ok\<close> says whether
  \<^verbatim>\<open>pthread_create\<close> starts the thread, a result the code does not look at.
\<close>

definition js_fetch ::
    "'v js_api \<Rightarrow> bool \<Rightarrow> 'v \<times> 'v \<times> 'v \<Rightarrow> bool \<Rightarrow> 'v list \<Rightarrow> 'v fetch_manager \<Rightarrow>
     (js_result + 'v) \<times> 'v fetch_manager" where
  "js_fetch api thread_ok cap fm_ptr argv fm =
     (case argv of
        [] \<Rightarrow> (Inl (JS_ThrowTypeError ''fetch requires at least 1 argument''), fm)
      | a # rest \<Rightarrow>
          if \<not> fm_ptr then (Inl (JS_ThrowTypeError ''fetch requires at least 1 argument''), fm)
          else
            case js_cstring api a of
              None \<Rightarrow> (Inl JS_EXCEPTION, fm)
            | Some url \<Rightarrow>
                (case cap of (promise, resolve, reject) \<Rightarrow>
                 let addr = fm_next fm
                 in (Inr promise,
                     fm\<lparr>fm_head := fetch_new_entry api addr resolve reject url rest # fm_head fm,
                        fm_threads := (if thread_ok then (addr, Transfer) # fm_threads fm else fm_threads fm),
                        fm_next := Suc addr\<rparr>)))"

section \<open>Worker steps\<close>

fun update_addr :: "nat \<Rightarrow> ('v fetch_entry \<Rightarrow> 'v fetch_entry) \<Rightarrow> 'v fetch_entry list \<Rightarrow> 'v fetch_entry list" where
  "update_addr a f [] = []"
| "update_addr a f (e # es) = (if fe_addr e = a then f e # es else e # update_addr a f es)"

text \<open>The two steps of the thread of the entry at \<open>a\<close> that other threads can see.\<close>

inductive worker_steps ::
    "(curl_opt list \<Rightarrow> curl_transfer option) \<Rightarrow> 'v fetch_manager \<Rightarrow> 'v fetch_manager \<Rightarrow> bool"
  for curl where
  workers_refl: "worker_steps curl fm fm"
| workers_complete:
    "worker_steps curl fm0 fm \<Longrightarrow> map_of (fm_threads fm) a = Some Transfer \<Longrightarrow>
     e \<in> set (fm_head fm) \<Longrightarrow> fe_addr e = a \<Longrightarrow> fetch_worker_wrapper curl e = Some e' \<Longrightarrow>
     worker_steps curl fm0
       (fm\<lparr>fm_head := update_addr a (\<lambda>_. e') (fm_head fm),
          fm_threads := AList.update a Notifying (fm_threads fm)\<rparr>)"
| workers_notify:
    "worker_steps curl fm0 fm \<Longrightarrow> map_of (fm_threads fm) a = Some Notifying \<Longrightarrow>
     worker_steps curl fm0
       (fm\<lparr>fm_pipe := Suc (fm_pipe fm), fm_threads := AList.update a Finished (fm_threads fm)\<rparr>)"

section \<open>Invariants\<close>

definition entry_ok :: "'v fetch_manager \<Rightarrow> 'v fetch_entry \<Rightarrow> bool" where
  "entry_ok fm e \<longleftrightarrow>
     fe_addr e < fm_next fm \<and>
     map_of (fm_threads fm) (fe_addr e) \<in>
       (if fe_completed e then {Some Notifying, Some Finished} else {None, Some Transfer})"

definition fm_inv :: "'v fetch_manager \<Rightarrow> bool" where
  "fm_inv fm \<longleftrightarrow>
     distinct (map fe_addr (fm_head fm)) \<and> (\<forall>e \<in> set (fm_head fm). entry_ok fm e) \<and>
     fst ` set (fm_threads fm) \<subseteq> {..<fm_next fm}"

text \<open>
  Every completed request of \<open>A\<close> that is still in the list will wake the event loop: its thread has
  yet to write to the pipe, or the pipe already holds a byte.
\<close>

definition awake_on :: "nat set \<Rightarrow> 'v fetch_manager \<Rightarrow> bool" where
  "awake_on A fm \<longleftrightarrow>
     (\<forall>e \<in> set (fm_head fm). fe_addr e \<in> A \<longrightarrow> fe_completed e \<longrightarrow>
        map_of (fm_threads fm) (fe_addr e) = Some Notifying \<or> 0 < fm_pipe fm)"

abbreviation awake :: "'v fetch_manager \<Rightarrow> bool" where
  "awake fm \<equiv> awake_on UNIV fm"

lemma awake_addrs: "awake_on (fe_addr ` set (fm_head fm)) fm \<longleftrightarrow> awake fm"
  by (simp add: awake_on_def)

lemma worker_result:
  "fetch_worker_wrapper curl e = Some e' \<Longrightarrow>
     fe_completed e' \<and> fe_addr e' = fe_addr e \<and> fe_resolve e' = fe_resolve e \<and> fe_reject e' = fe_reject e"
  by (auto simp: fetch_worker_wrapper_def split: option.splits sum.splits)

text \<open>How a request may change under the threads: not at all, or its transfer ends.\<close>

definition advanced :: "(curl_opt list \<Rightarrow> curl_transfer option) \<Rightarrow> 'v fetch_entry \<Rightarrow> 'v fetch_entry \<Rightarrow> bool" where
  "advanced curl e e' \<longleftrightarrow> e' = e \<or> \<not> fe_completed e \<and> fetch_worker_wrapper curl e = Some e'"

lemma advanced_refl [simp]: "advanced curl e e"
  by (simp add: advanced_def)

lemma advancedD:
  assumes "advanced curl e e'"
  shows "fe_addr e' = fe_addr e" and "fe_completed e \<Longrightarrow> e' = e"
  using assms worker_result [of curl e e'] by (auto simp: advanced_def)

lemma advanced_trans: "advanced curl a b \<Longrightarrow> advanced curl b c \<Longrightarrow> advanced curl a c"
  by (auto simp: advanced_def dest: worker_result)

lemma update_addr_map:
  "distinct (map fe_addr es) \<Longrightarrow> update_addr a f es = map (\<lambda>x. if fe_addr x = a then f x else x) es"
proof (induction es)
  case (Cons e es)
  have "map (\<lambda>x. if fe_addr x = a then f x else x) es = es" if "fe_addr e = a"
    using Cons.prems that by (intro map_idI) (auto intro: rev_image_eqI)
  with Cons show ?case by auto
qed simp

lemma entry_unique:
  assumes "fm_inv fm" "e \<in> set (fm_head fm)" "x \<in> set (fm_head fm)" "fe_addr x = fe_addr e"
  shows "x = e"
  using assms by (auto simp: fm_inv_def distinct_map inj_on_def)

lemma complete_step:
  assumes inv: "fm_inv fm" and t: "map_of (fm_threads fm) a = Some Transfer"
    and e: "e \<in> set (fm_head fm)" "fe_addr e = a" and w: "fetch_worker_wrapper curl e = Some e'"
    and fm': "fm' = fm\<lparr>fm_head := update_addr a (\<lambda>_. e') (fm_head fm),
      fm_threads := AList.update a Notifying (fm_threads fm)\<rparr>"
  shows "fm_inv fm' \<and> list_all2 (advanced curl) (fm_head fm) (fm_head fm') \<and> (awake_on A fm \<longrightarrow> awake_on A fm')"
proof -
  let ?f = "\<lambda>x. if fe_addr x = a then e' else x"
  have e': "fe_completed e'" "fe_addr e' = a" "advanced curl e e'"
  proof -
    have "\<not> fe_completed e" using inv e t by (auto simp: fm_inv_def entry_ok_def split: if_splits)
    then show "fe_completed e'" "fe_addr e' = a" "advanced curl e e'"
      using worker_result [OF w] w e(2) by (simp_all add: advanced_def)
  qed
  have h: "fm_head fm' = map ?f (fm_head fm)"
    using inv by (simp add: fm' fm_inv_def update_addr_map)
  have th: "map_of (fm_threads fm') = (map_of (fm_threads fm))(a \<mapsto> Notifying)"
    by (simp add: fm' update_conv')
  have pipe: "fm_pipe fm' = fm_pipe fm" by (simp add: fm')
  have adv: "advanced curl x (?f x)" if "x \<in> set (fm_head fm)" for x
    using entry_unique [OF inv e(1) that] e(2) e'(3) by auto
  have "map fe_addr (fm_head fm') = map fe_addr (fm_head fm)" using h e'(2) by simp
  moreover have "\<forall>x \<in> set (fm_head fm'). entry_ok fm' x"
    using inv h th e'(1,2) e by (auto simp: fm_inv_def entry_ok_def fm')
  moreover have "fst ` set (fm_threads fm') \<subseteq> {..<fm_next fm'}"
    using inv e by (auto simp: fm' fm_inv_def entry_ok_def dom_update simp flip: image_insert)
  ultimately have "fm_inv fm'" using inv by (simp add: fm_inv_def)
  moreover have "list_all2 (advanced curl) (fm_head fm) (fm_head fm')"
    using adv by (simp add: h list_all2_map2 list_all2_same)
  moreover have "awake_on A fm'" if "awake_on A fm"
    using that e'(2) pipe by (auto simp: awake_on_def h th)
  ultimately show ?thesis by blast
qed

lemma notify_step:
  assumes inv: "fm_inv fm" and t: "map_of (fm_threads fm) a = Some Notifying"
    and fm': "fm' = fm\<lparr>fm_pipe := Suc (fm_pipe fm), fm_threads := AList.update a Finished (fm_threads fm)\<rparr>"
  shows "fm_inv fm' \<and> awake_on A fm'"
proof -
  have th: "map_of (fm_threads fm') = (map_of (fm_threads fm))(a \<mapsto> Finished)"
    by (simp add: fm' update_conv')
  have "a < fm_next fm" using inv t by (auto simp: fm_inv_def dest!: map_of_SomeD)
  then have "fst ` set (fm_threads fm') \<subseteq> {..<fm_next fm'}"
    using inv by (auto simp: fm' fm_inv_def dom_update simp flip: image_insert)
  moreover have "\<forall>x \<in> set (fm_head fm'). entry_ok fm' x"
    using inv t th by (auto simp: fm' fm_inv_def entry_ok_def split: if_splits)
  ultimately show ?thesis using inv by (simp add: fm_inv_def awake_on_def fm')
qed

lemma workers_keep:
  assumes "worker_steps curl fm fm'" and "fm_inv fm"
  shows "fm_inv fm' \<and> list_all2 (advanced curl) (fm_head fm) (fm_head fm') \<and> fm_next fm' = fm_next fm \<and>
     (awake_on A fm \<longrightarrow> awake_on A fm')"
  using assms
proof (induction rule: worker_steps.induct)
  case (workers_refl fm)
  then show ?case by (simp add: list_all2_same)
next
  case (workers_complete fm0 fm a e e')
  then have IH: "fm_inv fm" "list_all2 (advanced curl) (fm_head fm0) (fm_head fm)" "awake_on A fm0 \<longrightarrow> awake_on A fm"
    "fm_next fm = fm_next fm0" by simp_all
  note s = complete_step [OF IH(1) workers_complete.hyps(2,3,4,5) refl, of A]
  with IH show ?case
    using list_all2_trans [of "advanced curl" "advanced curl" "advanced curl", OF advanced_trans IH(2)] by auto
next
  case (workers_notify fm0 fm a)
  then show ?case using notify_step [of fm a _ A] by simp
qed

lemma advanced_lists:
  assumes "list_all2 (advanced curl) es es'"
  shows "length es' = length es" and "map fe_addr es' = map fe_addr es"
    and "e \<in> set (drop i es) \<Longrightarrow> fe_completed e \<Longrightarrow> e \<in> set (drop i es')"
    and "e' \<in> set es' \<Longrightarrow> \<exists>e \<in> set es. advanced curl e e'"
    and "list_all2 (advanced curl) (filter (\<lambda>e. P (fe_addr e)) es) (filter (\<lambda>e. P (fe_addr e)) es')"
proof -
  show "length es' = length es" using assms by (simp add: list_all2_lengthD)
  show "map fe_addr es' = map fe_addr es"
    using assms by (induction rule: list_all2_induct) (auto dest: advancedD(1))
  show "e' \<in> set es' \<Longrightarrow> \<exists>e \<in> set es. advanced curl e e'"
    using assms by (metis in_set_conv_nth list_all2_conv_all_nth)
  show "list_all2 (advanced curl) (filter (\<lambda>e. P (fe_addr e)) es) (filter (\<lambda>e. P (fe_addr e)) es')"
    using assms by (induction rule: list_all2_induct) (auto dest: advancedD(1))
  have "list_all2 (advanced curl) (drop i es) (drop i es')" using assms by (rule list_all2_dropI)
  then show "e \<in> set (drop i es) \<Longrightarrow> fe_completed e \<Longrightarrow> e \<in> set (drop i es')"
    by (induction rule: list_all2_induct) (auto dest: advancedD(2))
qed

lemma advanced_lists_trans:
  "list_all2 (advanced curl) as bs \<Longrightarrow> list_all2 (advanced curl) bs cs \<Longrightarrow> list_all2 (advanced curl) as cs"
  by (rule list_all2_trans [OF advanced_trans])

section \<open>The pass\<close>

text \<open>
  What a scan from entry \<open>i\<close> on has done: it settled every entry that was completed there, only entries that are completed,
  each with its own result and once, and all the others are still in the list, in their order.
\<close>

definition settled_from ::
    "(curl_opt list \<Rightarrow> curl_transfer option) \<Rightarrow> 'v fetch_entry list \<Rightarrow> nat \<times> 'v \<times> settle_arg \<Rightarrow> bool" where
  "settled_from curl es s \<longleftrightarrow>
     (\<exists>e \<in> set es. \<exists>e'. advanced curl e e' \<and> fe_completed e' \<and> s = (fe_addr e', settle_of e'))"

abbreviation unsettled :: "(nat \<times> 'v \<times> settle_arg) list \<Rightarrow> 'v fetch_entry list \<Rightarrow> 'v fetch_entry list" where
  "unsettled ss es \<equiv> filter (\<lambda>e. fe_addr e \<notin> fst ` set ss) es"

definition fscan_post ::
    "(curl_opt list \<Rightarrow> curl_transfer option) \<Rightarrow>
     nat \<Rightarrow> 'v fetch_manager \<Rightarrow> (nat \<times> 'v \<times> settle_arg) list \<Rightarrow> 'v fetch_manager \<Rightarrow> bool" where
  "fscan_post curl i fm ss fm' \<longleftrightarrow>
     fm_inv fm' \<and> awake fm' \<and> fm_next fm' = fm_next fm \<and>
     distinct (map fst ss @ map fe_addr (fm_head fm')) \<and>
     fst ` set ss \<union> fe_addr ` set (fm_head fm') = fe_addr ` set (fm_head fm) \<and>
     (\<forall>e \<in> set (drop i (fm_head fm)). fe_completed e \<longrightarrow> (fe_addr e, settle_of e) \<in> set ss) \<and>
     (\<forall>s \<in> set ss. settled_from curl (fm_head fm) s) \<and>
     list_all2 (advanced curl) (unsettled ss (fm_head fm)) (fm_head fm')"

lemma settled_from_advanced:
  assumes "list_all2 (advanced curl) es es'" and "settled_from curl es' s"
  shows "settled_from curl es s"
  using assms(2) advanced_lists(4) [OF assms(1)] advanced_trans unfolding settled_from_def by metis

lemma settled_from_mono: "settled_from curl es s \<Longrightarrow> set es \<subseteq> set es' \<Longrightarrow> settled_from curl es' s"
  by (auto simp: settled_from_def)

text \<open>
  The interface between the manager and what runs beside it: the engine, which settles a promise
  without touching the list of requests, and the threads.
\<close>

locale fetch_engine =
  fixes curl :: "curl_opt list \<Rightarrow> curl_transfer option" and env :: "('v, 'x) fetch_env"
  assumes call_law: "fe_call env f arg (fm, x) = (fm', x') \<Longrightarrow> worker_steps curl fm fm'"
    and workers_law: "fe_workers env (fm, x) = (fm', x') \<Longrightarrow> worker_steps curl fm fm'"
begin

lemma fscan_post_skip:
  assumes adv: "list_all2 (advanced curl) (fm_head fm) (fm_head fm1)" and n: "fm_next fm1 = fm_next fm"
    and i: "i < length (fm_head fm1)" "\<not> fe_completed (fm_head fm1 ! i)"
    and post: "fscan_post curl (Suc i) fm1 ss fm'"
  shows "fscan_post curl i fm ss fm'"
proof -
  note l = advanced_lists [OF adv]
  have "fe_addr ` set (fm_head fm1) = fe_addr ` set (fm_head fm)" using l(2) by (metis list.set_map)
  moreover have "(fe_addr e, settle_of e) \<in> set ss" if "e \<in> set (drop i (fm_head fm))" "fe_completed e" for e
  proof -
    have "e \<in> set (drop i (fm_head fm1))" using l(3) that by blast
    then have "e \<in> set (drop (Suc i) (fm_head fm1))" using i that(2) by (auto simp flip: Cons_nth_drop_Suc)
    with post that(2) show ?thesis by (auto simp: fscan_post_def)
  qed
  moreover have "settled_from curl (fm_head fm) s" if "s \<in> set ss" for s
    using post that settled_from_advanced [OF adv] by (auto simp: fscan_post_def)
  moreover have "list_all2 (advanced curl) (unsettled ss (fm_head fm)) (fm_head fm')"
    using post advanced_lists_trans [OF l(5)] by (auto simp: fscan_post_def)
  ultimately show ?thesis using post n by (auto simp: fscan_post_def)
qed

lemma fm_inv_remove:
  assumes "fm_inv fm" and "i < length (fm_head fm)"
  shows "fm_inv (fm\<lparr>fm_head := remove_at i (fm_head fm)\<rparr>)"
proof -
  have "entry_ok (fm\<lparr>fm_head := es\<rparr>) = entry_ok fm" for es by (simp add: entry_ok_def fun_eq_iff)
  with assms set_remove_at [OF assms(2)] distinct_map_remove_at [of fe_addr "fm_head fm" i] show ?thesis
    unfolding fm_inv_def by auto
qed

lemma fscan_post_fire:
  assumes inv: "fm_inv fm" "fm_inv fm1"
    and adv: "list_all2 (advanced curl) (fm_head fm) (fm_head fm1)" and n: "fm_next fm1 = fm_next fm"
    and i: "i < length (fm_head fm1)" "fe_completed (fm_head fm1 ! i)"
    and fm2: "fm2 = fm1\<lparr>fm_head := remove_at i (fm_head fm1)\<rparr>"
    and adv2: "list_all2 (advanced curl) (fm_head fm2) (fm_head fm3)" and n3: "fm_next fm3 = fm_next fm2"
    and e: "e = fm_head fm1 ! i" and post: "fscan_post curl 0 fm3 ss fm'"
  shows "fscan_post curl i fm ((fe_addr e, settle_of e) # ss) fm'"
proof -
  note l = advanced_lists [OF adv] and l2 = advanced_lists [OF adv2]
  obtain p x q where pq: "fm_head fm1 = p @ x # q" "length p = i" "remove_at i (fm_head fm1) = p @ q"
    by (rule remove_at_split [OF i(1)])
  then have x: "x = e" using e by (simp add: nth_append)
  have h2: "fm_head fm2 = p @ q" using pq(3) fm2 by simp
  have a1: "fe_addr ` set (fm_head fm1) = fe_addr ` set (fm_head fm)" using l(2) by (metis list.set_map)
  have a3: "fe_addr ` set (fm_head fm3) = fe_addr ` set (p @ q)" using l2(2) h2 by (metis list.set_map)
  have fresh: "fe_addr e \<notin> fe_addr ` set (p @ q)" using inv(2) pq(1) x by (auto simp: fm_inv_def)
  have dist: "distinct (map fst ((fe_addr e, settle_of e) # ss) @ map fe_addr (fm_head fm'))"
    using post a3 fresh by (auto simp: fscan_post_def)
  have part: "fst ` set ((fe_addr e, settle_of e) # ss) \<union> fe_addr ` set (fm_head fm') = fe_addr ` set (fm_head fm)"
    using post a1 a3 pq(1) x by (auto simp: fscan_post_def)
  have done': "(fe_addr d, settle_of d) \<in> set ((fe_addr e, settle_of e) # ss)"
    if d: "d \<in> set (drop i (fm_head fm))" "fe_completed d" for d
  proof (cases "d = e")
    case False
    have "d \<in> set (drop i (fm_head fm1))" using l(3) d by blast
    then have "d \<in> set (drop 0 (fm_head fm2))" using False pq x h2 by auto
    then have "d \<in> set (drop 0 (fm_head fm3))" using l2(3) d(2) by blast
    with post d(2) show ?thesis by (auto simp: fscan_post_def)
  qed simp
  have from1: "settled_from curl (fm_head fm1) s" if "s \<in> set ((fe_addr e, settle_of e) # ss)" for s
  proof (cases "s \<in> set ss")
    case True
    then have "settled_from curl (fm_head fm2) s"
      using post settled_from_advanced [OF adv2] by (simp add: fscan_post_def)
    then show ?thesis using h2 pq(1) by (auto intro: settled_from_mono)
  next
    case False
    have "e \<in> set (fm_head fm1)" "fe_completed e" using i e by simp_all
    with False that show ?thesis unfolding settled_from_def by (intro bexI [of _ e] exI [of _ e]) auto
  qed
  let ?ss = "(fe_addr e, settle_of e) # ss"
  have other: "fe_addr d \<noteq> fe_addr e" if "d \<in> set p \<union> set q" for d using fresh that by (metis imageI set_append)
  have "unsettled ?ss (fm_head fm1) = unsettled ss (fm_head fm2)"
    unfolding pq(1) x h2 filter_append
    using other by (auto intro!: arg_cong2 [where f = append] filter_cong)
  moreover have "list_all2 (advanced curl) (unsettled ?ss (fm_head fm)) (unsettled ?ss (fm_head fm1))"
    "list_all2 (advanced curl) (unsettled ss (fm_head fm2)) (unsettled ss (fm_head fm3))"
    by (rule l(5) [where P = "\<lambda>a. a \<notin> fst ` set ?ss"], rule l2(5))
  moreover have "list_all2 (advanced curl) (unsettled ss (fm_head fm3)) (fm_head fm')"
    using post by (simp add: fscan_post_def)
  ultimately have "list_all2 (advanced curl) (unsettled ?ss (fm_head fm)) (fm_head fm')"
    by (metis advanced_lists_trans)
  moreover have "fm_inv fm'" "awake fm'" "fm_next fm' = fm_next fm"
    using post n n3 fm2 by (simp_all add: fscan_post_def)
  ultimately show ?thesis
    using dist part done' settled_from_advanced [OF adv from1] unfolding fscan_post_def by blast
qed

text \<open>The scan from \<open>i\<close> in the state \<open>fm\<close>, \<open>x\<close>, after the calls \<open>settled\<close>, returns as promised.\<close>

definition fscan_at :: "nat \<Rightarrow> (nat \<times> 'v \<times> settle_arg) list \<Rightarrow> 'v fetch_manager \<Rightarrow> 'x \<Rightarrow> bool" where
  "fscan_at i settled fm x \<longleftrightarrow>
     (\<exists>ss fm' x'. fm_scan env i settled (fm, x) = Some (settled @ ss, fm', x') \<and> fscan_post curl i fm ss fm')"

lemma fscan_at_stop:
  assumes w: "fe_workers env (fm, x) = (fm1, x1)" and inv1: "fm_inv fm1"
    and adv: "list_all2 (advanced curl) (fm_head fm) (fm_head fm1)" and n: "fm_next fm1 = fm_next fm"
    and aw: "awake fm1" and i: "length (fm_head fm1) \<le> i"
  shows "fscan_at i settled fm x"
proof -
  note l = advanced_lists [OF adv]
  have "fm_scan env i settled (fm, x) = Some (settled @ [], fm1, x1)"
    using i by (subst fm_scan.simps) (simp add: w)
  moreover have "fe_addr ` set (fm_head fm1) = fe_addr ` set (fm_head fm)" using l(2) by (metis list.set_map)
  ultimately show ?thesis
    unfolding fscan_at_def using inv1 n i l(1) aw
    by (intro exI [of _ "[]"] exI [of _ fm1] exI [of _ x1]) (auto simp: fscan_post_def fm_inv_def adv)
qed

lemma fscan_at_skip:
  assumes w: "fe_workers env (fm, x) = (fm1, x1)"
    and adv: "list_all2 (advanced curl) (fm_head fm) (fm_head fm1)" and n: "fm_next fm1 = fm_next fm"
    and i: "i < length (fm_head fm1)" "\<not> fe_completed (fm_head fm1 ! i)"
    and ok: "fscan_at (Suc i) settled fm1 x1"
  shows "fscan_at i settled fm x"
proof -
  have "fm_scan env i settled (fm, x) = fm_scan env (Suc i) settled (fm1, x1)"
    using i by (subst fm_scan.simps) (simp add: w)
  with ok fscan_post_skip [OF adv n i] show ?thesis unfolding fscan_at_def by auto
qed

lemma fscan_at_fire:
  assumes w: "fe_workers env (fm, x) = (fm1, x1)" and inv: "fm_inv fm" "fm_inv fm1"
    and adv: "list_all2 (advanced curl) (fm_head fm) (fm_head fm1)" and n: "fm_next fm1 = fm_next fm"
    and i: "i < length (fm_head fm1)" "fe_completed (fm_head fm1 ! i)"
    and ok: "\<And>settled fm3 x3. fm_inv fm3 \<Longrightarrow> length (fm_head fm3) < length (fm_head fm) \<Longrightarrow>
               fscan_at 0 settled fm3 x3"
  shows "fscan_at i settled fm x"
proof -
  let ?e = "fm_head fm1 ! i" and ?fm2 = "fm1\<lparr>fm_head := remove_at i (fm_head fm1)\<rparr>"
  obtain f arg where s: "settle_of ?e = (f, arg)" by fastforce
  obtain fm3 x3 where c: "fe_call env f arg (?fm2, x1) = (fm3, x3)" by fastforce
  have inv2: "fm_inv ?fm2" using inv(2) i(1) by (rule fm_inv_remove)
  from workers_keep [OF call_law [OF c] inv2, of "{}"]
  have inv3: "fm_inv fm3" and adv3: "list_all2 (advanced curl) (fm_head ?fm2) (fm_head fm3)"
    and n3: "fm_next fm3 = fm_next ?fm2" by simp_all
  have "length (fm_head fm3) < length (fm_head fm)"
    using advanced_lists(1) [OF adv3] advanced_lists(1) [OF adv] i(1) by (simp add: length_remove_at)
  from ok [OF inv3 this] obtain ss fm' x' where
    r: "fm_scan env 0 (settled @ [(fe_addr ?e, f, arg)])
          (fm3, fe_free env (fe_reject ?e) (fe_free env (fe_resolve ?e) x3)) =
        Some ((settled @ [(fe_addr ?e, f, arg)]) @ ss, fm', x')" "fscan_post curl 0 fm3 ss fm'"
    unfolding fscan_at_def by blast
  have "fm_scan env i settled (fm, x) = fm_scan env 0 (settled @ [(fe_addr ?e, f, arg)])
      (fm3, fe_free env (fe_reject ?e) (fe_free env (fe_resolve ?e) x3))"
    using i by (subst fm_scan.simps) (simp add: w s c Let_def)
  with r fscan_post_fire [OF inv adv n i refl adv3 n3 refl r(2)] s show ?thesis
    unfolding fscan_at_def by auto
qed

lemma fscan_spec:
  assumes "fm_inv fm" and "i \<le> length (fm_head fm)"
    and "awake_on (fe_addr ` set (take i (fm_head fm))) fm"
  shows "fscan_at i settled fm x"
  using assms
proof (induction "(i, fm)" arbitrary: i fm settled x rule: wf_induct_rule
    [OF wf_measures [of "[\<lambda>(i, fm). length (fm_head fm), \<lambda>(i, fm). length (fm_head fm) - i]"]])
  case 1
  note IH = "1.hyps" and inv = "1.prems"(1)
  obtain fm1 x1 where w: "fe_workers env (fm, x) = (fm1, x1)" by fastforce
  let ?A = "fe_addr ` set (take i (fm_head fm))"
  from workers_keep [OF workers_law [OF w] inv, of ?A] "1.prems"(3)
  have inv1: "fm_inv fm1" and adv: "list_all2 (advanced curl) (fm_head fm) (fm_head fm1)"
    and n: "fm_next fm1 = fm_next fm" and aw: "awake_on ?A fm1" by simp_all
  note l = advanced_lists [OF adv]
  have A: "?A = fe_addr ` set (take i (fm_head fm1))" using l(2) by (metis list.set_map take_map)
  consider (stop) "length (fm_head fm1) \<le> i"
    | (fire) "i < length (fm_head fm1)" "fe_completed (fm_head fm1 ! i)"
    | (skip) "i < length (fm_head fm1)" "\<not> fe_completed (fm_head fm1 ! i)" by linarith
  then show ?case
  proof cases
    case stop
    then have "awake fm1" using aw A awake_addrs [of fm1] by simp
    with w inv1 adv n show ?thesis using stop by (rule fscan_at_stop)
  next
    case skip
    have "awake_on (fe_addr ` set (take (Suc i) (fm_head fm1))) fm1"
      using aw skip A entry_unique [OF inv1 nth_mem [OF skip(1)]]
      by (fastforce simp: awake_on_def take_Suc_conv_app_nth)
    then have "fscan_at (Suc i) settled fm1 x1"
      using IH [of "Suc i" fm1] skip(1) inv1 l(1) by simp
    with w adv n skip show ?thesis by (rule fscan_at_skip)
  next
    case fire
    have "fscan_at 0 settled fm3 x3" if "fm_inv fm3" "length (fm_head fm3) < length (fm_head fm)" for settled fm3 x3
      using IH [of 0 fm3] that by (simp add: awake_on_def)
    with w inv inv1 adv n fire show ?thesis by (rule fscan_at_fire)
  qed
qed

lemma process_spec:
  assumes "fm_inv fm"
  shows "\<exists>ss fm' x'. fm_process_pending env (fm, x) = Some (ss, fm', x') \<and> fscan_post curl 0 fm ss fm'"
proof (cases "fm_head fm = []")
  case True
  then show ?thesis using assms by (auto simp: fm_process_pending_def fscan_post_def fm_inv_def awake_on_def)
next
  case False
  have "fm_inv (fm\<lparr>fm_pipe := 0\<rparr>)" using assms by (simp add: fm_inv_def entry_ok_def)
  then have "fscan_at 0 [] (fm\<lparr>fm_pipe := 0\<rparr>) x" by (rule fscan_spec) (simp_all add: awake_on_def)
  then show ?thesis using False by (simp add: fm_process_pending_def fscan_at_def fscan_post_def)
qed

end

text \<open>While the threads stand still, a pass settles exactly the completed requests, in the order of the list.\<close>

definition threads_stand_still :: "('v, 'x) fetch_env \<Rightarrow> bool" where
  "threads_stand_still env \<longleftrightarrow>
     (\<forall>fm x. fst (fe_workers env (fm, x)) = fm) \<and> (\<forall>f arg fm x. fst (fe_call env f arg (fm, x)) = fm)"

lemma scan_stand_still:
  assumes "threads_stand_still env" and "i \<le> length (fm_head fm)" and "\<not> list_ex fe_completed (take i (fm_head fm))"
  shows "\<exists>x'. fm_scan env i settled (fm, x) =
     Some (settled @ map (\<lambda>e. (fe_addr e, settle_of e)) (filter fe_completed (fm_head fm)),
       fm\<lparr>fm_head := filter (\<lambda>e. \<not> fe_completed e) (fm_head fm)\<rparr>, x')"
  using assms(2,3)
proof (induction "(i, fm)" arbitrary: i fm settled x rule: wf_induct_rule
    [OF wf_measures [of "[\<lambda>(i, fm). length (fm_head fm), \<lambda>(i, fm). length (fm_head fm) - i]"]])
  case 1
  note IH = "1.hyps"
  obtain x1 where w: "fe_workers env (fm, x) = (fm, x1)"
    using assms(1) unfolding threads_stand_still_def by (metis prod.collapse)
  consider (stop) "i = length (fm_head fm)" | (more) "i < length (fm_head fm)" using "1.prems"(1) by linarith
  then show ?case
  proof cases
    case stop
    then have "filter fe_completed (fm_head fm) = []" "filter (\<lambda>e. \<not> fe_completed e) (fm_head fm) = fm_head fm"
      using "1.prems"(2) by (simp_all add: list_ex_iff filter_empty_conv)
    then show ?thesis using stop by (subst fm_scan.simps) (simp add: w)
  next
    case more
    obtain p e q where pq: "fm_head fm = p @ e # q" "length p = i" "remove_at i (fm_head fm) = p @ q"
      by (rule remove_at_split [OF more])
    then have e: "fm_head fm ! i = e" by (simp add: nth_append)
    have none: "filter fe_completed p = []" using "1.prems"(2) pq by (simp add: list_ex_iff filter_empty_conv)
    show ?thesis
    proof (cases "fe_completed e")
      case True
      obtain f arg where s: "settle_of e = (f, arg)" by fastforce
      obtain x2 where c: "fe_call env f arg (fm\<lparr>fm_head := p @ q\<rparr>, x1) = (fm\<lparr>fm_head := p @ q\<rparr>, x2)"
        using assms(1) unfolding threads_stand_still_def by (metis prod.collapse)
      have "fm_scan env i settled (fm, x) = fm_scan env 0 (settled @ [(fe_addr e, f, arg)])
          (fm\<lparr>fm_head := p @ q\<rparr>, fe_free env (fe_reject e) (fe_free env (fe_resolve e) x2))"
        using more True by (subst fm_scan.simps) (simp add: w e s c pq(3) Let_def)
      with IH [of 0 "fm\<lparr>fm_head := p @ q\<rparr>" "settled @ [(fe_addr e, f, arg)]"
          "fe_free env (fe_reject e) (fe_free env (fe_resolve e) x2)"] show ?thesis using pq(1) none True s by simp
    next
      case False
      have "fm_scan env i settled (fm, x) = fm_scan env (Suc i) settled (fm, x1)"
        using more False by (subst fm_scan.simps) (simp add: w e)
      moreover have "\<not> list_ex fe_completed (take (Suc i) (fm_head fm))"
        using False none pq(1,2) by (auto simp: list_ex_iff filter_empty_conv)
      ultimately show ?thesis using IH [of "Suc i" fm] more by simp
    qed
  qed
qed

lemma process_stand_still:
  assumes "threads_stand_still env"
  shows "\<exists>x'. fm_process_pending env (fm, x) =
     Some (map (\<lambda>e. (fe_addr e, settle_of e)) (filter fe_completed (fm_head fm)),
       fm\<lparr>fm_pipe := 0, fm_head := filter (\<lambda>e. \<not> fe_completed e) (fm_head fm)\<rparr>, x')"
  using scan_stand_still [OF assms, of 0 "fm\<lparr>fm_pipe := 0\<rparr>" "[]" x] by (cases fm) (auto simp: fm_process_pending_def Let_def)

section \<open>Buffers\<close>

lemma curl_write_cb_appends:
  "\<exists>cap. curl_write_cb d buf = Some (length d, \<lparr>cb_data = cb_data buf @ d, cb_cap = cap\<rparr>)"
proof -
  have "0 < (if cb_cap buf = 0 then 4096 else cb_cap buf)" by simp
  from grow_cap_Some [OF this, of "length (cb_data buf) + length d + 1"] show ?thesis
    by (auto simp: curl_write_cb_def Let_def)
qed

lemma run_write_cb_concat: "\<exists>cap. run_write_cb ds buf = Some \<lparr>cb_data = cb_data buf @ concat ds, cb_cap = cap\<rparr>"
proof (induction ds arbitrary: buf)
  case Nil
  show ?case by (intro exI [of _ "cb_cap buf"]) simp
next
  case (Cons d ds)
  obtain cap where c: "curl_write_cb d buf = Some (length d, \<lparr>cb_data = cb_data buf @ d, cb_cap = cap\<rparr>)"
    using curl_write_cb_appends by blast
  from Cons [of "\<lparr>cb_data = cb_data buf @ d, cb_cap = cap\<rparr>"] c show ?case by simp
qed

text \<open>A header line as libcurl delivers it: key, colon, spaces, value, line end.\<close>

definition plain_value :: "string \<Rightarrow> bool" where
  "plain_value v \<longleftrightarrow>
     NUL \<notin> set v \<and> (v \<noteq> [] \<longrightarrow> hd v \<noteq> CHR '' '' \<and> last v \<noteq> CHR 0x0D \<and> last v \<noteq> CHR 0x0A)"

definition header_line :: "string \<Rightarrow> nat \<Rightarrow> string \<Rightarrow> string" where
  "header_line k n v = k @ '':'' @ replicate n CHR '' '' @ v @ [CHR 0x0D, CHR 0x0A]"

lemma trim_crlf_append:
  "plain_value v \<Longrightarrow> trim_crlf (v @ [CHR 0x0D, CHR 0x0A]) (length v) = length v"
  by (cases v rule: rev_cases) (auto simp: plain_value_def nth_append)

lemma trim_crlf_line:
  assumes "plain_value v"
  shows "trim_crlf (v @ [CHR 0x0D, CHR 0x0A]) (Suc (Suc (length v))) = length v"
  using trim_crlf_append [OF assms] by (simp add: nth_append)

lemma header_cap:
  "length hs \<le> cap \<Longrightarrow> length hs < (if cap \<le> length hs then (if cap = 0 then 16 else cap * 2) else cap)"
  by auto

lemma curl_header_cb_line:
  assumes "plain_value v" and "CHR '':'' \<notin> set k" and "NUL \<notin> set k"
    and "\<not> starts_with (header_line k n v) ''HTTP/''" and "length (hb_headers hb) \<le> hb_cap hb"
  shows "\<exists>cap. curl_header_cb (header_line k n v) hb =
     Some (length (header_line k n v), \<lparr>hb_headers = hb_headers hb @ [(map to_lower k, v)], hb_cap = cap\<rparr>) \<and>
     length (hb_headers hb) < cap"
proof -
  have colon: "strchr (header_line k n v) CHR '':'' = Some (length k)"
    using strchr_append [OF assms(2)] by (simp add: header_line_def)
  have rest: "drop (Suc (length k)) (header_line k n v) = replicate n CHR '' '' @ v @ [CHR 0x0D, CHR 0x0A]"
    "take (length k) (header_line k n v) = k"
    by (simp_all add: header_line_def)
  have "dropWhile (\<lambda>c. c = CHR '' '') (replicate n CHR '' '' @ x) = dropWhile (\<lambda>c. c = CHR '' '') x" for x
    by (induction n) auto
  then have dw: "dropWhile (\<lambda>c. c = CHR '' '') (replicate n CHR '' '' @ v @ [CHR 0x0D, CHR 0x0A]) = v @ [CHR 0x0D, CHR 0x0A]"
    using assms(1) by (cases v) (auto simp: plain_value_def)
  have len: "\<not> length (header_line k n v) \<le> 2" by (simp add: header_line_def)
  have v: "c_str v = v" using assms(1) by (auto simp: plain_value_def c_str_def takeWhile_eq_all_conv)
  show ?thesis
    unfolding curl_header_cb_def
    using assms(3,4) trim_crlf_line [OF assms(1)] header_cap [OF assms(5)]
    by (simp add: Let_def colon rest dw len v)
qed

lemma run_header_cb_append:
  "run_header_cb (a @ b) hb = (case run_header_cb a hb of None \<Rightarrow> None | Some hb' \<Rightarrow> run_header_cb b hb')"
  by (induction a arbitrary: hb) (auto split: option.splits)

definition line_ok :: "string \<times> nat \<times> string \<Rightarrow> bool" where
  "line_ok h = (case h of (k, n, v) \<Rightarrow>
     plain_value v \<and> CHR '':'' \<notin> set k \<and> NUL \<notin> set k \<and> \<not> starts_with (header_line k n v) ''HTTP/'')"

lemma run_header_cb_lines:
  assumes "list_all line_ok hs" and "length (hb_headers hb) \<le> hb_cap hb"
  shows "\<exists>cap. run_header_cb (map (\<lambda>(k, n, v). header_line k n v) hs) hb =
     Some \<lparr>hb_headers = hb_headers hb @ map (\<lambda>(k, n, v). (map to_lower k, v)) hs, hb_cap = cap\<rparr>"
  using assms
proof (induction hs arbitrary: hb)
  case Nil
  show ?case by (intro exI [of _ "hb_cap hb"]) simp
next
  case (Cons h hs)
  obtain k n v where h: "h = (k, n, v)" by (rule prod_cases3)
  then have "plain_value v" "CHR '':'' \<notin> set k" "NUL \<notin> set k" "\<not> starts_with (header_line k n v) ''HTTP/''"
    using Cons.prems(1) by (simp_all add: line_ok_def)
  from curl_header_cb_line [OF this Cons.prems(2)] obtain cap where
    c: "curl_header_cb (header_line k n v) hb = Some (length (header_line k n v),
      \<lparr>hb_headers = hb_headers hb @ [(map to_lower k, v)], hb_cap = cap\<rparr>)" "length (hb_headers hb) < cap"
    by blast
  from Cons.IH [of "\<lparr>hb_headers = hb_headers hb @ [(map to_lower k, v)], hb_cap = cap\<rparr>"] Cons.prems(1) c h
  show ?case by simp
qed

lemma map_of_headers_object:
  "map_of (headers_object hs) =
     (\<lambda>k. map_option HString (map_of (rev hs) k))(''get'' \<mapsto> HFunction ''get'', ''has'' \<mapsto> HFunction ''has'')"
proof -
  have "map_of (fold (\<lambda>(k, v) obj. set_property obj k (HString v)) hs obj) k =
      (case map_of (rev hs) k of Some v \<Rightarrow> Some (HString v) | None \<Rightarrow> map_of obj k)" for k obj
    by (induction hs arbitrary: obj)
      (auto simp: map_of_set_property map_add_def split: option.splits)
  then show ?thesis
    by (auto simp: headers_object_def map_of_set_property fun_eq_iff split: option.splits)
qed

lemma js_fetch_cases:
  obtains "snd (js_fetch api ok cap p argv fm) = fm"
  | e where "fe_addr e = fm_next fm" "\<not> fe_completed e"
    "snd (js_fetch api ok cap p argv fm) = fm\<lparr>fm_head := e # fm_head fm,
       fm_threads := (if ok then (fm_next fm, Transfer) # fm_threads fm else fm_threads fm),
       fm_next := Suc (fm_next fm)\<rparr>"
proof (cases "argv = [] \<or> \<not> p \<or> js_cstring api (hd argv) = None")
  case True
  then have "snd (js_fetch api ok cap p argv fm) = fm" by (cases argv) (auto simp: js_fetch_def)
  then show ?thesis by (rule that(1))
next
  case False
  then obtain a rest url where "argv = a # rest" "js_cstring api a = Some url" p by (cases argv) auto
  moreover obtain pr rs rj where "cap = (pr, rs, rj)" by (rule prod_cases3)
  ultimately show ?thesis
    by (intro that(2) [of "fetch_new_entry api (fm_next fm) rs rj url rest"])
      (simp_all add: js_fetch_def fetch_new_entry_def Let_def)
qed

lemma js_fetch_keeps:
  assumes "fm_inv fm"
  shows "fm_inv (snd (js_fetch api ok cap p argv fm)) \<and> (awake fm \<longrightarrow> awake (snd (js_fetch api ok cap p argv fm)))"
proof (rule js_fetch_cases [of api ok cap p argv fm])
  fix e
  let ?fm = "fm\<lparr>fm_head := e # fm_head fm,
       fm_threads := (if ok then (fm_next fm, Transfer) # fm_threads fm else fm_threads fm),
       fm_next := Suc (fm_next fm)\<rparr>"
  assume e: "fe_addr e = fm_next fm" "\<not> fe_completed e" and r: "snd (js_fetch api ok cap p argv fm) = ?fm"
  have th: "map_of (fm_threads ?fm) x = map_of (fm_threads fm) x" if "x \<noteq> fm_next fm" for x
    using that by simp
  have "fm_next fm \<notin> fst ` set (fm_threads fm)" using assms by (auto simp: fm_inv_def)
  then have fresh: "map_of (fm_threads fm) (fm_next fm) = None" by (simp add: map_of_eq_None_iff)
  have lt: "fe_addr x < fm_next fm" if "x \<in> set (fm_head fm)" for x
    using assms that by (simp add: fm_inv_def entry_ok_def)
  have "entry_ok ?fm x" if "x \<in> set (fm_head fm)" for x
    using assms that lt [OF that] th [of "fe_addr x"] unfolding fm_inv_def entry_ok_def by auto
  moreover have "entry_ok ?fm e" using e fresh by (simp add: entry_ok_def)
  moreover have "distinct (map fe_addr (fm_head ?fm))"
    using assms lt e by (force simp: fm_inv_def)
  moreover have "fst ` set (fm_threads ?fm) \<subseteq> {..<fm_next ?fm}"
    using assms by (auto simp: fm_inv_def less_Suc_eq)
  ultimately have "fm_inv ?fm" by (simp add: fm_inv_def)
  moreover have "awake ?fm" if "awake fm" using that e lt th unfolding awake_on_def by fastforce
  ultimately show ?thesis using r by simp
qed (use assms in simp)

text \<open>
  What a script does to the list of requests: it adds to it.  A request that is completed stays as it is, and an address that is
  not in the list any more does not come back.
\<close>

definition fm_grows :: "'v fetch_manager \<Rightarrow> 'v fetch_manager \<Rightarrow> bool" where
  "fm_grows fm fm' \<longleftrightarrow> fm_next fm \<le> fm_next fm' \<and>
     (\<forall>e \<in> set (fm_head fm). fe_completed e \<longrightarrow> e \<in> set (fm_head fm')) \<and>
     (\<forall>e \<in> set (fm_head fm'). fe_addr e < fm_next fm \<longrightarrow> fe_addr e \<in> fe_addr ` set (fm_head fm))"

lemma fm_grows_refl [simp]: "fm_grows fm fm"
  by (simp add: fm_grows_def)

lemma fm_grows_trans [trans]:
  assumes "fm_grows a b" and "fm_grows b c"
  shows "fm_grows a c"
proof -
  have "fe_addr e \<in> fe_addr ` set (fm_head a)" if "e \<in> set (fm_head c)" "fe_addr e < fm_next a" for e
  proof -
    have "fe_addr e \<in> fe_addr ` set (fm_head b)" using assms that by (auto simp: fm_grows_def)
    with assms(1) that(2) show ?thesis by (auto simp: fm_grows_def)
  qed
  with assms show ?thesis by (auto simp: fm_grows_def)
qed

lemma js_fetch_grows: "fm_grows fm (snd (js_fetch api ok cap p argv fm))"
  by (rule js_fetch_cases [of api ok cap p argv fm]) (auto simp: fm_grows_def)

lemma fetch_engineI:
  assumes "\<forall>f arg fm x. worker_steps curl fm (fst (fe_call env f arg (fm, x)))"
    and "\<forall>fm x. worker_steps curl fm (fst (fe_workers env (fm, x)))"
  shows "fetch_engine curl env"
  using assms by unfold_locales (metis fst_conv)+

text \<open>What the engine and the threads keep of the rest of the state, a pass keeps.\<close>

definition fetch_env_keeps :: "('x \<Rightarrow> bool) \<Rightarrow> ('v, 'x) fetch_env \<Rightarrow> bool" where
  "fetch_env_keeps Q env \<longleftrightarrow>
     (\<forall>v x. Q x \<longrightarrow> Q (fe_free env v x)) \<and> (\<forall>fm x. Q x \<longrightarrow> Q (snd (fe_workers env (fm, x)))) \<and>
     (\<forall>f arg fm x. Q x \<longrightarrow> Q (snd (fe_call env f arg (fm, x))))"

lemma fm_scan_keeps:
  assumes ret: "fm_scan env i settled s = Some r" and "fetch_env_keeps Q env" and "Q (snd s)"
  shows "Q (snd (snd r))"
proof -
  have "fetch_env_keeps Q env \<longrightarrow> Q (snd s) \<longrightarrow> Q (snd (snd r))"
  proof (rule fm_scan.raw_induct
      [where P = "\<lambda>env i settled s r. fetch_env_keeps Q env \<longrightarrow> Q (snd s) \<longrightarrow> Q (snd (snd r))", OF _ ret],
      intro impI, goal_cases)
    case (1 scan env i settled s r)
    note IH = 1(1) [rule_format, OF _ 1(3)] and k = 1(3)
    obtain fm x where w: "fe_workers env s = (fm, x)" by (rule prod.exhaust)
    have x: "Q x" using k 1(4) w unfolding fetch_env_keeps_def by (metis prod.collapse snd_conv)
    have free: "Q (fe_free env v y)" if "Q y" for v y
      using k that by (simp add: fetch_env_keeps_def)
    have call: "Q x2" if "fe_call env f arg (fm1, x1) = (fm2, x2)" "Q x1" for f arg fm1 x1 fm2 x2
      using k that unfolding fetch_env_keeps_def by (metis snd_conv)
    consider (stop) "length (fm_head fm) \<le> i" | (fire) "i < length (fm_head fm)" "fe_completed (fm_head fm ! i)"
      | (wait) "i < length (fm_head fm)" "\<not> fe_completed (fm_head fm ! i)" by linarith
    then show ?case
    proof cases
      case stop
      with 1(2) x show ?thesis by (auto simp: w)
    next
      case fire
      then obtain f arg fm2 x2 set1 where c: "fe_call env f arg (fm\<lparr>fm_head := remove_at i (fm_head fm)\<rparr>, x) = (fm2, x2)"
        "scan env 0 set1 (fm2, fe_free env (fe_reject (fm_head fm ! i)) (fe_free env (fe_resolve (fm_head fm ! i)) x2)) = Some r"
        using 1(2) by (auto simp: w Let_def split: prod.splits)
      from IH [OF c(2)] call [OF c(1) x] free show ?thesis by simp
    next
      case wait
      with 1(2) x show ?thesis by (auto simp: w Let_def dest!: IH)
    qed
  qed
  with assms show ?thesis by blast
qed

lemma fm_process_pending_keeps:
  "fm_process_pending env (fm, x) = Some (settled, fm', x') \<Longrightarrow> fetch_env_keeps Q env \<Longrightarrow> Q x \<Longrightarrow> Q x'"
  unfolding fm_process_pending_def by (auto simp: Let_def split: if_splits dest: fm_scan_keeps [where Q = Q])

section \<open>Correctness\<close>

text \<open>
  A successful transfer is stored unchanged: whatever the sizes of the pieces libcurl
  delivers, the body is their concatenation and no copy leaves its buffer; every header line gives the
  pair of the lower-cased key and the value without its leading spaces and line end, in order, and
  the status line and the empty line give none.
\<close>

theorem fetch_worker_collects_response:
  assumes "curl (curl_options e) = Some \<lparr>ct_headers =
       (''HTTP/'' @ line) # map (\<lambda>(k, n, v). header_line k n v) hs @ [[CHR 0x0D, CHR 0x0A]],
       ct_body = pieces, ct_end = Inr status\<rparr>"
    and "list_all line_ok hs"
  shows "fetch_worker_wrapper curl e = Some (e\<lparr>fe_status_code := status,
     fe_status_text := Some (snprintf 64 (dec_int status)),
     fe_response_body := concat pieces,
     fe_response_headers := map (\<lambda>(k, n, v). (map to_lower k, v)) hs, fe_completed := True\<rparr>)"
proof -
  let ?hb = "\<lparr>hb_headers = [], hb_cap = 0\<rparr> :: header_buf"
  have first: "curl_header_cb (''HTTP/'' @ line) ?hb = Some (length (''HTTP/'' @ line), ?hb)"
    by (simp add: curl_header_cb_def)
  obtain cap where "run_header_cb (map (\<lambda>(k, n, v). header_line k n v) hs) ?hb =
      Some \<lparr>hb_headers = map (\<lambda>(k, n, v). (map to_lower k, v)) hs, hb_cap = cap\<rparr>"
    using run_header_cb_lines [OF assms(2), of ?hb] by auto
  then have "run_header_cb ((''HTTP/'' @ line) # map (\<lambda>(k, n, v). header_line k n v) hs @ [[CHR 0x0D, CHR 0x0A]]) ?hb =
      Some \<lparr>hb_headers = map (\<lambda>(k, n, v). (map to_lower k, v)) hs, hb_cap = cap\<rparr>"
    using first by (simp add: run_header_cb_append curl_header_cb_def)
  moreover obtain cap' where "run_write_cb pieces \<lparr>cb_data = [], cb_cap = 0\<rparr> =
      Some \<lparr>cb_data = concat pieces, cb_cap = cap'\<rparr>"
    using run_write_cb_concat [of pieces "\<lparr>cb_data = [], cb_cap = 0\<rparr>"] by auto
  ultimately show ?thesis by (simp add: fetch_worker_wrapper_def assms(1) del: append_Cons)
qed

text \<open>
  Property C30.  A pass of \<^verbatim>\<open>fm_process_pending\<close> returns, whatever the threads do meanwhile, as long as
  settling a promise does not change the list of requests itself.  Every request that was completed at
  its start is settled with its own result.  Nothing else is settled but requests whose transfer ends during the pass: each
  settled promise belongs to a request of the list that is completed, and it is rejected with the message its thread stored in case of an
  error and resolved with the response otherwise; none is settled twice.
  Every other request stays in the list, in its place and as its thread left it.  While the threads stand still, exactly the
  completed requests are settled, in the order of the list, and exactly the others are kept.
\<close>

theorem fm_process_pending_settles:
  fixes env :: "('v, 'x) fetch_env"
  assumes "fm_inv fm"
    and "\<forall>f arg fm x. worker_steps curl fm (fst (fe_call env f arg (fm, x)))"
    and "\<forall>fm x. worker_steps curl fm (fst (fe_workers env (fm, x)))"
  shows "\<exists>ss fm' x'. fm_process_pending env (fm, x) = Some (ss, fm', x') \<and> fm_inv fm' \<and>
     (\<forall>e \<in> set (fm_head fm). fe_completed e \<longrightarrow> (fe_addr e, settle_of e) \<in> set ss) \<and>
     (\<forall>s \<in> set ss. \<exists>e \<in> set (fm_head fm). \<exists>e'. fe_completed e' \<and> s = (fe_addr e', settle_of e') \<and>
        (e' = e \<or> \<not> fe_completed e \<and> fetch_worker_wrapper curl e = Some e') \<and>
        snd s = (if fe_is_error e' then (fe_reject e, SettleError (case fe_error_msg e' of Some m \<Rightarrow> m | None \<Rightarrow> ''fetch error''))
                 else (fe_resolve e, SettleResponse (build_response_object e')))) \<and>
     distinct (map fst ss) \<and>
     list_all2 (\<lambda>e e'. e' = e \<or> \<not> fe_completed e \<and> fetch_worker_wrapper curl e = Some e')
       (filter (\<lambda>e. fe_addr e \<notin> fst ` set ss) (fm_head fm)) (fm_head fm') \<and>
     fst ` set ss \<inter> fe_addr ` set (fm_head fm') = {} \<and>
     fst ` set ss \<union> fe_addr ` set (fm_head fm') = fe_addr ` set (fm_head fm) \<and>
     (threads_stand_still env \<longrightarrow>
        ss = map (\<lambda>e. (fe_addr e, settle_of e)) (filter fe_completed (fm_head fm)) \<and>
        fm' = fm\<lparr>fm_pipe := 0, fm_head := filter (\<lambda>e. \<not> fe_completed e) (fm_head fm)\<rparr>)"
proof -
  have "fetch_engine curl env" using assms(2,3) by (rule fetch_engineI)
  from fetch_engine.process_spec [OF this assms(1), of x] obtain ss fm' x' where
    p: "fm_process_pending env (fm, x) = Some (ss, fm', x')" and post: "fscan_post curl 0 fm ss fm'" by blast
  have "\<exists>e \<in> set (fm_head fm). \<exists>e'. fe_completed e' \<and> s = (fe_addr e', settle_of e') \<and>
      (e' = e \<or> \<not> fe_completed e \<and> fetch_worker_wrapper curl e = Some e') \<and>
      snd s = (if fe_is_error e' then (fe_reject e, SettleError (case fe_error_msg e' of Some m \<Rightarrow> m | None \<Rightarrow> ''fetch error''))
               else (fe_resolve e, SettleResponse (build_response_object e')))" if "s \<in> set ss" for s
  proof -
    from post that obtain e e' where e: "e \<in> set (fm_head fm)" "advanced curl e e'" "fe_completed e'" "s = (fe_addr e', settle_of e')"
      unfolding fscan_post_def settled_from_def by blast
    have "fe_resolve e' = fe_resolve e" "fe_reject e' = fe_reject e"
      using e(2) worker_result [of curl e e'] by (auto simp: advanced_def)
    with e show ?thesis unfolding advanced_def by (intro bexI [of _ e] exI [of _ e']) (auto simp: settle_of_def)
  qed
  moreover have "distinct (map fst ss) \<and> fst ` set ss \<inter> fe_addr ` set (fm_head fm') = {}"
    using post unfolding fscan_post_def by simp
  moreover have "ss = map (\<lambda>e. (fe_addr e, settle_of e)) (filter fe_completed (fm_head fm)) \<and>
      fm' = fm\<lparr>fm_pipe := 0, fm_head := filter (\<lambda>e. \<not> fe_completed e) (fm_head fm)\<rparr>" if "threads_stand_still env"
    using process_stand_still [OF that, of fm x] p by auto
  ultimately show ?thesis using p post
    by (intro exI [of _ ss] exI [of _ fm'] exI [of _ x']) (simp add: fscan_post_def advanced_def [abs_def])
qed

text \<open>
  \<^verbatim>\<open>headers.get\<close> of a response ignores the case of the name and returns the last value the
  server sent for it; the names \<^verbatim>\<open>get\<close> and \<^verbatim>\<open>has\<close> always give the methods, whatever the server sent.
\<close>

theorem response_headers_get:
  assumes "js_cstring api a = Some key" and "map to_lower key = k" and "proto k = None"
  shows "js_headers_get proto api (ro_headers (build_response_object e)) [a] =
     (if k = ''get'' then Inr (HFunction ''get'') else if k = ''has'' then Inr (HFunction ''has'')
      else case map_of (rev (fe_response_headers e)) k of Some v \<Rightarrow> Inr (HString v) | None \<Rightarrow> Inl JS_NULL)"
  using assms
  by (simp add: js_headers_get_def get_property_def build_response_object_def map_of_headers_object
      split: option.splits)

section \<open>Witnesses\<close>

text \<open>A server that answers every request, threads that stand still and promises that are only recorded.\<close>

definition ex_curl :: "curl_opt list \<Rightarrow> curl_transfer option" where
  "ex_curl opts = Some \<lparr>ct_headers = [''HTTP/1.1 200 OK'', header_line ''Content-Type'' 1 ''text/plain'',
     [CHR 0x0D, CHR 0x0A]], ct_body = [[72], [105]], ct_end = Inr 200\<rparr>"

definition ex_fenv :: "(string, string list) fetch_env" where
  "ex_fenv = \<lparr>fe_call = \<lambda>f arg (fm, x). (fm, x @ [f]), fe_free = \<lambda>v x. x, fe_workers = \<lambda>s. s\<rparr>"

definition ex_fetch_api :: "string js_api" where
  "ex_fetch_api = \<lparr>js_cstring_len = Some, js_array_buffer = \<lambda>_. None, js_int32 = \<lambda>_. 0, js_int64 = \<lambda>_. 0,
     js_is_object = \<lambda>_. False, js_is_undefined = \<lambda>_. False, js_is_null = \<lambda>_. False,
     js_get_property = \<lambda>v _. v, js_own_names = \<lambda>_. None\<rparr>"

definition ex_entry :: "string fetch_entry" where
  "ex_entry = fetch_new_entry ex_fetch_api 1 ''res'' ''rej'' ''http://h/'' []"

definition ex_fm :: "string fetch_manager" where
  "ex_fm = \<lparr>fm_head = [ex_entry\<lparr>fe_status_code := 200, fe_completed := True\<rparr>], fm_counter = 0, fm_pipe = 1,
     fm_threads = [(1, Finished)], fm_next = 2\<rparr>"

theorem fetch_worker_collects_response_witness:
  "map_option fe_response_headers (fetch_worker_wrapper ex_curl ex_entry) =
     Some [(''content-type'', ''text/plain'')]"
proof -
  have c: "ex_curl (curl_options ex_entry) = Some \<lparr>ct_headers = (''HTTP/'' @ ''1.1 200 OK'') #
      map (\<lambda>(k, n, v). header_line k n v) [(''Content-Type'', 1, ''text/plain'')] @ [[CHR 0x0D, CHR 0x0A]],
      ct_body = [[72], [105]], ct_end = Inr 200\<rparr>" by (simp add: ex_curl_def)
  have l: "list_all line_ok [(''Content-Type'', 1, ''text/plain'')]" by code_simp
  have "map to_lower ''Content-Type'' = ''content-type''" by code_simp
  with fetch_worker_collects_response [where curl = ex_curl and e = ex_entry and line = "''1.1 200 OK''"
      and hs = "[(''Content-Type'', 1, ''text/plain'')]", OF c l]
  show ?thesis by simp
qed

text \<open>Two requests: the transfer of the first never ends, the second is completed.\<close>

definition ex_fm_two :: "string fetch_manager" where
  "ex_fm_two = ex_fm\<lparr>fm_head := ex_entry\<lparr>fe_addr := 2\<rparr> # fm_head ex_fm, fm_threads := (2, Transfer) # fm_threads ex_fm, fm_next := 3\<rparr>"

theorem fm_process_pending_settles_witness:
  "\<exists>ss fm' x' arg. fm_process_pending ex_fenv (ex_fm_two, []) = Some (ss, fm', x') \<and>
     ss = [(1, ''res'', arg)] \<and> fm_head fm' = [ex_entry\<lparr>fe_addr := 2\<rparr>]"
proof -
  let ?c = "ex_entry\<lparr>fe_status_code := 200, fe_completed := True\<rparr>" and ?p = "ex_entry\<lparr>fe_addr := 2\<rparr>"
  have h: "fm_head ex_fm_two = [?p, ?c]" by (simp add: ex_fm_two_def ex_fm_def)
  have a: "fe_addr ?c = 1" "\<not> fe_completed ?p" "settle_of ?c = (''res'', SettleResponse (build_response_object ?c))"
    by (simp_all add: settle_of_def ex_entry_def fetch_new_entry_def Let_def)
  have inv: "fm_inv ex_fm_two"
    by (simp add: fm_inv_def ex_fm_two_def ex_fm_def ex_entry_def fetch_new_entry_def entry_ok_def Let_def)
  have laws: "\<forall>f arg fm x. worker_steps ex_curl fm (fst (fe_call ex_fenv f arg (fm, x)))"
    "\<forall>fm x. worker_steps ex_curl fm (fst (fe_workers ex_fenv (fm, x)))" and still: "threads_stand_still ex_fenv"
    by (simp_all add: ex_fenv_def workers_refl threads_stand_still_def)
  obtain ss fm' x' where r: "fm_process_pending ex_fenv (ex_fm_two, []) = Some (ss, fm', x')"
    "threads_stand_still ex_fenv \<longrightarrow> ss = map (\<lambda>e. (fe_addr e, settle_of e)) (filter fe_completed (fm_head ex_fm_two)) \<and>
       fm' = ex_fm_two\<lparr>fm_pipe := 0, fm_head := filter (\<lambda>e. \<not> fe_completed e) (fm_head ex_fm_two)\<rparr>"
    using fm_process_pending_settles [where x = "[]", OF inv laws] by (elim exE conjE) (rule that)
  from r(2) still have "ss = [(1, ''res'', SettleResponse (build_response_object ?c))]" "fm_head fm' = [?p]"
    using a by (simp_all add: h)
  with r(1) show ?thesis by blast
qed

theorem response_headers_get_witness:
  "js_headers_get (\<lambda>_. None) ex_fetch_api (ro_headers (build_response_object
     (ex_entry\<lparr>fe_response_headers := [(''etag'', ''x'')]\<rparr>))) [''ETag''] = Inr (HString ''x'')"
proof -
  have "js_cstring ex_fetch_api ''ETag'' = Some ''ETag''" "map to_lower ''ETag'' = ''etag''" by code_simp+
  from response_headers_get [of ex_fetch_api "''ETag''", OF this, of "\<lambda>_. None"
      "ex_entry\<lparr>fe_response_headers := [(''etag'', ''x'')]\<rparr>"]
  show ?thesis by simp
qed

end
