(* ===== verification/Crypto.thy ===== *)
theory Crypto
  imports Encoding
begin

text \<open>
  The crypto object of \<^verbatim>\<open>src/polyfill/crypto.c\<close>.  mbedTLS and its PSA interface are a parameter: the
  record \<open>psa_api\<close> says what each call returns.  The state holds the flag \<^verbatim>\<open>g_psa_initialized\<close> and the
  list of keys that live in the key store, so that a path that forgets to destroy its key is visible.
\<close>

section \<open>The library\<close>

datatype psa_alg = PSA_ALG_CBC_NO_PADDING | PSA_ALG_ECB_NO_PADDING | PSA_ALG_RSA_PKCS1V15_CRYPT

text \<open>
  Failure is \<open>None\<close>, or \<open>Inl\<close> with the code where the code prints it.  \<open>'op\<close> is a cipher operation and
  \<open>'pk\<close> a parsed public key.
\<close>

record ('op, 'pk) psa_api =
  psa_crypto_init :: bool
  md_md5 :: "(byte list \<Rightarrow> byte list option) option"
  psa_generate_random :: "nat \<Rightarrow> byte list option"
  psa_import_key :: "psa_alg \<Rightarrow> byte list \<Rightarrow> nat option"
  psa_cipher_encrypt_setup :: "nat \<Rightarrow> psa_alg \<Rightarrow> 'op option"
  psa_cipher_set_iv :: "'op \<Rightarrow> byte list \<Rightarrow> 'op option"
  psa_cipher_update :: "'op \<Rightarrow> byte list \<Rightarrow> (byte list \<times> 'op) option"
  psa_cipher_finish :: "'op \<Rightarrow> byte list option"
  pk_parse_public_key :: "string \<Rightarrow> int + 'pk"
  pk_get_psa_attributes :: "'pk \<Rightarrow> int"
  pk_import_into_psa :: "'pk \<Rightarrow> psa_alg \<Rightarrow> int + nat"
  psa_key_bits :: "nat \<Rightarrow> nat"
  psa_asymmetric_encrypt :: "nat \<Rightarrow> psa_alg \<Rightarrow> byte list \<Rightarrow> nat \<Rightarrow> int + byte list"
  mbedtls_strerror :: "int \<Rightarrow> string"

record crypto_state =
  g_psa_initialized :: bool
  psa_keys :: "nat list"

definition ensure_psa_init :: "('op, 'pk) psa_api \<Rightarrow> crypto_state \<Rightarrow> crypto_state" where
  "ensure_psa_init psa s =
     (if \<not> g_psa_initialized s \<and> psa_crypto_init psa then s\<lparr>g_psa_initialized := True\<rparr> else s)"

definition store_key :: "nat \<Rightarrow> crypto_state \<Rightarrow> crypto_state" where
  "store_key k s = s\<lparr>psa_keys := k # psa_keys s\<rparr>"

definition psa_destroy_key :: "nat \<Rightarrow> crypto_state \<Rightarrow> crypto_state" where
  "psa_destroy_key k s = s\<lparr>psa_keys := remove1 k (psa_keys s)\<rparr>"

section \<open>Arguments\<close>

text \<open>The copy of the bytes, or \<open>None\<close> for a null pointer, with the length reported beside it.\<close>

definition get_bytes_from_value ::
    "(nat \<Rightarrow> bool) \<Rightarrow> 'v js_api \<Rightarrow> 'v \<Rightarrow> byte list option \<times> nat" where
  "get_bytes_from_value malloc_ok api v =
     (case js_array_buffer api v of
        Some ab \<Rightarrow> (if malloc_ok (length ab) then Some ab else None, length ab)
      | None \<Rightarrow>
          (case js_cstring api v of
             None \<Rightarrow> (None, 0)
           | Some str \<Rightarrow> (if malloc_ok (length str) then Some (bytes_of str) else None, length str)))"

section \<open>Digest and random bytes\<close>

text \<open>\<open>None\<close> is the call of the digest function on a null pointer with a length above 0.\<close>

definition js_crypto_md5 ::
    "(nat \<Rightarrow> bool) \<Rightarrow> ('op, 'pk) psa_api \<Rightarrow> 'v js_api \<Rightarrow> 'v list \<Rightarrow> js_result option" where
  "js_crypto_md5 malloc_ok psa api argv =
     (case argv of
        [] \<Rightarrow> Some (JS_ThrowTypeError ''crypto.md5 requires 1 argument'')
      | a # _ \<Rightarrow>
          (let (data, data_len) = get_bytes_from_value malloc_ok api a in
           case md_md5 psa of
             None \<Rightarrow> Some (JS_ThrowTypeError ''crypto.md5: MD5 not available'')
           | Some md \<Rightarrow>
               (case (if data = None \<and> data_len = 0 then Some [] else data) of
                  None \<Rightarrow> None
                | Some bytes \<Rightarrow>
                    (case md bytes of
                       None \<Rightarrow> Some (JS_ThrowTypeError ''crypto.md5: hash failed'')
                     | Some hash \<Rightarrow>
                         (case hex_encode malloc_ok hash of
                            Some hex_str \<Rightarrow> Some (JS_NewString hex_str)
                          | None \<Rightarrow> Some (JS_NewString ''''))))))"

definition js_crypto_random_bytes ::
    "(nat \<Rightarrow> bool) \<Rightarrow> ('op, 'pk) psa_api \<Rightarrow> 'v js_api \<Rightarrow> 'v list \<Rightarrow> crypto_state \<Rightarrow>
     js_result \<times> crypto_state" where
  "js_crypto_random_bytes malloc_ok psa api argv s =
     (case argv of
        [] \<Rightarrow> (JS_ThrowTypeError ''crypto.randomBytes requires 1 argument'', s)
      | a # _ \<Rightarrow>
          (let s1 = ensure_psa_init psa s; size = js_int32 api a in
           if size \<le> 0 then (JS_NewArrayBufferCopy [], s1)
           else if \<not> malloc_ok (nat size) then
             (JS_ThrowTypeError ''crypto.randomBytes: allocation failed'', s1)
           else
             case psa_generate_random psa (nat size) of
               None \<Rightarrow> (JS_ThrowTypeError ''crypto.randomBytes: psa_generate_random failed'', s1)
             | Some buf \<Rightarrow> (JS_NewArrayBufferCopy buf, s1)))"

section \<open>AES\<close>

definition mode_lower :: "string \<Rightarrow> string" where
  "mode_lower mode_str = map to_lower (take 15 mode_str)"

definition pkcs7_pad :: "byte list \<Rightarrow> byte list" where
  "pkcs7_pad plaintext =
     (let padding = 16 - length plaintext mod 16 in plaintext @ replicate padding (word_of_nat padding))"

definition aes_alg :: "string \<Rightarrow> psa_alg option" where
  "aes_alg mode =
     (if mode = ''cbc'' then Some PSA_ALG_CBC_NO_PADDING
      else if mode = ''ecb'' then Some PSA_ALG_ECB_NO_PADDING
      else None)"

text \<open>From the imported key to the result: every way out destroys the key.\<close>

definition aes_run ::
    "(nat \<Rightarrow> bool) \<Rightarrow> ('op, 'pk) psa_api \<Rightarrow> psa_alg \<Rightarrow> byte list \<Rightarrow> byte list \<Rightarrow> nat \<Rightarrow> crypto_state \<Rightarrow>
     js_result \<times> crypto_state" where
  "aes_run malloc_ok psa alg padded iv key_id s =
     (if \<not> malloc_ok (length padded + 16) then
        (JS_ThrowTypeError ''crypto.aesEncrypt: allocation failed'', psa_destroy_key key_id s)
      else
        case psa_cipher_encrypt_setup psa key_id alg of
          None \<Rightarrow> (JS_ThrowTypeError ''crypto.aesEncrypt: setup failed'', psa_destroy_key key_id s)
        | Some op0 \<Rightarrow>
            (case (if alg = PSA_ALG_CBC_NO_PADDING then psa_cipher_set_iv psa op0 (take 16 iv) else Some op0) of
               None \<Rightarrow> (JS_ThrowTypeError ''crypto.aesEncrypt: set IV failed'', psa_destroy_key key_id s)
             | Some op1 \<Rightarrow>
                 (case psa_cipher_update psa op1 padded of
                    None \<Rightarrow> (JS_ThrowTypeError ''crypto.aesEncrypt: encrypt failed'', psa_destroy_key key_id s)
                  | Some (out1, op2) \<Rightarrow>
                      (case psa_cipher_finish psa op2 of
                         None \<Rightarrow> (JS_ThrowTypeError ''crypto.aesEncrypt: finish failed'', psa_destroy_key key_id s)
                       | Some out2 \<Rightarrow> (JS_NewArrayBufferCopy (out1 @ out2), psa_destroy_key key_id s)))))"

definition aes_encrypt ::
    "(nat \<Rightarrow> bool) \<Rightarrow> ('op, 'pk) psa_api \<Rightarrow> byte list \<Rightarrow> string \<Rightarrow> byte list \<Rightarrow> byte list \<Rightarrow> nat \<Rightarrow>
     crypto_state \<Rightarrow> js_result \<times> crypto_state" where
  "aes_encrypt malloc_ok psa plaintext mode key iv iv_len s =
     (let padded = pkcs7_pad plaintext in
      if \<not> malloc_ok (length padded) then
        (JS_ThrowTypeError ''crypto.aesEncrypt: allocation failed'', s)
      else
        case aes_alg mode of
          None \<Rightarrow>
            (JS_ThrowTypeError (snprintf 128 (''crypto.aesEncrypt: unsupported mode: '' @ mode)), s)
        | Some alg \<Rightarrow>
            if alg = PSA_ALG_CBC_NO_PADDING \<and> iv_len < 16 then
              (JS_ThrowTypeError ''crypto.aesEncrypt: IV too short for CBC mode'', s)
            else
              case psa_import_key psa alg key of
                None \<Rightarrow> (JS_ThrowTypeError ''crypto.aesEncrypt: invalid key'', s)
              | Some key_id \<Rightarrow> aes_run malloc_ok psa alg padded iv key_id (store_key key_id s))"

definition js_crypto_aes_encrypt ::
    "(nat \<Rightarrow> bool) \<Rightarrow> ('op, 'pk) psa_api \<Rightarrow> 'v js_api \<Rightarrow> 'v list \<Rightarrow> crypto_state \<Rightarrow>
     js_result \<times> crypto_state" where
  "js_crypto_aes_encrypt malloc_ok psa api argv s =
     (case argv of
        a0 # a1 # a2 # a3 # _ \<Rightarrow>
          (let s1 = ensure_psa_init psa s;
               plaintext = (case fst (get_bytes_from_value malloc_ok api a0) of Some p \<Rightarrow> p | None \<Rightarrow> [])
           in case js_cstring api a1 of
                None \<Rightarrow> (JS_ThrowTypeError ''crypto.aesEncrypt: invalid mode'', s1)
              | Some mode_str \<Rightarrow>
                  (case fst (get_bytes_from_value malloc_ok api a2) of
                     None \<Rightarrow> (JS_ThrowTypeError ''crypto.aesEncrypt: invalid key'', s1)
                   | Some key \<Rightarrow>
                       (let (iv, iv_len) = (case get_bytes_from_value malloc_ok api a3 of
                            (Some iv, n) \<Rightarrow> (iv, n)
                          | (None, n) \<Rightarrow> (replicate 16 0, 0))
                        in aes_encrypt malloc_ok psa plaintext (mode_lower mode_str) key iv iv_len s1)))
      | _ \<Rightarrow> (JS_ThrowTypeError ''crypto.aesEncrypt requires 4 arguments: buffer, mode, key, iv'', s))"

section \<open>RSA\<close>

definition rsa_error :: "('op, 'pk) psa_api \<Rightarrow> string \<Rightarrow> int \<Rightarrow> js_result" where
  "rsa_error psa what ret = JS_ThrowTypeError (snprintf 256 (what @ snprintf 128 (mbedtls_strerror psa ret)))"

definition rsa_run ::
    "(nat \<Rightarrow> bool) \<Rightarrow> ('op, 'pk) psa_api \<Rightarrow> byte list \<Rightarrow> nat \<Rightarrow> crypto_state \<Rightarrow> js_result \<times> crypto_state" where
  "rsa_run malloc_ok psa plaintext key_id s =
     (let key_bytes = (psa_key_bits psa key_id + 7) div 8 in
      if \<not> malloc_ok key_bytes then
        (JS_ThrowTypeError ''crypto.rsaEncrypt: allocation failed'', psa_destroy_key key_id s)
      else
        case psa_asymmetric_encrypt psa key_id PSA_ALG_RSA_PKCS1V15_CRYPT plaintext key_bytes of
          Inl ret \<Rightarrow>
            (JS_ThrowTypeError
               (snprintf 128 (''crypto.rsaEncrypt: PSA encrypt failed (status='' @ dec_int ret @ '')'')),
             psa_destroy_key key_id s)
        | Inr out \<Rightarrow> (JS_NewArrayBufferCopy out, psa_destroy_key key_id s))"

definition js_crypto_rsa_encrypt ::
    "(nat \<Rightarrow> bool) \<Rightarrow> ('op, 'pk) psa_api \<Rightarrow> 'v js_api \<Rightarrow> 'v list \<Rightarrow> crypto_state \<Rightarrow>
     js_result \<times> crypto_state" where
  "js_crypto_rsa_encrypt malloc_ok psa api argv s =
     (case argv of
        a0 # a1 # _ \<Rightarrow>
          (let plaintext = (case fst (get_bytes_from_value malloc_ok api a0) of Some p \<Rightarrow> p | None \<Rightarrow> []) in
           case js_cstring api a1 of
             None \<Rightarrow> (JS_ThrowTypeError ''crypto.rsaEncrypt: invalid PEM'', s)
           | Some pem_str \<Rightarrow>
               (case pk_parse_public_key psa pem_str of
                  Inl ret \<Rightarrow> (rsa_error psa ''crypto.rsaEncrypt: parse key failed: '' ret, s)
                | Inr pk \<Rightarrow>
                    (let s1 = ensure_psa_init psa s; ret = pk_get_psa_attributes psa pk in
                     if ret \<noteq> 0 then (rsa_error psa ''crypto.rsaEncrypt: get PSA attributes failed: '' ret, s1)
                     else
                       case pk_import_into_psa psa pk PSA_ALG_RSA_PKCS1V15_CRYPT of
                         Inl ret \<Rightarrow> (rsa_error psa ''crypto.rsaEncrypt: PSA import failed: '' ret, s1)
                       | Inr key_id \<Rightarrow> rsa_run malloc_ok psa plaintext key_id (store_key key_id s1))))
      | _ \<Rightarrow> (JS_ThrowTypeError ''crypto.rsaEncrypt requires 2 arguments: buffer, publicKeyPEM'', s))"

section \<open>Lemmas\<close>

lemma destroy_stored [simp]: "psa_keys (psa_destroy_key k (store_key k s)) = psa_keys s"
  by (simp add: psa_destroy_key_def store_key_def)

lemma ensure_keys [simp]: "psa_keys (ensure_psa_init psa s) = psa_keys s"
  by (simp add: ensure_psa_init_def)

lemma aes_run_keys: "psa_keys (snd (aes_run malloc_ok psa alg padded iv k (store_key k s))) = psa_keys s"
  by (auto simp: aes_run_def split: option.splits)

lemma aes_encrypt_keys: "psa_keys (snd (aes_encrypt malloc_ok psa p mode key iv n s)) = psa_keys s"
  by (auto simp: aes_encrypt_def Let_def aes_run_keys split: option.splits)

lemma rsa_run_keys: "psa_keys (snd (rsa_run malloc_ok psa p k (store_key k s))) = psa_keys s"
  by (auto simp: rsa_run_def Let_def split: sum.splits)

definition pkcs7_unpad :: "byte list \<Rightarrow> byte list" where
  "pkcs7_unpad padded = take (length padded - unat (last padded)) padded"

lemma pkcs7_length: "length (pkcs7_pad p) = (length p div 16 + 1) * 16"
proof -
  define q r where "q = length p div 16" and "r = length p mod 16"
  then have "r < 16" "length p = q * 16 + r" by simp_all
  then show ?thesis by (simp add: pkcs7_pad_def Let_def flip: q_def r_def)
qed

lemma pkcs7_unpad_pad: "pkcs7_unpad (pkcs7_pad p) = p"
proof -
  define k where "k = 16 - length p mod 16"
  have k: "0 < k" "k \<le> 16" by (simp_all add: k_def)
  then have "unat (word_of_nat k :: byte) = k" by (simp add: unat_of_nat)
  with k show ?thesis
    unfolding pkcs7_unpad_def pkcs7_pad_def Let_def k_def [symmetric] by (simp add: last_append)
qed

section \<open>Correctness\<close>

text \<open>
  Property C40.  No call leaks a key: whatever the arguments, the allocations and the library's answers,
  the key store is the same after \<^verbatim>\<open>aesEncrypt\<close>, \<^verbatim>\<open>rsaEncrypt\<close> and \<^verbatim>\<open>randomBytes\<close> as before.
\<close>

theorem crypto_keys_destroyed:
  "psa_keys (snd (js_crypto_aes_encrypt malloc_ok psa api argv s)) = psa_keys s \<and>
   psa_keys (snd (js_crypto_rsa_encrypt malloc_ok psa api argv s)) = psa_keys s \<and>
   psa_keys (snd (js_crypto_random_bytes malloc_ok psa api argv s)) = psa_keys s"
  by (auto simp: js_crypto_aes_encrypt_def js_crypto_rsa_encrypt_def js_crypto_random_bytes_def Let_def
      aes_encrypt_keys rsa_run_keys split: list.splits option.splits sum.splits prod.splits)

text \<open>
  The padding of \<^verbatim>\<open>aesEncrypt\<close> is PKCS#7: the padded text is a whole number of 16-byte blocks,
  at least one byte longer than the plain text, and removing the padding gives the plain text back.
\<close>

theorem pkcs7_padding:
  "length (pkcs7_pad p) mod 16 = 0 \<and> length p < length (pkcs7_pad p) \<and>
   length (pkcs7_pad p) \<le> length p + 16 \<and> pkcs7_unpad (pkcs7_pad p) = p"
proof -
  define q r where "q = length p div 16" and "r = length p mod 16"
  then have "r < 16" "length p = q * 16 + r" by simp_all
  then have "length p < (q + 1) * 16" "(q + 1) * 16 \<le> length p + 16" by simp_all
  then show ?thesis using pkcs7_length [of p] by (simp add: pkcs7_unpad_pad flip: q_def)
qed

text \<open>
  \<^verbatim>\<open>aesEncrypt\<close> in CBC mode, in any letter case, passes the padded text, the key and the
  first 16 bytes of the initialization vector to the cipher and returns its whole output.  A
  vector shorter than 16 bytes is refused before any key is imported.
\<close>

theorem aes_encrypt_cbc:
  assumes "\<And>n. malloc_ok n" and "js_array_buffer api t = Some p" and "js_cstring api m = Some mode"
    and "map to_lower mode = ''cbc''" and "js_array_buffer api k = Some key" and "js_array_buffer api v = Some iv"
    and "psa_import_key psa PSA_ALG_CBC_NO_PADDING key = Some kid"
    and "psa_cipher_encrypt_setup psa kid PSA_ALG_CBC_NO_PADDING = Some op0"
    and "psa_cipher_set_iv psa op0 (take 16 iv) = Some op1"
    and "psa_cipher_update psa op1 (pkcs7_pad p) = Some (out1, op2)" and "psa_cipher_finish psa op2 = Some out2"
  shows "fst (js_crypto_aes_encrypt malloc_ok psa api [t, m, k, v] s) =
     (if length iv < 16 then JS_ThrowTypeError ''crypto.aesEncrypt: IV too short for CBC mode''
      else JS_NewArrayBufferCopy (out1 @ out2))"
proof -
  have "length mode = 3" using assms(4) by (metis length_map list.size(3,4) One_nat_def add.commute numeral_3_eq_3 plus_1_eq_Suc)
  then have "mode_lower mode = ''cbc''" using assms(4) by (simp add: mode_lower_def)
  then show ?thesis
    using assms by (simp add: js_crypto_aes_encrypt_def get_bytes_from_value_def aes_encrypt_def aes_alg_def
        aes_run_def Let_def)
qed

text \<open>A cipher that hands its input through and counts keys from 7.\<close>

definition ex_psa :: "(byte list, unit) psa_api" where
  "ex_psa = \<lparr>psa_crypto_init = True, md_md5 = None, psa_generate_random = \<lambda>_. None,
     psa_import_key = \<lambda>_ _. Some 7, psa_cipher_encrypt_setup = \<lambda>_ _. Some [],
     psa_cipher_set_iv = \<lambda>_ iv. Some iv, psa_cipher_update = \<lambda>op x. Some (x, op),
     psa_cipher_finish = \<lambda>op. Some op, pk_parse_public_key = \<lambda>_. Inl 1, pk_get_psa_attributes = \<lambda>_. 0,
     pk_import_into_psa = \<lambda>_ _. Inl 1, psa_key_bits = \<lambda>_. 0, psa_asymmetric_encrypt = \<lambda>_ _ _ _. Inl 1,
     mbedtls_strerror = \<lambda>_. ''''\<rparr>"

definition ex_crypto_api :: "byte list js_api" where
  "ex_crypto_api = \<lparr>js_cstring_len = \<lambda>v. Some (chars_of v), js_array_buffer = Some, js_int32 = \<lambda>_. 0,
     js_int64 = \<lambda>_. 0, js_is_object = \<lambda>_. False, js_is_undefined = \<lambda>_. False, js_is_null = \<lambda>_. False,
     js_get_property = \<lambda>v _. v, js_own_names = \<lambda>_. None\<rparr>"

theorem aes_encrypt_cbc_witness:
  "fst (js_crypto_aes_encrypt (\<lambda>_. True) ex_psa ex_crypto_api [[1, 2], [67, 66, 99], replicate 16 5, replicate 16 9]
     \<lparr>g_psa_initialized = False, psa_keys = []\<rparr>) = JS_NewArrayBufferCopy (pkcs7_pad [1, 2] @ replicate 16 9)"
proof -
  have "js_cstring ex_crypto_api [67, 66, 99] = Some ''CBc''" "map to_lower ''CBc'' = ''cbc''" by code_simp+
  then show ?thesis
    using aes_encrypt_cbc [of "\<lambda>_. True" ex_crypto_api "[1, 2]" "[1, 2]" "[67, 66, 99]" "''CBc''"
        "replicate 16 5" "replicate 16 5" "replicate 16 9" "replicate 16 9" ex_psa 7 "[]" "replicate 16 9"
        "pkcs7_pad [1, 2]" "replicate 16 9" "replicate 16 9" "\<lparr>g_psa_initialized = False, psa_keys = []\<rparr>"]
    by (simp add: ex_crypto_api_def ex_psa_def)
qed

end
