(* ===== verification/Zlib.thy ===== *)
theory Zlib
  imports Js_Api
begin

text \<open>
  The zlib object of \<^verbatim>\<open>src/polyfill/zlib.c\<close>.  The zlib library is a parameter: \<open>z_inflate\<close> takes the
  stream state and the space left and returns the code, the bytes written and the next state.
\<close>

section \<open>The library\<close>

definition Z_OK :: int where
  "Z_OK = 0"

definition Z_STREAM_END :: int where
  "Z_STREAM_END = 1"

record 'z zlib_api =
  z_inflate_init :: "byte list \<Rightarrow> 'z option"
  z_inflate :: "'z \<Rightarrow> nat \<Rightarrow> int \<times> byte list \<times> 'z"
  z_deflate_init :: bool
  z_deflate_bound :: "nat \<Rightarrow> nat"
  z_deflate :: "byte list \<Rightarrow> nat \<Rightarrow> int \<times> byte list"

text \<open>The bytes of the argument: an array buffer, or the text of a string.\<close>

definition zlib_input :: "'v js_api \<Rightarrow> 'v \<Rightarrow> byte list option" where
  "zlib_input api a =
     (case js_array_buffer api a of
        Some data \<Rightarrow> Some data
      | None \<Rightarrow> map_option bytes_of (js_cstring_len api a))"

section \<open>Inflate\<close>

text \<open>
  The loop, with a buffer of \<open>cap\<close> bytes holding \<open>out\<close>.  The space left is passed as a 32-bit
  \<^verbatim>\<open>uInt\<close>; \<open>None\<close> is a loop that does not end or a space that does not fit 32 bits, after which
  the code would count bytes that were never written.
\<close>

partial_function (option) inflate_loop ::
    "'z zlib_api \<Rightarrow> nat \<Rightarrow> byte list \<Rightarrow> 'z \<Rightarrow> (int \<times> byte list) option" where
  "inflate_loop z cap out zs =
     (let cap' = (if cap \<le> length out then cap * 2 else cap); avail_out = cap' - length out in
      if 4294967296 \<le> avail_out then None
      else
        case z_inflate z zs avail_out of (ret, written, zs') \<Rightarrow>
          (let out' = out @ written in
           if ret = Z_OK then inflate_loop z cap' out' zs' else Some (ret, out')))"

definition js_zlib_inflate :: "'z zlib_api \<Rightarrow> 'v js_api \<Rightarrow> 'v list \<Rightarrow> (js_result + js_settled) option" where
  "js_zlib_inflate z api argv =
     (case argv of
        [] \<Rightarrow> Some (Inl (JS_ThrowTypeError ''inflate requires 1 argument''))
      | a # _ \<Rightarrow>
          (case zlib_input api a of
             None \<Rightarrow> Some (Inl JS_EXCEPTION)
           | Some data \<Rightarrow>
               (case z_inflate_init z data of
                  None \<Rightarrow> Some (Inr (Rejected (JS_NewString ''inflate: init failed'')))
                | Some zs \<Rightarrow>
                    (let out_cap = (if length data * 4 < 1024 then 1024 else length data * 4) in
                     case inflate_loop z out_cap [] zs of
                       None \<Rightarrow> None
                     | Some (ret, out) \<Rightarrow>
                         Some (Inr (if ret = Z_STREAM_END then Resolved (JS_NewArrayBufferCopy out)
                                    else Rejected (JS_NewString
                                      (snprintf 128 (''inflate error: '' @ dec_int ret)))))))))"

section \<open>Deflate\<close>

definition js_zlib_deflate :: "'z zlib_api \<Rightarrow> 'v js_api \<Rightarrow> 'v list \<Rightarrow> js_result + js_settled" where
  "js_zlib_deflate z api argv =
     (case argv of
        [] \<Rightarrow> Inl (JS_ThrowTypeError ''deflate requires 1 argument'')
      | a # _ \<Rightarrow>
          (case zlib_input api a of
             None \<Rightarrow> Inl JS_EXCEPTION
           | Some data \<Rightarrow>
               if \<not> z_deflate_init z then Inr (Rejected (JS_NewString ''deflate: init failed''))
               else
                 (case z_deflate z data (z_deflate_bound z (length data)) of
                    (ret, out) \<Rightarrow>
                      Inr (if ret = Z_STREAM_END then Resolved (JS_NewArrayBufferCopy out)
                           else Rejected (JS_NewString (snprintf 128 (''deflate error: '' @ dec_int ret)))))))"

section \<open>The contract of inflate\<close>

text \<open>
  What the zlib manual promises of a call with space to write to: it writes no more than that space, it returns \<open>Z_OK\<close>
  only when it made progress, and the bytes it writes are the next bytes of the decompressed data; with how much space it is called does
  not change what is decompressed nor how it ends.  \<open>rest\<close> is the data a state has still to deliver, \<open>verdict\<close> the code with
  which its stream ends (\<open>Z_STREAM_END\<close> after all the data, or an error) and \<open>work\<close> bounds the calls that make progress.
\<close>

definition zlib_contract ::
    "'z zlib_api \<Rightarrow> ('z \<Rightarrow> byte list) \<Rightarrow> ('z \<Rightarrow> int) \<Rightarrow> ('z \<Rightarrow> nat) \<Rightarrow> bool" where
  "zlib_contract z rest verdict work \<longleftrightarrow>
     (\<forall>zs n ret w zs'. z_inflate z zs n = (ret, w, zs') \<longrightarrow> 0 < n \<longrightarrow>
        length w \<le> n \<and> rest zs = w @ rest zs' \<and>
        (ret = Z_OK \<longrightarrow> work zs' < work zs \<and> verdict zs' = verdict zs) \<and>
        (ret \<noteq> Z_OK \<longrightarrow> ret = verdict zs) \<and> (ret = Z_STREAM_END \<longrightarrow> rest zs' = []))"

lemma inflate_loop_spec:
  assumes contract: "zlib_contract z rest verdict work" and "length out \<le> cap" and "0 < cap"
    and "2 * (length out + length (rest zs)) \<le> B" and "cap \<le> B" and "B < 4294967296"
  shows "\<exists>out'. inflate_loop z cap out zs = Some (verdict zs, out') \<and>
     (verdict zs = Z_STREAM_END \<longrightarrow> out' = out @ rest zs) \<and> (\<exists>r. out @ rest zs = out' @ r)"
  using assms(2-)
proof (induction "work zs" arbitrary: cap out zs rule: less_induct)
  case less
  let ?cap = "if cap \<le> length out then cap * 2 else cap"
  obtain ret w zs' where i: "z_inflate z zs (?cap - length out) = (ret, w, zs')" by (rule prod_cases3)
  have cap: "?cap \<le> B" using less.prems by auto
  have room: "0 < ?cap - length out" using less.prems(1,2) by auto
  have l: "length w \<le> ?cap - length out" "rest zs = w @ rest zs'" "ret = Z_OK \<Longrightarrow> work zs' < work zs \<and> verdict zs' = verdict zs"
    "ret \<noteq> Z_OK \<Longrightarrow> ret = verdict zs" "ret = Z_STREAM_END \<Longrightarrow> rest zs' = []"
    using contract [unfolded zlib_contract_def, rule_format, OF i room] by simp_all
  show ?case
  proof (cases "ret = Z_OK")
    case True
    then have "work zs' < work zs" and v: "verdict zs' = verdict zs" using l(3) by simp_all
    moreover have "length (out @ w) \<le> ?cap" using l(1) less.prems(1,2) by (auto split: if_splits)
    moreover have "0 < ?cap" using less.prems(2) by simp
    moreover have "2 * (length (out @ w) + length (rest zs')) \<le> B" using less.prems(3) l(2) by simp
    ultimately have "\<exists>out'. inflate_loop z ?cap (out @ w) zs' = Some (verdict zs', out') \<and>
        (verdict zs' = Z_STREAM_END \<longrightarrow> out' = (out @ w) @ rest zs') \<and> (\<exists>x. (out @ w) @ rest zs' = out' @ x)"
      using less.hyps cap less.prems(5) by blast
    moreover have "inflate_loop z cap out zs = inflate_loop z ?cap (out @ w) zs'"
      using i True cap less.prems(5) by (subst inflate_loop.simps) (auto simp: Let_def)
    ultimately show ?thesis using l(2) v by simp
  next
    case False
    then have "inflate_loop z cap out zs = Some (ret, out @ w)"
      using i cap less.prems(5) by (subst inflate_loop.simps) (auto simp: Let_def)
    with False l(2,4,5) show ?thesis by auto
  qed
qed

section \<open>Correctness\<close>

text \<open>
  Property C39.  For input below 512 MiB that inflates to less than 2 GiB, \<^verbatim>\<open>zlib.inflate\<close> settles its
  promise, and how it does so is fixed by the stream: the loop ends and no call is given a wrapped size; a stream that ends with
  \<open>Z_STREAM_END\<close> resolves the promise to the complete decompressed data, whatever pieces the calls delivered; one that ends with an error code
  rejects it with a message that names this code; and when zlib cannot start the promise is rejected with that message.
\<close>

theorem js_zlib_inflate_settles:
  fixes z :: "'z zlib_api"
  assumes "zlib_input api a = Some data" and "zlib_contract z rest verdict work"
    and "length data < 536870912" and "\<forall>zs. z_inflate_init z data = Some zs \<longrightarrow> length (rest zs) < 2147483648"
  shows "js_zlib_inflate z api [a] = Some (Inr (case z_inflate_init z data of
       None \<Rightarrow> Rejected (JS_NewString ''inflate: init failed'')
     | Some zs \<Rightarrow>
         if verdict zs = Z_STREAM_END then Resolved (JS_NewArrayBufferCopy (rest zs))
         else Rejected (JS_NewString (snprintf 128 (''inflate error: '' @ dec_int (verdict zs))))))"
proof (cases "z_inflate_init z data")
  case None
  then show ?thesis using assms(1) by (simp add: js_zlib_inflate_def)
next
  case (Some zs)
  let ?cap = "if length data * 4 < 1024 then 1024 else length data * 4"
  have cap: "0 < ?cap" "?cap \<le> 4294967295" using assms(3) by auto
  from inflate_loop_spec [OF assms(2) _ cap(1) _ cap(2), of "[]" zs] assms(4) Some
  obtain out where "inflate_loop z ?cap [] zs = Some (verdict zs, out)" "verdict zs = Z_STREAM_END \<longrightarrow> out = rest zs"
    by auto
  then show ?thesis using assms(1) Some by (auto simp: js_zlib_inflate_def)
qed

text \<open>A library that stores data uncompressed, delivers at most 3 bytes per call and takes a byte 255 for corrupt data.\<close>

definition ex_good :: "byte list \<Rightarrow> byte list" where
  "ex_good zs = takeWhile (\<lambda>b. b \<noteq> 255) zs"

definition ex_verdict :: "byte list \<Rightarrow> int" where
  "ex_verdict zs = (if 255 \<in> set zs then - 3 else Z_STREAM_END)"

definition ex_zlib :: "byte list zlib_api" where
  "ex_zlib = \<lparr>z_inflate_init = Some,
     z_inflate = \<lambda>zs n. if length (ex_good zs) \<le> min 3 n then (ex_verdict zs, ex_good zs, drop (length (ex_good zs)) zs)
       else (Z_OK, take (min 3 n) zs, drop (min 3 n) zs),
     z_deflate_init = True, z_deflate_bound = \<lambda>n. n, z_deflate = \<lambda>d n. (Z_STREAM_END, d)\<rparr>"

definition ex_zapi :: "byte list js_api" where
  "ex_zapi = \<lparr>js_cstring_len = \<lambda>_. None, js_array_buffer = Some, js_int32 = \<lambda>_. 0, js_int64 = \<lambda>_. 0,
     js_is_object = \<lambda>_. False, js_is_undefined = \<lambda>_. False, js_is_null = \<lambda>_. False,
     js_get_property = \<lambda>v _. v, js_own_names = \<lambda>_. None\<rparr>"

lemma ex_good_split:
  "k \<le> length (ex_good zs) \<Longrightarrow> ex_good zs = take k zs @ ex_good (drop k zs) \<and> (255 \<in> set (drop k zs) \<longleftrightarrow> 255 \<in> set zs)"
proof (induction zs arbitrary: k)
  case (Cons b zs)
  then show ?case by (cases k) (auto simp: ex_good_def split: if_splits)
qed (simp add: ex_good_def)

lemma ex_zlib_contract: "zlib_contract ex_zlib ex_good ex_verdict length"
  unfolding zlib_contract_def
proof (intro allI impI)
  fix zs :: "byte list" and n ret w zs'
  assume i: "z_inflate ex_zlib zs n = (ret, w, zs')" and n: "0 < n"
  have v: "ex_verdict zs \<noteq> Z_OK" by (simp add: ex_verdict_def Z_OK_def Z_STREAM_END_def)
  show "length w \<le> n \<and> ex_good zs = w @ ex_good zs' \<and>
        (ret = Z_OK \<longrightarrow> length zs' < length zs \<and> ex_verdict zs' = ex_verdict zs) \<and>
        (ret \<noteq> Z_OK \<longrightarrow> ret = ex_verdict zs) \<and> (ret = Z_STREAM_END \<longrightarrow> ex_good zs' = [])"
  proof (cases "length (ex_good zs) \<le> min 3 n")
    case True
    have "take (length (ex_good zs)) zs = ex_good zs" unfolding ex_good_def by (metis takeWhile_eq_take)
    with ex_good_split [of "length (ex_good zs)" zs] have "ex_good (drop (length (ex_good zs)) zs) = []" by simp
    then show ?thesis using True i v by (auto simp: ex_zlib_def)
  next
    case False
    have r: "ret = Z_OK" "w = take (min 3 n) zs" "zs' = drop (min 3 n) zs" using False i by (simp_all add: ex_zlib_def split: if_splits)
    have k: "min 3 n \<le> length (ex_good zs)" using False by linarith
    have "ex_good zs = w @ ex_good zs'" using ex_good_split [OF k] unfolding r by blast
    moreover have "ex_verdict zs' = ex_verdict zs"
      using ex_good_split [OF k, THEN conjunct2] unfolding r ex_verdict_def by simp
    moreover have "length (ex_good zs) \<le> length zs" by (simp add: ex_good_def length_takeWhile_le)
    then have "0 < length zs" using False by linarith
    then have "length zs' < length zs" "length w \<le> n" using r n by simp_all
    ultimately show ?thesis using r(1) by (simp add: Z_OK_def Z_STREAM_END_def)
  qed
qed

theorem js_zlib_inflate_settles_witness:
  "js_zlib_inflate ex_zlib ex_zapi [[1, 2, 3, 4, 5]] = Some (Inr (Resolved (JS_NewArrayBufferCopy [1, 2, 3, 4, 5]))) \<and>
   js_zlib_inflate ex_zlib ex_zapi [[1, 2, 3, 4, 255]] = Some (Inr (Rejected (JS_NewString ''inflate error: -3'')))"
proof -
  have s: "js_zlib_inflate ex_zlib ex_zapi [d] = Some (Inr (if ex_verdict d = Z_STREAM_END then Resolved (JS_NewArrayBufferCopy (ex_good d))
      else Rejected (JS_NewString (snprintf 128 (''inflate error: '' @ dec_int (ex_verdict d))))))" if "length d < 10" for d
  proof -
    have "zlib_input ex_zapi d = Some d" "z_inflate_init ex_zlib d = Some d"
      by (simp_all add: zlib_input_def ex_zapi_def ex_zlib_def)
    moreover have "length (ex_good d) < 2147483648"
      using that length_takeWhile_le [of "\<lambda>b. b \<noteq> 255" d] by (simp add: ex_good_def)
    ultimately show ?thesis using that js_zlib_inflate_settles [OF _ ex_zlib_contract, of ex_zapi d d] by simp
  qed
  have g: "ex_good [1, 2, 3, 4, 5] = [1, 2, 3, 4, 5]" "ex_verdict [1, 2, 3, 4, 5] = Z_STREAM_END"
    "ex_verdict [1, 2, 3, 4, 255] = - 3" "Z_STREAM_END \<noteq> - 3"
    "snprintf 128 (''inflate error: '' @ dec_int (- 3)) = ''inflate error: -3''" by code_simp+
  show ?thesis using s [of "[1, 2, 3, 4, 5]"] s [of "[1, 2, 3, 4, 255]"] g by simp
qed

end
