(* ===== verification/Polyfill.thy ===== *)
theory Polyfill
  imports Buffer Url Timer Fetch Crypto Zlib
begin

text \<open>
  The injection of the polyfills into the global object: \<^verbatim>\<open>src/polyfill/polyfill.c\<close> and the function
  \<^verbatim>\<open>polyfill_inject_...\<close> at the end of each polyfill.  The global object is the list of its properties; a
  native function is the name of the C function, the name it shows and its arity.
\<close>

section \<open>The global object\<close>

datatype global_value =
    CFunction string string nat
  | GObject "(string \<times> global_value) list"
  | ManagerPointer string

type_synonym js_object = "(string \<times> global_value) list"

abbreviation set_fn :: "string \<Rightarrow> string \<Rightarrow> nat \<Rightarrow> js_object \<Rightarrow> js_object" where
  "set_fn name c_fn arity obj \<equiv> set_property obj name (CFunction c_fn name arity)"

definition polyfill_inject_console :: "js_object \<Rightarrow> js_object" where
  "polyfill_inject_console g =
     (let console = set_fn ''trace'' ''js_console_trace'' 0 (set_fn ''debug'' ''js_console_debug'' 0
        (set_fn ''error'' ''js_console_error'' 0 (set_fn ''warn'' ''js_console_warn'' 0
        (set_fn ''info'' ''js_console_info'' 0 (set_fn ''log'' ''js_console_log'' 0 [])))))
      in set_property g ''console'' (GObject console))"

definition polyfill_inject_encoding :: "js_object \<Rightarrow> js_object" where
  "polyfill_inject_encoding g =
     (let g1 = set_fn ''btoa'' ''js_btoa'' 1 (set_fn ''atob'' ''js_atob'' 1 g);
          g2 = set_property g1 ''TextEncoder'' (GObject (set_fn ''encode'' ''js_text_encoder_encode'' 1 []))
      in set_property g2 ''TextDecoder'' (GObject (set_fn ''decode'' ''js_text_decoder_decode'' 1 [])))"

definition polyfill_inject_buffer :: "js_object \<Rightarrow> js_object" where
  "polyfill_inject_buffer g =
     set_property g ''Buffer'' (GObject (set_fn ''toString'' ''js_buffer_to_string'' 2
       (set_fn ''isBuffer'' ''js_buffer_is_buffer'' 1 (set_fn ''from'' ''js_buffer_from'' 2 []))))"

definition polyfill_inject_url :: "js_object \<Rightarrow> js_object" where
  "polyfill_inject_url g =
     set_fn ''URLSearchParams'' ''js_urlsearchparams_constructor'' 1 (set_fn ''URL'' ''js_url_constructor'' 2 g)"

definition polyfill_inject_timer :: "js_object \<Rightarrow> js_object" where
  "polyfill_inject_timer g =
     set_fn ''clearInterval'' ''js_clear_interval'' 1 (set_fn ''setInterval'' ''js_set_interval'' 2
       (set_fn ''clearTimeout'' ''js_clear_timeout'' 1 (set_fn ''setTimeout'' ''js_set_timeout'' 2
       (set_property g ''__tm_ptr'' (ManagerPointer ''timer'')))))"

definition polyfill_inject_fetch :: "js_object \<Rightarrow> js_object" where
  "polyfill_inject_fetch g =
     set_fn ''fetch'' ''js_fetch'' 2 (set_property g ''__fm_ptr'' (ManagerPointer ''fetch''))"

definition polyfill_inject_crypto :: "js_object \<Rightarrow> js_object" where
  "polyfill_inject_crypto g =
     set_property g ''crypto'' (GObject (set_fn ''rsaEncrypt'' ''js_crypto_rsa_encrypt'' 2
       (set_fn ''aesEncrypt'' ''js_crypto_aes_encrypt'' 4
       (set_fn ''randomBytes'' ''js_crypto_random_bytes'' 1 (set_fn ''md5'' ''js_crypto_md5'' 1 [])))))"

definition polyfill_inject_zlib :: "js_object \<Rightarrow> js_object" where
  "polyfill_inject_zlib g =
     set_property g ''zlib'' (GObject (set_fn ''deflate'' ''js_zlib_deflate'' 1
       (set_fn ''inflate'' ''js_zlib_inflate'' 1 [])))"

text \<open>The methods of a search parameter object, whose hidden property points to the list.\<close>

definition build_search_params_obj :: js_object where
  "build_search_params_obj =
     set_fn ''append'' ''js_sp_append'' 2 (set_fn ''toString'' ''js_sp_to_string'' 0
       (set_fn ''delete'' ''js_sp_delete'' 1 (set_fn ''has'' ''js_sp_has'' 1 (set_fn ''set'' ''js_sp_set'' 2
       (set_fn ''get'' ''js_sp_get'' 1 (set_property [] ''__sp_ptr'' (ManagerPointer ''search params'')))))))"

section \<open>The managers\<close>

record 'v polyfill_managers =
  timer_mgr :: "'v timer_manager"
  fetch_mgr :: "'v fetch_manager"

definition polyfill_inject_all ::
    "bool \<Rightarrow> js_object \<Rightarrow> ('v polyfill_managers option) \<times> js_object" where
  "polyfill_inject_all malloc_ok g =
     (if \<not> malloc_ok then (None, g)
      else
        (Some \<lparr>timer_mgr = tm_init, fetch_mgr = fm_init\<rparr>,
         polyfill_inject_zlib (polyfill_inject_crypto (polyfill_inject_fetch (polyfill_inject_timer
           (polyfill_inject_url (polyfill_inject_buffer (polyfill_inject_encoding
           (polyfill_inject_console g)))))))))"

definition polyfill_close ::
    "('v, 'x) timer_env \<Rightarrow> ('v, 'x) fetch_env \<Rightarrow> 'v polyfill_managers option \<Rightarrow> 'x \<Rightarrow> 'x" where
  "polyfill_close tenv fenv pm x =
     (case pm of
        None \<Rightarrow> x
      | Some m \<Rightarrow> snd (tm_free tenv (timer_mgr m) (snd (fm_free fenv (fetch_mgr m, x)))))"

section \<open>Correctness\<close>

definition injected_names :: "string list" where
  "injected_names =
     [''console'', ''atob'', ''btoa'', ''TextEncoder'', ''TextDecoder'', ''Buffer'', ''URL'', ''URLSearchParams'',
      ''__tm_ptr'', ''setTimeout'', ''clearTimeout'', ''setInterval'', ''clearInterval'', ''__fm_ptr'', ''fetch'',
      ''crypto'', ''zlib'']"

lemmas inject_defs = polyfill_inject_console_def polyfill_inject_encoding_def polyfill_inject_buffer_def
  polyfill_inject_url_def polyfill_inject_timer_def polyfill_inject_fetch_def polyfill_inject_crypto_def
  polyfill_inject_zlib_def Let_def map_of_set_property

lemma inject_other:
  assumes "k \<notin> set injected_names"
  shows "map_of (snd (polyfill_inject_all True g)) k = map_of g k"
  using assms by (simp add: injected_names_def polyfill_inject_all_def inject_defs)

text \<open>
  Injecting the polyfills binds each promised global to its own native function, whatever the
  global object held before, and changes no other global.
\<close>

theorem polyfill_inject_all_binds:
  "map_of (snd (polyfill_inject_all True g)) ''fetch'' = Some (CFunction ''js_fetch'' ''fetch'' 2) \<and>
   map_of (snd (polyfill_inject_all True g)) ''setTimeout'' = Some (CFunction ''js_set_timeout'' ''setTimeout'' 2) \<and>
   map_of (snd (polyfill_inject_all True g)) ''clearTimeout'' = Some (CFunction ''js_clear_timeout'' ''clearTimeout'' 1) \<and>
   map_of (snd (polyfill_inject_all True g)) ''setInterval'' = Some (CFunction ''js_set_interval'' ''setInterval'' 2) \<and>
   map_of (snd (polyfill_inject_all True g)) ''clearInterval'' = Some (CFunction ''js_clear_interval'' ''clearInterval'' 1) \<and>
   map_of (snd (polyfill_inject_all True g)) ''atob'' = Some (CFunction ''js_atob'' ''atob'' 1) \<and>
   map_of (snd (polyfill_inject_all True g)) ''btoa'' = Some (CFunction ''js_btoa'' ''btoa'' 1) \<and>
   map_of (snd (polyfill_inject_all True g)) ''URL'' = Some (CFunction ''js_url_constructor'' ''URL'' 2) \<and>
   (\<forall>k. k \<notin> set injected_names \<longrightarrow> map_of (snd (polyfill_inject_all True g)) k = map_of g k)"
proof (intro conjI allI impI)
  fix k assume "k \<notin> set injected_names"
  then show "map_of (snd (polyfill_inject_all True g)) k = map_of g k" by (rule inject_other)
qed (simp_all add: polyfill_inject_all_def inject_defs)

theorem polyfill_inject_all_binds_witness:
  "map_of (snd (polyfill_inject_all True [(''Math'', GObject [])])) ''Math'' = Some (GObject [])"
proof -
  have "''Math'' \<notin> set injected_names" by code_simp
  then show ?thesis using polyfill_inject_all_binds [of "[(''Math'', GObject [])]"] by (auto simp: map_of_Cons_code)
qed

end
