(* ===== verification/Fifo.thy ===== *)
theory Fifo
  imports Prelude
begin

text \<open>
  The interface of a first-in first-out queue.  The standard-input reader hands its lines to the
  main thread through one queue (an array with a shifted front) and the main thread hands requests
  to every environment through another (a linked list with a tail pointer); both are
  interpretations of the locale, and what its clients rely on is proved once, for every
  interleaving of the two ends.
\<close>

datatype 'a queue_op = Push 'a | Pop

text \<open>The elements the operations put in, in their order.\<close>

fun pushed :: "'a queue_op list \<Rightarrow> 'a list" where
  "pushed [] = []"
| "pushed (Push x # ops) = x # pushed ops"
| "pushed (Pop # ops) = pushed ops"

text \<open>A run: the elements delivered and the queue it ends in.\<close>

fun queue_run ::
    "('a \<Rightarrow> 'q \<Rightarrow> 'q) \<Rightarrow> ('q \<Rightarrow> 'a option \<times> 'q) \<Rightarrow> 'a queue_op list \<Rightarrow> 'q \<Rightarrow> 'a list \<times> 'q" where
  "queue_run push pop [] q = ([], q)"
| "queue_run push pop (Push x # ops) q = queue_run push pop ops (push x q)"
| "queue_run push pop (Pop # ops) q =
     (case pop q of
        (None, q') \<Rightarrow> queue_run push pop ops q'
      | (Some x, q') \<Rightarrow> (let (out, q'') = queue_run push pop ops q' in (x # out, q'')))"

locale fifo_queue =
  fixes inv :: "'q \<Rightarrow> bool"
    and contents :: "'q \<Rightarrow> 'a list"
    and push :: "'a \<Rightarrow> 'q \<Rightarrow> 'q"
    and pop :: "'q \<Rightarrow> 'a option \<times> 'q"
  assumes push_inv: "inv q \<Longrightarrow> inv (push x q)"
    and push_contents: "inv q \<Longrightarrow> contents (push x q) = contents q @ [x]"
    and pop_inv: "inv q \<Longrightarrow> inv (snd (pop q))"
    and pop_empty: "inv q \<Longrightarrow> contents q = [] \<Longrightarrow> pop q = (None, q)"
    and pop_contents: "inv q \<Longrightarrow> contents q = x # xs \<Longrightarrow> fst (pop q) = Some x \<and> contents (snd (pop q)) = xs"
begin

lemma pop_None_iff:
  assumes "inv q"
  shows "fst (pop q) = None \<longleftrightarrow> contents q = []"
  using assms pop_empty [of q] pop_contents [of q] by (cases "contents q") auto

text \<open>What went in comes out, once and in order: the rest is still queued.\<close>

lemma run_fifo:
  "inv q \<Longrightarrow> queue_run push pop ops q = (out, q') \<Longrightarrow>
   inv q' \<and> contents q @ pushed ops = out @ contents q'"
proof (induction ops arbitrary: q out)
  case Nil
  then show ?case by simp
next
  case (Cons op ops)
  show ?case
  proof (cases op)
    case (Push x)
    with Cons.IH [of "push x q" out] Cons.prems show ?thesis
      by (simp add: push_inv push_contents)
  next
    case Pop
    show ?thesis
    proof (cases "contents q")
      case Nil
      with Pop Cons.IH [of q out] Cons.prems show ?thesis by (simp add: pop_empty)
    next
      case (Cons x xs)
      with pop_contents Cons.prems(1) obtain q1 where q1: "pop q = (Some x, q1)" "contents q1 = xs"
        by (metis prod.collapse)
      from pop_inv [OF Cons.prems(1)] q1 have "inv q1" by simp
      moreover obtain out1 where "queue_run push pop ops q1 = (out1, q')" "out = x # out1"
        using Cons.prems(2) Pop q1 by (auto split: prod.splits)
      ultimately show ?thesis using Cons.IH [of q1 out1] q1 Cons Pop by simp
    qed
  qed
qed

end

end
