(* ===== verification/Request_Queue.thy ===== *)
theory Request_Queue
  imports Fifo
begin

text \<open>
  The request queue of an environment (\<^verbatim>\<open>src/env_manager.h\<close>, \<^verbatim>\<open>src/env_manager.c\<close>): a singly linked list
  with head and tail pointers, appended to by \<^verbatim>\<open>env_submit_request\<close> on the main thread and taken from
  by the event loop, both under the queue's mutex.  The nodes live in an explicit store, because the
  tail pointer aliases the last node of the list: the store is a map from addresses to a request and
  its \<^verbatim>\<open>next\<close> pointer, and a freed address has no entry.
\<close>

section \<open>Requests\<close>

record env_request =
  rq_request_id :: "string option"
  rq_type :: string
  rq_code :: "string option"
  rq_filename :: "string option"
  rq_path :: "string option"

record request_queue =
  rq_nodes :: "nat \<rightharpoonup> env_request \<times> nat option"
  rq_head :: "nat option"
  rq_tail :: "nat option"
  rq_fresh :: nat

definition rq_init :: request_queue where
  "rq_init = \<lparr>rq_nodes = Map.empty, rq_head = None, rq_tail = None, rq_fresh = 0\<rparr>"

section \<open>Operations\<close>

text \<open>
  The part of \<^verbatim>\<open>env_submit_request\<close> under the mutex.  A write through a tail pointer to a freed node is
  modelled as changing nothing.
\<close>

definition rq_push :: "env_request \<Rightarrow> request_queue \<Rightarrow> request_queue" where
  "rq_push req q =
     (let a = rq_fresh q; nodes = (rq_nodes q)(a \<mapsto> (req, None)) in
      case rq_tail q of
        Some t \<Rightarrow>
          q\<lparr>rq_nodes := (case nodes t of Some (r, nx) \<Rightarrow> nodes(t \<mapsto> (r, Some a)) | None \<Rightarrow> nodes),
            rq_tail := Some a, rq_fresh := Suc a\<rparr>
      | None \<Rightarrow> q\<lparr>rq_nodes := nodes, rq_head := Some a, rq_tail := Some a, rq_fresh := Suc a\<rparr>)"

text \<open>Taking the first request; its node is freed once it is handled.\<close>

definition rq_pop :: "request_queue \<Rightarrow> env_request option \<times> request_queue" where
  "rq_pop q =
     (case rq_head q of
        None \<Rightarrow> (None, q)
      | Some a \<Rightarrow>
          (case rq_nodes q a of
             None \<Rightarrow> (None, q)
           | Some (req, nx) \<Rightarrow>
               (Some req,
                q\<lparr>rq_nodes := (rq_nodes q)(a := None), rq_head := nx,
                  rq_tail := (if nx = None then None else rq_tail q)\<rparr>)))"

text \<open>
  The loop of \<^verbatim>\<open>env_destroy\<close> and \<^verbatim>\<open>env_manager_free\<close> that frees the remaining requests, along the
  \<^verbatim>\<open>next\<close> pointers: the store after it.
\<close>

fun rq_free_loop :: "nat \<Rightarrow> (nat \<rightharpoonup> env_request \<times> nat option) \<Rightarrow> nat option \<Rightarrow> (nat \<rightharpoonup> env_request \<times> nat option)" where
  "rq_free_loop (Suc k) nodes (Some a) =
     (case nodes a of Some (req, nx) \<Rightarrow> rq_free_loop k (nodes(a := None)) nx | None \<Rightarrow> nodes)"
| "rq_free_loop _ nodes _ = nodes"

definition rq_free :: "request_queue \<Rightarrow> request_queue" where
  "rq_free q = q\<lparr>rq_nodes := rq_free_loop (rq_fresh q) (rq_nodes q) (rq_head q)\<rparr>"

section \<open>Contents and invariant\<close>

text \<open>The requests along the pointers; the list has at most as many nodes as addresses were handed out.\<close>

fun rq_walk :: "nat \<Rightarrow> (nat \<rightharpoonup> env_request \<times> nat option) \<Rightarrow> nat option \<Rightarrow> env_request list" where
  "rq_walk (Suc k) nodes (Some a) =
     (case nodes a of Some (req, nx) \<Rightarrow> req # rq_walk k nodes nx | None \<Rightarrow> [])"
| "rq_walk _ nodes _ = []"

definition rq_contents :: "request_queue \<Rightarrow> env_request list" where
  "rq_contents q = rq_walk (rq_fresh q) (rq_nodes q) (rq_head q)"

text \<open>The linked segment from a pointer to the null pointer visits these addresses and requests.\<close>

inductive rq_seg :: "(nat \<rightharpoonup> env_request \<times> nat option) \<Rightarrow> nat option \<Rightarrow> (nat \<times> env_request) list \<Rightarrow> bool"
  for nodes where
  seg_end: "rq_seg nodes None []"
| seg_node: "nodes a = Some (r, nx) \<Longrightarrow> rq_seg nodes nx ps \<Longrightarrow> rq_seg nodes (Some a) ((a, r) # ps)"

inductive_simps rq_seg_None [simp]: "rq_seg nodes None ps"
inductive_simps rq_seg_Some [simp]: "rq_seg nodes (Some a) ps"
inductive_simps rq_seg_Nil [simp]: "rq_seg nodes p []"
inductive_simps rq_seg_Cons [simp]: "rq_seg nodes p ((a, r) # ps)"

definition rq_list :: "request_queue \<Rightarrow> (nat \<times> env_request) list \<Rightarrow> bool" where
  "rq_list q ps \<longleftrightarrow>
     rq_seg (rq_nodes q) (rq_head q) ps \<and> sorted_wrt (<) (map fst ps) \<and>
     (\<forall>a \<in> fst ` set ps. a < rq_fresh q) \<and> dom (rq_nodes q) = fst ` set ps \<and>
     rq_tail q = (if ps = [] then None else Some (fst (last ps)))"

definition rq_inv :: "request_queue \<Rightarrow> bool" where
  "rq_inv q \<longleftrightarrow> (\<exists>ps. rq_list q ps)"

section \<open>Lemmas\<close>

lemma sorted_below_length:
  assumes "sorted_wrt (<) (xs :: nat list)" and "\<forall>a \<in> set xs. a < n"
  shows "length xs \<le> n"
proof -
  from assms(1) have "distinct xs" by (simp add: strict_sorted_iff)
  with assms(2) show ?thesis using card_mono [of "{..<n}" "set xs"] by (auto simp: distinct_card)
qed

lemma rq_walk_seg: "rq_seg nodes p ps \<Longrightarrow> length ps \<le> k \<Longrightarrow> rq_walk k nodes p = map snd ps"
proof (induction arbitrary: k rule: rq_seg.induct)
  case seg_end
  then show ?case by (cases k) auto
next
  case (seg_node a r nx ps)
  then show ?case by (cases k) auto
qed

lemma rq_list_contents: "rq_list q ps \<Longrightarrow> rq_contents q = map snd ps"
  unfolding rq_list_def rq_contents_def
  by (rule rq_walk_seg) (use sorted_below_length [of "map fst ps" "rq_fresh q"] in auto)

lemma rq_seg_other: "rq_seg nodes p ps \<Longrightarrow> \<forall>a \<in> fst ` set ps. nodes' a = nodes a \<Longrightarrow> rq_seg nodes' p ps"
  by (induction rule: rq_seg.induct) (auto intro: rq_seg.intros)

lemma rq_seg_last: "rq_seg nodes p ps \<Longrightarrow> ps \<noteq> [] \<Longrightarrow> nodes (fst (last ps)) = Some (snd (last ps), None)"
proof (induction rule: rq_seg.induct)
  case (seg_node a r nx ps)
  then show ?case by (cases ps) (auto elim: rq_seg.cases)
qed simp

text \<open>Hanging a new node onto the last one.\<close>

lemma rq_seg_snoc:
  assumes "rq_seg nodes p ps" and "ps \<noteq> []" and "distinct (map fst ps)" and "n \<notin> fst ` set ps"
    and "nodes' n = Some (req, None)"
    and "\<forall>a \<in> fst ` set ps. a \<noteq> fst (last ps) \<longrightarrow> nodes' a = nodes a"
    and "nodes' (fst (last ps)) = Some (snd (last ps), Some n)"
  shows "rq_seg nodes' p (ps @ [(n, req)])"
  using assms
proof (induction rule: rq_seg.induct)
  case seg_end
  then show ?case by simp
next
  case (seg_node a r nx ps)
  show ?case
  proof (cases ps)
    case Nil
    with seg_node show ?thesis by auto
  next
    case (Cons x xs)
    then have "last ps \<in> set ps" by simp
    with seg_node.prems(2) have "a \<noteq> fst (last ps)" by auto
    moreover have "rq_seg nodes' nx (ps @ [(n, req)])"
      using seg_node.prems Cons by (intro seg_node.IH) auto
    ultimately show ?thesis using seg_node.hyps(1) seg_node.prems Cons by auto
  qed
qed

lemma rq_list_push:
  assumes "rq_list q ps"
  shows "rq_list (rq_push req q) (ps @ [(rq_fresh q, req)])"
proof (cases "ps = []")
  case True
  with assms have "rq_head q = None" "rq_nodes q = Map.empty" "rq_tail q = None"
    by (auto simp: rq_list_def elim: rq_seg.cases)
  with True show ?thesis by (simp add: rq_list_def rq_push_def Let_def)
next
  case False
  define t where "t = fst (last ps)"
  have tail: "rq_tail q = Some t" and dom: "dom (rq_nodes q) = fst ` set ps"
    and lt: "\<forall>a \<in> fst ` set ps. a < rq_fresh q" and seg: "rq_seg (rq_nodes q) (rq_head q) ps"
    and srt: "sorted_wrt (<) (map fst ps)"
    using assms False by (auto simp: rq_list_def t_def)
  have t: "t \<in> fst ` set ps" using False by (simp add: t_def)
  with lt have fresh: "t \<noteq> rq_fresh q" by blast
  have nx: "rq_nodes q t = Some (snd (last ps), None)"
    using rq_seg_last [OF seg False] by (simp add: t_def)
  define nodes' where "nodes' = (rq_nodes q)(rq_fresh q \<mapsto> (req, None), t \<mapsto> (snd (last ps), Some (rq_fresh q)))"
  have q': "rq_push req q = q\<lparr>rq_nodes := nodes', rq_tail := Some (rq_fresh q), rq_fresh := Suc (rq_fresh q)\<rparr>"
    using fresh nx by (simp add: rq_push_def tail nodes'_def Let_def)
  have "rq_seg nodes' (rq_head q) (ps @ [(rq_fresh q, req)])"
    using False srt lt t fresh
    by (intro rq_seg_snoc [OF seg]) (auto simp: nodes'_def t_def strict_sorted_iff)
  moreover have "sorted_wrt (<) (map fst (ps @ [(rq_fresh q, req)]))"
    using srt lt by (auto simp: sorted_wrt_append)
  moreover have "dom nodes' = fst ` set (ps @ [(rq_fresh q, req)])"
    using dom t by (auto simp: nodes'_def)
  ultimately show ?thesis using lt by (auto simp: rq_list_def q' less_Suc_eq)
qed

lemma rq_list_pop:
  assumes "rq_list q ((a, r) # ps)"
  shows "fst (rq_pop q) = Some r \<and> rq_list (snd (rq_pop q)) ps"
proof -
  from assms obtain nx where h: "rq_head q = Some a" "rq_nodes q a = Some (r, nx)" "rq_seg (rq_nodes q) nx ps"
    by (auto simp: rq_list_def)
  have a: "a \<notin> fst ` set ps" using assms by (force simp: rq_list_def)
  then have "rq_seg ((rq_nodes q)(a := None)) nx ps"
    by (intro rq_seg_other [OF h(3)]) auto
  moreover have "dom ((rq_nodes q)(a := None)) = fst ` set ps"
    using assms a by (auto simp: rq_list_def)
  moreover have "nx = None \<longleftrightarrow> ps = []" using h(3) by (cases nx) auto
  ultimately show ?thesis using assms by (auto simp: rq_pop_def h(1,2) rq_list_def)
qed

lemma rq_list_empty: "rq_list q [] \<Longrightarrow> rq_pop q = (None, q)"
  by (simp add: rq_list_def rq_pop_def)

lemma rq_head_None:
  assumes "rq_inv q"
  shows "rq_head q = None \<longleftrightarrow> rq_contents q = []"
proof -
  from assms obtain ps where ps: "rq_list q ps" by (auto simp: rq_inv_def)
  then show ?thesis using rq_list_contents [OF ps] by (cases "rq_head q") (auto simp: rq_list_def)
qed

interpretation rq: fifo_queue rq_inv rq_contents rq_push rq_pop
proof
  fix q x xs and req :: env_request
  assume "rq_inv q"
  then obtain ps where ps: "rq_list q ps" by (auto simp: rq_inv_def)
  note c = rq_list_contents [OF ps]
  show "rq_inv (rq_push req q)" using rq_list_push [OF ps] by (auto simp: rq_inv_def)
  show "rq_contents (rq_push req q) = rq_contents q @ [req]"
    using rq_list_contents [OF rq_list_push [OF ps]] c by simp
  show "rq_inv (snd (rq_pop q))"
    using ps rq_list_empty [of q] rq_list_pop [of q] unfolding rq_inv_def by (cases ps) fastforce+
  { assume "rq_contents q = []"
    with ps c show "rq_pop q = (None, q)" by (simp add: rq_list_empty) }
  { assume "rq_contents q = x # xs"
    with c obtain a ps' where "ps = (a, x) # ps'" "xs = map snd ps'" by auto
    with ps rq_list_pop [of q a x ps'] rq_list_contents [of "snd (rq_pop q)" ps']
    show "fst (rq_pop q) = Some x \<and> rq_contents (snd (rq_pop q)) = xs" by simp }
qed

lemma rq_inv_init: "rq_inv rq_init" and rq_contents_init [simp]: "rq_contents rq_init = []"
  by (auto simp: rq_inv_def rq_list_def rq_init_def rq_contents_def)

text \<open>The loop that frees the requests leaves none allocated.\<close>

lemma rq_free_loop_seg:
  "rq_seg nodes p ps \<Longrightarrow> length ps \<le> k \<Longrightarrow> distinct (map fst ps) \<Longrightarrow>
   dom (rq_free_loop k nodes p) = dom nodes - fst ` set ps"
proof (induction ps arbitrary: nodes p k)
  case Nil
  then show ?case by (cases k; cases p) auto
next
  case (Cons x ps)
  obtain a r where x: "x = (a, r)" by (cases x)
  with Cons.prems obtain nx k' where n: "p = Some a" "nodes a = Some (r, nx)" "rq_seg nodes nx ps" "k = Suc k'"
    by (cases k) auto
  have "rq_seg (nodes(a := None)) nx ps"
    using Cons.prems(3) x by (intro rq_seg_other [OF n(3)]) auto
  moreover have "length ps \<le> k'" "distinct (map fst ps)" using Cons.prems x n by simp_all
  ultimately have "dom (rq_free_loop k' (nodes(a := None)) nx) = dom (nodes(a := None)) - fst ` set ps"
    by (rule Cons.IH)
  then have "dom (rq_free_loop k' (nodes(a := None)) nx) = dom nodes - {a} - fst ` set ps" by (simp only: dom_fun_upd) simp
  then show ?case using x n by auto
qed

lemma rq_free_all:
  assumes "rq_inv q"
  shows "rq_nodes (rq_free q) = Map.empty"
proof -
  from assms obtain ps where ps: "rq_list q ps" by (auto simp: rq_inv_def)
  then have "dom (rq_free_loop (rq_fresh q) (rq_nodes q) (rq_head q)) = dom (rq_nodes q) - fst ` set ps"
    using sorted_below_length [of "map fst ps" "rq_fresh q"]
    by (intro rq_free_loop_seg) (auto simp: rq_list_def strict_sorted_iff)
  with ps show ?thesis by (simp add: rq_free_def rq_list_def)
qed

section \<open>Properties\<close>

text \<open>
  Property C18.  The linked queue of an environment is first in, first out: after any interleaving of
  submissions and removals from the empty queue the requests removed and the requests still linked
  are, in order, the ones submitted; the tail pointer never dangles, and freeing the queue at the end
  frees every node that is still allocated.
\<close>

theorem request_queue_fifo:
  "\<exists>out q. queue_run rq_push rq_pop ops rq_init = (out, q) \<and> out @ rq_contents q = pushed ops \<and>
     (rq_head q = None \<longleftrightarrow> rq_contents q = []) \<and>
     (\<forall>t. rq_tail q = Some t \<longrightarrow> (\<exists>r. rq_nodes q t = Some (r, None))) \<and>
     rq_nodes (rq_free q) = Map.empty"
proof -
  obtain out q where run: "queue_run rq_push rq_pop ops rq_init = (out, q)" by fastforce
  from rq.run_fifo [OF rq_inv_init run] have q: "rq_inv q" "out @ rq_contents q = pushed ops" by simp_all
  from q(1) obtain ps where ps: "rq_list q ps" by (auto simp: rq_inv_def)
  have "rq_head q = None \<longleftrightarrow> rq_contents q = []" using q(1) by (rule rq_head_None)
  moreover have "\<exists>r. rq_nodes q (fst (last ps)) = Some (r, None)" if "ps \<noteq> []"
    using ps that rq_seg_last [of "rq_nodes q" "rq_head q" ps] by (simp add: rq_list_def)
  ultimately show ?thesis
    using run q(2) rq_free_all [OF q(1)] ps by (auto simp: rq_list_def)
qed

theorem request_queue_fifo_witness:
  "\<exists>out q. queue_run rq_push rq_pop
       [Push \<lparr>rq_request_id = Some ''1'', rq_type = ''eval'', rq_code = Some ''1+1'', rq_filename = None, rq_path = None\<rparr>,
        Push \<lparr>rq_request_id = Some ''2'', rq_type = ''eval_file'', rq_code = None, rq_filename = None, rq_path = Some ''a.js''\<rparr>,
        Pop] rq_init = (out, q) \<and> map rq_request_id (out @ rq_contents q) = [Some ''1'', Some ''2'']"
  using request_queue_fifo [of "[Push \<lparr>rq_request_id = Some ''1'', rq_type = ''eval'', rq_code = Some ''1+1'', rq_filename = None, rq_path = None\<rparr>,
        Push \<lparr>rq_request_id = Some ''2'', rq_type = ''eval_file'', rq_code = None, rq_filename = None, rq_path = Some ''a.js''\<rparr>,
        Pop]"] by (force simp del: queue_run.simps map_append)

end
