(* ===== verification/Engine.thy ===== *)
theory Engine
  imports Polyfill Request_Queue
begin

text \<open>
  The JavaScript engine as the environments see it.  The engine (vendored under \<^verbatim>\<open>src/quickjs\<close>) is a
  parameter: a value of type \<open>('v, 'h) engine\<close> says what each engine function the code calls does with a heap
  \<open>'h\<close>, which stands for a \<^verbatim>\<open>JSRuntime\<close> with its context, job queue and pending exception.  Running
  JavaScript can call back into the native functions, so an evaluation is a tree of interactions, a \<open>script\<close>:
  it either ends with a value (\<open>None\<close> for an exception) and a heap, or calls a native function and continues
  with the answer.  A script is a finite tree along every branch: code that never returns is outside the model.
  The stack limit of the engine is not part of the heap; which thread's stack it was last told of is a
  field of the environment.  Values that a native function creates and frees itself are not counted.

  The rest of what is outside the program is a \<open>host_world\<close>: successive readings of the clock, the outcome
  of each \<^verbatim>\<open>pthread_create\<close> and \<^verbatim>\<open>calloc\<close>, libcurl, the file system, SHA-256, and what the other threads do
  between two steps of an environment's thread.  The entries that vary over time are indexed by the number of
  such questions the environment has asked so far.
\<close>

section \<open>Scripts\<close>

datatype 'v host_call =
    Call_setTimeout "'v list"
  | Call_setInterval "'v list"
  | Call_clearTimeout "'v list"
  | Call_clearInterval "'v list"
  | Call_fetch "'v list"
  | Call_cqjs_send "'v list"

type_synonym 'v host_answer = "js_result + 'v"

datatype ('v, 'h) script =
    ScriptEnd "'v option" 'h
  | HostCall "'v host_call" 'h "'v host_answer \<Rightarrow> 'h \<Rightarrow> ('v, 'h) script"

section \<open>The engine\<close>

text \<open>
  \<open>en_eval code filename compile_only\<close> is \<^verbatim>\<open>JS_Eval\<close>, \<open>en_call f\<close> is \<^verbatim>\<open>JS_Call\<close> of a function without
  arguments, \<open>en_job\<close> takes the first pending job (\<^verbatim>\<open>JS_ExecutePendingJob\<close>).  Settling a promise only queues
  its reactions as jobs, so \<open>en_settle\<close> is a function of the heap.  The conversions of \<open>en_api\<close> may read the
  heap.  \<open>en_tm_ptr\<close> and \<open>en_fm_ptr\<close> say whether the hidden global properties still hold the manager pointers.
\<close>

record ('v, 'h) engine =
  en_eval :: "string \<Rightarrow> string \<Rightarrow> bool \<Rightarrow> 'h \<Rightarrow> ('v, 'h) script"
  en_eval_function :: "'v \<Rightarrow> 'h \<Rightarrow> ('v, 'h) script"
  en_call :: "'v \<Rightarrow> 'h \<Rightarrow> ('v, 'h) script"
  en_job :: "'h \<Rightarrow> ('v, 'h) script option"
  en_settle :: "'v \<Rightarrow> settle_arg \<Rightarrow> 'h \<Rightarrow> 'h"
  en_new_promise :: "'h \<Rightarrow> ('v \<times> 'v \<times> 'v) \<times> 'h"
  en_exception :: "'h \<Rightarrow> 'v \<times> 'h"
  en_write_object :: "'v \<Rightarrow> 'h \<Rightarrow> byte list option"
  en_read_object :: "byte list \<Rightarrow> 'h \<Rightarrow> 'v option \<times> 'h"
  en_parse_json :: "string \<Rightarrow> 'h \<Rightarrow> 'v option \<times> 'h"
  en_api :: "'h \<Rightarrow> 'v js_api"
  en_dup :: "'v \<Rightarrow> 'h \<Rightarrow> 'h"
  en_free :: "'v \<Rightarrow> 'h \<Rightarrow> 'h"
  en_tm_ptr :: "'h \<Rightarrow> bool"
  en_fm_ptr :: "'h \<Rightarrow> bool"
  en_new_runtime :: "nat \<Rightarrow> bool"
  en_new_context :: "int option \<Rightarrow> int \<Rightarrow> nat \<Rightarrow> 'h option"

section \<open>The world\<close>

text \<open>The steps of the fetch threads that another thread can see.\<close>

datatype worker_event = Completes nat | Notifies nat

record host_world =
  w_clock_ns :: "nat \<Rightarrow> nat"
  w_now_ms :: "nat \<Rightarrow> int"
  w_thread_ok :: "nat \<Rightarrow> bool"
  w_calloc_ok :: "nat \<Rightarrow> bool"
  w_malloc_ok :: "nat \<Rightarrow> bool"
  w_curl :: "curl_opt list \<Rightarrow> curl_transfer option"
  w_workers :: "nat \<Rightarrow> worker_event list"
  w_arrivals :: "nat \<Rightarrow> env_request list"
  w_fopen :: "string \<Rightarrow> (int \<times> string) option"
  w_sha256 :: "(byte list \<Rightarrow> byte list) option"

text \<open>\<^verbatim>\<open>clock_gettime\<close> delivers normalised times.\<close>

definition clock_gettime :: "(nat \<Rightarrow> nat) \<Rightarrow> nat \<Rightarrow> timespec" where
  "clock_gettime ns k = \<lparr>tv_sec = int (ns k div 1000000000), tv_nsec = int (ns k mod 1000000000)\<rparr>"

fun run_worker :: "(curl_opt list \<Rightarrow> curl_transfer option) \<Rightarrow> worker_event \<Rightarrow> 'v fetch_manager \<Rightarrow> 'v fetch_manager" where
  "run_worker curl (Completes a) fm =
     (if map_of (fm_threads fm) a = Some Transfer then
        (case List.find (\<lambda>e. fe_addr e = a) (fm_head fm) of
           None \<Rightarrow> fm
         | Some e \<Rightarrow>
             (case fetch_worker_wrapper curl e of
                None \<Rightarrow> fm
              | Some e' \<Rightarrow> fm\<lparr>fm_head := update_addr a (\<lambda>_. e') (fm_head fm),
                             fm_threads := AList.update a Notifying (fm_threads fm)\<rparr>))
      else fm)"
| "run_worker curl (Notifies a) fm =
     (if map_of (fm_threads fm) a = Some Notifying
      then fm\<lparr>fm_pipe := Suc (fm_pipe fm), fm_threads := AList.update a Finished (fm_threads fm)\<rparr>
      else fm)"

definition run_workers :: "(curl_opt list \<Rightarrow> curl_transfer option) \<Rightarrow> worker_event list \<Rightarrow> 'v fetch_manager \<Rightarrow> 'v fetch_manager" where
  "run_workers curl evs fm = fold (run_worker curl) evs fm"

section \<open>Lemmas\<close>

lemma clock_gettime_wf [simp]: "wf_timespec (clock_gettime ns k)"
  by (simp add: clock_gettime_def wf_timespec_def)

lemma time_ns_clock [simp]: "time_ns (clock_gettime ns k) = int (ns k)"
proof -
  have "int (ns k div 1000000000) * 1000000000 + int (ns k mod 1000000000) = int (ns k div 1000000000 * 1000000000 + ns k mod 1000000000)"
    by (simp only: of_nat_add of_nat_mult of_nat_numeral)
  then show ?thesis by (simp only: clock_gettime_def time_ns_def timespec.simps div_mult_mod_eq)
qed

lemma run_worker_step: "worker_steps curl fm0 fm \<Longrightarrow> worker_steps curl fm0 (run_worker curl ev fm)"
proof (cases ev)
  case (Completes a)
  assume fm: "worker_steps curl fm0 fm"
  show ?thesis
  proof (cases "List.find (\<lambda>e. fe_addr e = a) (fm_head fm)")
    case (Some e)
    then have "e \<in> set (fm_head fm)" "fe_addr e = a"
      by (auto simp: find_Some_iff in_set_conv_nth)
    with fm Some Completes show ?thesis
      by (auto intro: workers_complete split: option.splits)
  qed (use fm Completes in simp)
qed (auto intro: workers_notify)

lemma run_workers_steps: "worker_steps curl fm (run_workers curl evs fm)"
proof -
  have "worker_steps curl fm0 fm1 \<Longrightarrow> worker_steps curl fm0 (fold (run_worker curl) evs fm1)" for fm0 fm1 :: "'a fetch_manager"
    by (induction evs arbitrary: fm1) (auto intro: run_worker_step)
  then show ?thesis by (simp add: run_workers_def workers_refl)
qed

end
