(* ===== verification/Dispatch.thy ===== *)
theory Dispatch
  imports Prelude
begin

text \<open>
  The dispatch tracker of \<^verbatim>\<open>src/cqjs.c\<close>: a growing array of pending requests, each found by its
  id \<^verbatim>\<open>d_N\<close>.  The array is the list of its first \<^verbatim>\<open>count\<close> elements (the code never stores a null
  pointer in it) and its capacity is kept beside it, so that a store past the allocation is an
  outcome of the model.  The tracker is shown to implement an abstract table of requests, stated
  as the locale \<open>request_table\<close>.
\<close>

section \<open>State\<close>

record dispatch_entry =
  de_id :: string
  de_value :: "string option"
  de_error :: "string option"
  de_completed :: bool
  de_signals :: nat

record dispatch_tracker =
  dt_entries :: "dispatch_entry list"
  dt_capacity :: nat
  dt_counter :: int

section \<open>Operations\<close>

definition dt_init :: dispatch_tracker where
  "dt_init = \<lparr>dt_entries = [], dt_capacity = 16, dt_counter = 0\<rparr>"

text \<open>\<open>None\<close> is the store beyond the end of the array.\<close>

definition dt_new_request :: "dispatch_tracker \<Rightarrow> (string \<times> dispatch_tracker) option" where
  "dt_new_request dt =
     (let n = dt_counter dt + 1;
          cap = (if dt_capacity dt \<le> length (dt_entries dt) then dt_capacity dt * 2 else dt_capacity dt);
          id_str = snprintf 32 (''d_'' @ dec_int n);
          entry = \<lparr>de_id = id_str, de_value = None, de_error = None, de_completed = False, de_signals = 0\<rparr>
      in if length (dt_entries dt) < cap
         then Some (id_str, \<lparr>dt_entries = dt_entries dt @ [entry], dt_capacity = cap, dt_counter = n\<rparr>)
         else None)"

text \<open>The search returns the position of the entry.\<close>

fun find_entry :: "dispatch_entry list \<Rightarrow> string \<Rightarrow> nat option" where
  "find_entry [] ident = None"
| "find_entry (e # es) ident = (if de_id e = ident then Some 0 else map_option Suc (find_entry es ident))"

definition dt_find :: "dispatch_tracker \<Rightarrow> string \<Rightarrow> nat option" where
  "dt_find dt ident = find_entry (dt_entries dt) ident"

definition dt_resolve :: "dispatch_tracker \<Rightarrow> string \<Rightarrow> string option \<Rightarrow> dispatch_tracker" where
  "dt_resolve dt ident value =
     (case dt_find dt ident of
        None \<Rightarrow> dt
      | Some i \<Rightarrow> dt\<lparr>dt_entries := (dt_entries dt)[i := (dt_entries dt ! i)
          \<lparr>de_value := value, de_completed := True, de_signals := Suc (de_signals (dt_entries dt ! i))\<rparr>]\<rparr>)"

definition dt_reject :: "dispatch_tracker \<Rightarrow> string \<Rightarrow> string option \<Rightarrow> dispatch_tracker" where
  "dt_reject dt ident error =
     (case dt_find dt ident of
        None \<Rightarrow> dt
      | Some i \<Rightarrow> dt\<lparr>dt_entries := (dt_entries dt)[i := (dt_entries dt ! i)
          \<lparr>de_error := Some (case error of None \<Rightarrow> ''unknown dispatch error'' | Some e \<Rightarrow> e),
           de_completed := True, de_signals := Suc (de_signals (dt_entries dt ! i))\<rparr>]\<rparr>)"

definition dt_remove :: "dispatch_tracker \<Rightarrow> string \<Rightarrow> dispatch_tracker" where
  "dt_remove dt ident =
     (case find_entry (dt_entries dt) ident of
        None \<Rightarrow> dt
      | Some i \<Rightarrow> dt\<lparr>dt_entries := remove_at i (dt_entries dt)\<rparr>)"

definition dt_free :: "dispatch_tracker \<Rightarrow> dispatch_tracker" where
  "dt_free dt = dt\<lparr>dt_entries := [], dt_capacity := 0\<rparr>"

section \<open>The abstract table of requests\<close>

text \<open>What a request holds: its value, its error and whether it is completed.\<close>

type_synonym request = "string option \<times> string option \<times> bool"

definition request_resolved :: "string option \<Rightarrow> request \<Rightarrow> request" where
  "request_resolved v r = (case r of (v0, e, c) \<Rightarrow> (v, e, True))"

definition request_rejected :: "string option \<Rightarrow> request \<Rightarrow> request" where
  "request_rejected m r =
     (case r of (v, e, c) \<Rightarrow> (v, Some (case m of None \<Rightarrow> ''unknown dispatch error'' | Some x \<Rightarrow> x), True))"

datatype tracker_op =
    Issue
  | Resolve string "string option"
  | Reject string "string option"
  | Remove string

primrec op_target :: "tracker_op \<Rightarrow> string option" where
  "op_target Issue = None"
| "op_target (Resolve i v) = Some i"
| "op_target (Reject i v) = Some i"
| "op_target (Remove i) = Some i"

locale request_table =
  fixes inv :: "'s \<Rightarrow> bool" and room :: "'s \<Rightarrow> nat" and lookup :: "'s \<Rightarrow> string \<Rightarrow> request option"
    and issue :: "'s \<Rightarrow> (string \<times> 's) option"
    and resolve reject :: "'s \<Rightarrow> string \<Rightarrow> string option \<Rightarrow> 's"
    and remove :: "'s \<Rightarrow> string \<Rightarrow> 's"
  assumes issue_law: "inv s \<Longrightarrow> 0 < room s \<Longrightarrow> \<exists>i s'. issue s = Some (i, s') \<and> inv s' \<and>
        Suc (room s') = room s \<and> lookup s i = None \<and> lookup s' = (lookup s)(i \<mapsto> (None, None, False))"
    and resolve_law: "inv s \<Longrightarrow> inv (resolve s i v) \<and> room (resolve s i v) = room s \<and>
        lookup (resolve s i v) = (lookup s)(i := map_option (request_resolved v) (lookup s i))"
    and reject_law: "inv s \<Longrightarrow> inv (reject s i v) \<and> room (reject s i v) = room s \<and>
        lookup (reject s i v) = (lookup s)(i := map_option (request_rejected v) (lookup s i))"
    and remove_law: "inv s \<Longrightarrow> inv (remove s i) \<and> room (remove s i) = room s \<and>
        lookup (remove s i) = (lookup s)(i := None)"
begin

fun step :: "tracker_op \<Rightarrow> 's \<Rightarrow> 's option" where
  "step Issue s = map_option snd (issue s)"
| "step (Resolve i v) s = Some (resolve s i v)"
| "step (Reject i v) s = Some (reject s i v)"
| "step (Remove i) s = Some (remove s i)"

fun run :: "tracker_op list \<Rightarrow> 's \<Rightarrow> 's option" where
  "run [] s = Some s"
| "run (c # cs) s = Option.bind (step c s) (run cs)"

lemma step_law:
  assumes "inv s" and "c = Issue \<Longrightarrow> 0 < room s"
  shows "\<exists>s'. step c s = Some s' \<and> inv s' \<and> room s = room s' + (if c = Issue then 1 else 0) \<and>
     (\<forall>i. lookup s i \<noteq> None \<longrightarrow> op_target c \<noteq> Some i \<longrightarrow> lookup s' i = lookup s i)"
proof (cases c)
  case Issue
  with issue_law [OF assms(1)] assms(2) show ?thesis by force
next
  case (Resolve i v)
  with resolve_law [OF assms(1)] show ?thesis by simp
next
  case (Reject i v)
  with reject_law [OF assms(1)] show ?thesis by simp
next
  case (Remove i)
  with remove_law [OF assms(1)] show ?thesis by simp
qed

lemma run_keeps:
  assumes "inv s" and "lookup s i = Some r" and "\<forall>c \<in> set cs. op_target c \<noteq> Some i"
    and "count_list cs Issue \<le> room s"
  shows "\<exists>s'. run cs s = Some s' \<and> inv s' \<and> lookup s' i = Some r"
  using assms
proof (induction cs arbitrary: s)
  case (Cons c cs)
  have "c = Issue \<Longrightarrow> 0 < room s" using Cons.prems(4) by auto
  from step_law [OF Cons.prems(1) this] obtain s' where
    s': "step c s = Some s'" "inv s'" "room s = room s' + (if c = Issue then 1 else 0)"
    "\<forall>i. lookup s i \<noteq> None \<longrightarrow> op_target c \<noteq> Some i \<longrightarrow> lookup s' i = lookup s i" by blast
  have "lookup s i \<noteq> None" "op_target c \<noteq> Some i" using Cons.prems(2,3) by simp_all
  with s'(4) Cons.prems(2) have "lookup s' i = Some r" by metis
  moreover have "count_list cs Issue \<le> room s'" using s'(3) Cons.prems(4) by (simp split: if_splits)
  ultimately show ?case using Cons.IH [OF s'(2)] Cons.prems(3) s'(1) by simp
qed simp

text \<open>A request that was issued is still there, as the operation on it finds it, after any others.\<close>

lemma settle_after:
  assumes "inv s" and "issue s = Some (i, s1)" and "\<forall>c \<in> set cs. op_target c \<noteq> Some i"
    and "count_list cs Issue < room s"
  shows "\<exists>s2. run cs s1 = Some s2 \<and> inv s2 \<and> lookup s2 i = Some (None, None, False) \<and>
     lookup (resolve s2 i v) i = Some (v, None, True) \<and>
     lookup (reject s2 i m) i = Some (None, Some (case m of None \<Rightarrow> ''unknown dispatch error'' | Some x \<Rightarrow> x), True)"
proof -
  have s1: "inv s1" "lookup s1 i = Some (None, None, False)" "count_list cs Issue \<le> room s1"
    using issue_law [OF assms(1)] assms(2,4) by auto
  from run_keeps [OF s1(1,2) assms(3) s1(3)] show ?thesis
    using resolve_law reject_law by (fastforce simp: request_resolved_def request_rejected_def)
qed

end

section \<open>The tracker implements the table\<close>

definition dt_inv :: "dispatch_tracker \<Rightarrow> bool" where
  "dt_inv dt \<longleftrightarrow>
     length (dt_entries dt) \<le> dt_capacity dt \<and> 0 < dt_capacity dt \<and> 0 \<le> dt_counter dt \<and>
     distinct (map de_id (dt_entries dt)) \<and>
     (\<forall>e \<in> set (dt_entries dt). \<exists>k. 0 < k \<and> k \<le> dt_counter dt \<and> de_id e = snprintf 32 (''d_'' @ dec_int k))"

text \<open>The counter is a 64-bit integer: how many more requests it can number.\<close>

definition dt_room :: "dispatch_tracker \<Rightarrow> nat" where
  "dt_room dt = nat (2 ^ 63 - 1 - dt_counter dt)"

definition entry_request :: "dispatch_entry \<Rightarrow> request" where
  "entry_request e = (de_value e, de_error e, de_completed e)"

definition dt_abs :: "dispatch_tracker \<Rightarrow> string \<Rightarrow> request option" where
  "dt_abs dt ident = map_option (\<lambda>i. entry_request (dt_entries dt ! i)) (dt_find dt ident)"

lemma find_entry_Some:
  "find_entry es ident = Some i \<Longrightarrow> i < length es \<and> de_id (es ! i) = ident"
  by (induction es arbitrary: i) (auto split: if_splits)

lemma find_entry_None: "find_entry es ident = None \<longleftrightarrow> ident \<notin> de_id ` set es"
  by (induction es) auto

lemma find_entry_snoc:
  "find_entry (es @ [e]) ident =
     (case find_entry es ident of Some i \<Rightarrow> Some i
      | None \<Rightarrow> if de_id e = ident then Some (length es) else None)"
  by (induction es) (auto split: option.splits)

lemma find_entry_update:
  "de_id e = de_id (es ! i) \<Longrightarrow> find_entry (es[i := e]) ident = find_entry es ident"
  by (induction es arbitrary: i) (auto split: nat.splits)

lemma find_entry_unique:
  assumes "distinct (map de_id es)" and "i < length es"
  shows "find_entry es (de_id (es ! i)) = Some i"
  using assms by (induction es arbitrary: i) (auto simp: nth_Cons split: nat.splits)

lemma dec_nat_length: "n < 10 ^ k \<Longrightarrow> 0 < k \<Longrightarrow> length (dec_nat n) \<le> k"
proof (induction k arbitrary: n)
  case (Suc k)
  show ?case
  proof (cases "n < 10")
    case True
    then show ?thesis by (subst dec_nat.simps) simp
  next
    case False
    then have "n div 10 < 10 ^ k" "0 < k" using Suc.prems by (auto intro: gr0I)
    from Suc.IH [OF this] False show ?thesis by (subst dec_nat.simps) simp
  qed
qed simp

lemma request_id_fits: "0 \<le> k \<Longrightarrow> k < 2 ^ 63 \<Longrightarrow> snprintf 32 (''d_'' @ dec_int k) = ''d_'' @ dec_nat (nat k)"
proof -
  assume "0 \<le> k" "k < 2 ^ 63"
  then have "nat k < 10 ^ 19" by (simp add: nat_less_iff)
  then have "length (dec_nat (nat k)) \<le> 19" by (rule dec_nat_length) simp
  with \<open>0 \<le> k\<close> show ?thesis by (simp add: snprintf_def dec_int_def)
qed

lemma dt_new_request_law:
  assumes inv: "dt_inv dt" and room: "0 < dt_room dt"
  shows "\<exists>i dt'. dt_new_request dt = Some (i, dt') \<and> dt_inv dt' \<and> Suc (dt_room dt') = dt_room dt \<and>
     dt_abs dt i = None \<and> dt_abs dt' = (dt_abs dt)(i \<mapsto> (None, None, False))"
proof -
  let ?n = "dt_counter dt + 1"
  let ?id = "snprintf 32 (''d_'' @ dec_int ?n)"
  let ?e = "\<lparr>de_id = ?id, de_value = None, de_error = None, de_completed = False, de_signals = 0\<rparr>"
  have c: "0 \<le> dt_counter dt" "dt_counter dt < 2 ^ 63 - 1"
    using inv room by (auto simp: dt_inv_def dt_room_def)
  have fresh: "?id \<notin> de_id ` set (dt_entries dt)"
  proof
    assume "?id \<in> de_id ` set (dt_entries dt)"
    then obtain k where "0 < k" "k \<le> dt_counter dt" "?id = snprintf 32 (''d_'' @ dec_int k)"
      using inv unfolding dt_inv_def by auto
    with c request_id_fits [of ?n] request_id_fits [of k] have "dec_nat (nat ?n) = dec_nat (nat k)" by simp
    with c \<open>0 < k\<close> \<open>k \<le> dt_counter dt\<close> show False by (simp add: dec_nat_inj eq_nat_nat_iff)
  qed
  define cap where "cap = (if dt_capacity dt \<le> length (dt_entries dt) then dt_capacity dt * 2 else dt_capacity dt)"
  have cap: "length (dt_entries dt) < cap" "0 < cap" using inv by (auto simp: dt_inv_def cap_def)
  let ?dt = "\<lparr>dt_entries = dt_entries dt @ [?e], dt_capacity = cap, dt_counter = ?n\<rparr>"
  have "dt_new_request dt = Some (?id, ?dt)"
    using cap by (simp add: dt_new_request_def Let_def flip: cap_def)
  moreover have "dt_inv ?dt"
    using inv c cap fresh unfolding dt_inv_def by (fastforce intro: exI [of _ ?n])
  moreover have "Suc (dt_room ?dt) = dt_room dt" using room by (simp add: dt_room_def)
  moreover have none: "dt_abs dt ?id = None" using fresh by (simp add: dt_abs_def dt_find_def find_entry_None)
  moreover have "dt_abs ?dt = (dt_abs dt)(?id \<mapsto> (None, None, False))"
    using none by (auto simp: dt_abs_def dt_find_def find_entry_snoc entry_request_def nth_append
        fun_eq_iff dest!: find_entry_Some split: option.splits)
  ultimately show ?thesis by blast
qed

lemma dt_update_law:
  assumes inv: "dt_inv dt" and i: "dt_find dt ident = Some i" and e: "de_id e = ident"
    and dt': "dt' = dt\<lparr>dt_entries := (dt_entries dt)[i := e]\<rparr>"
  shows "dt_inv dt' \<and> dt_room dt' = dt_room dt \<and> dt_abs dt' = (dt_abs dt)(ident \<mapsto> entry_request e)"
proof -
  have f: "i < length (dt_entries dt)" "de_id (dt_entries dt ! i) = ident"
    using i find_entry_Some by (simp_all add: dt_find_def)
  then have ids: "map de_id ((dt_entries dt)[i := e]) = map de_id (dt_entries dt)"
    using e by (metis list_update_id map_update nth_map)
  then have "de_id ` set ((dt_entries dt)[i := e]) = de_id ` set (dt_entries dt)"
    by (metis list.set_map)
  with inv ids have "dt_inv dt'" unfolding dt_inv_def dt' by simp (metis imageE image_eqI)
  moreover have "dt_abs dt' x = ((dt_abs dt)(ident \<mapsto> entry_request e)) x" for x
  proof (cases "find_entry (dt_entries dt) x")
    case None
    with f e i show ?thesis by (auto simp: dt_abs_def dt_find_def dt' find_entry_update)
  next
    case (Some j)
    with f e i find_entry_Some [OF Some] show ?thesis
      by (auto simp: dt_abs_def dt_find_def dt' find_entry_update nth_list_update)
  qed
  ultimately show ?thesis by (auto simp: dt' dt_room_def)
qed

lemma dt_resolve_law:
  assumes "dt_inv dt"
  shows "dt_inv (dt_resolve dt i v) \<and> dt_room (dt_resolve dt i v) = dt_room dt \<and>
     dt_abs (dt_resolve dt i v) = (dt_abs dt)(i := map_option (request_resolved v) (dt_abs dt i))"
proof (cases "dt_find dt i")
  case None
  with assms show ?thesis by (auto simp: dt_resolve_def dt_abs_def)
next
  case (Some k)
  then have id: "de_id (dt_entries dt ! k) = i" by (simp add: dt_find_def find_entry_Some)
  show ?thesis
    using dt_update_law [OF assms Some, OF _ refl] id Some
    by (simp add: dt_resolve_def dt_abs_def entry_request_def request_resolved_def)
qed

lemma dt_reject_law:
  assumes "dt_inv dt"
  shows "dt_inv (dt_reject dt i v) \<and> dt_room (dt_reject dt i v) = dt_room dt \<and>
     dt_abs (dt_reject dt i v) = (dt_abs dt)(i := map_option (request_rejected v) (dt_abs dt i))"
proof (cases "dt_find dt i")
  case None
  with assms show ?thesis by (auto simp: dt_reject_def dt_abs_def)
next
  case (Some k)
  then have id: "de_id (dt_entries dt ! k) = i" by (simp add: dt_find_def find_entry_Some)
  show ?thesis
    using dt_update_law [OF assms Some, OF _ refl] id Some
    by (simp add: dt_reject_def dt_abs_def entry_request_def request_rejected_def)
qed

lemma find_entry_nth: "map_option ((!) es) (find_entry es i) = List.find (\<lambda>e. de_id e = i) es"
  by (induction es) (auto simp: option.map_comp comp_def)

lemma find_remove_other:
  "find_entry es i = Some k \<Longrightarrow> x \<noteq> i \<Longrightarrow>
     List.find (\<lambda>e. de_id e = x) (remove_at k es) = List.find (\<lambda>e. de_id e = x) es"
  by (induction es arbitrary: k) (auto split: if_splits simp: find_entry_Some)

lemma dt_abs_find: "dt_abs dt x = map_option entry_request (List.find (\<lambda>e. de_id e = x) (dt_entries dt))"
  by (simp add: dt_abs_def dt_find_def option.map_comp comp_def flip: find_entry_nth)

lemma dt_remove_law:
  assumes inv: "dt_inv dt"
  shows "dt_inv (dt_remove dt i) \<and> dt_room (dt_remove dt i) = dt_room dt \<and>
     dt_abs (dt_remove dt i) = (dt_abs dt)(i := None)"
proof (cases "find_entry (dt_entries dt) i")
  case None
  with assms show ?thesis by (auto simp: dt_remove_def dt_abs_def dt_find_def)
next
  case (Some k)
  let ?es = "dt_entries dt"
  have k: "k < length ?es" "de_id (?es ! k) = i" using find_entry_Some [OF Some] by simp_all
  obtain a e b where ab: "?es = a @ e # b" "length a = k" and r: "remove_at k ?es = a @ b"
    by (rule remove_at_split [OF k(1)])
  then have "de_id e = i" using k(2) by (auto simp: nth_append)
  have i: "i \<notin> de_id ` set (a @ b)" and d: "distinct (map de_id (a @ b))"
    using inv ab \<open>de_id e = i\<close> by (auto simp: dt_inv_def)
  have "dt_inv (dt_remove dt i)"
    using inv d unfolding dt_inv_def dt_remove_def by (simp add: Some r) (simp add: ab(1))
  moreover have "dt_abs (dt_remove dt i) i = None"
    using i by (auto simp: dt_abs_find dt_remove_def Some r find_None_iff)
  moreover have "dt_abs (dt_remove dt i) x = dt_abs dt x" if "x \<noteq> i" for x
    using find_remove_other [OF Some that] by (simp add: dt_abs_find dt_remove_def Some)
  ultimately show ?thesis by (auto simp: dt_remove_def Some dt_room_def)
qed

interpretation dt: request_table dt_inv dt_room dt_abs dt_new_request dt_resolve dt_reject dt_remove
  by unfold_locales (rule dt_new_request_law dt_resolve_law dt_reject_law dt_remove_law, assumption+)+

lemma dt_inv_init: "dt_inv dt_init"
  by (simp add: dt_inv_def dt_init_def)

text \<open>The operations applied in order, as \<open>dt.run\<close> of the interface, on the tracker.\<close>

fun dt_step :: "tracker_op \<Rightarrow> dispatch_tracker \<Rightarrow> dispatch_tracker option" where
  "dt_step Issue dt = map_option snd (dt_new_request dt)"
| "dt_step (Resolve i v) dt = Some (dt_resolve dt i v)"
| "dt_step (Reject i v) dt = Some (dt_reject dt i v)"
| "dt_step (Remove i) dt = Some (dt_remove dt i)"

fun dt_run :: "tracker_op list \<Rightarrow> dispatch_tracker \<Rightarrow> dispatch_tracker option" where
  "dt_run [] dt = Some dt"
| "dt_run (c # cs) dt = Option.bind (dt_step c dt) (dt_run cs)"

lemma dt_step_eq: "dt.step c dt = dt_step c dt"
  by (cases c) simp_all

lemma dt_run_eq: "dt.run cs dt = dt_run cs dt"
  by (induction cs arbitrary: dt) (simp_all add: dt_step_eq fun_eq_iff cong: Option.bind_cong)

section \<open>Correctness\<close>

text \<open>
  Property C31.  The tracker implements a table from ids to requests.  A new request gets an id that
  no stored request has and its store stays within the array, resolving or rejecting changes
  only the request named, and removing it deletes it; each operation keeps the invariant.
\<close>

theorem dispatch_tracker_refines_table:
  assumes "dt_inv dt" and "0 < dt_room dt"
  shows "(\<exists>i dt'. dt_new_request dt = Some (i, dt') \<and> dt_inv dt' \<and> dt_abs dt i = None \<and>
       dt_abs dt' = (dt_abs dt)(i \<mapsto> (None, None, False))) \<and>
     dt_inv (dt_resolve dt ident v) \<and> dt_inv (dt_reject dt ident v) \<and> dt_inv (dt_remove dt ident) \<and>
     dt_abs (dt_resolve dt ident v) = (dt_abs dt)(ident := map_option (request_resolved v) (dt_abs dt ident)) \<and>
     dt_abs (dt_reject dt ident v) = (dt_abs dt)(ident := map_option (request_rejected v) (dt_abs dt ident)) \<and>
     dt_abs (dt_remove dt ident) = (dt_abs dt)(ident := None)"
  using dt_new_request_law [OF assms] dt_resolve_law [OF assms(1)] dt_reject_law [OF assms(1)]
    dt_remove_law [OF assms(1)]
  by blast

theorem dispatch_tracker_refines_table_witness:
  "\<exists>dt1. dt_new_request dt_init = Some (''d_1'', dt1) \<and> dt_abs dt1 ''d_1'' = Some (None, None, False) \<and>
     dt_abs (dt_resolve dt1 ''d_1'' (Some ''7'')) ''d_1'' = Some (Some ''7'', None, True) \<and>
     dt_abs (dt_remove dt1 ''d_1'') ''d_1'' = None"
proof -
  define dt1 where "dt1 = the (map_option snd (dt_new_request dt_init))"
  have n: "dt_new_request dt_init = Some (''d_1'', dt1)" unfolding dt1_def by code_simp
  have "0 < dt_room dt_init" by (simp add: dt_room_def dt_init_def)
  with dispatch_tracker_refines_table [OF dt_inv_init] n have i1: "dt_inv dt1" "dt_abs dt1 ''d_1'' = Some (None, None, False)" by auto
  have "dt_counter dt1 = 1" unfolding dt1_def by code_simp
  then have "0 < dt_room dt1" by (simp add: dt_room_def)
  from dispatch_tracker_refines_table [OF i1(1) this, of "''d_1''" "Some ''7''"] i1(2) n show ?thesis
    by (auto simp: request_resolved_def)
qed

text \<open>
  From a new tracker any operations and then a new request, followed by any operations
  that do not name it, leave the request pending; resolving it then stores the value,
  rejecting it stores the error message (or the default one), and both complete it.
\<close>

theorem dispatch_request_settles:
  assumes "dt_inv dt" and "dt_new_request dt = Some (i, dt1)"
    and "\<forall>c \<in> set cs. op_target c \<noteq> Some i" and "count_list cs Issue < dt_room dt"
  shows "\<exists>dt2. dt_run cs dt1 = Some dt2 \<and> dt_abs dt2 i = Some (None, None, False) \<and>
     dt_abs (dt_resolve dt2 i v) i = Some (v, None, True) \<and>
     dt_abs (dt_reject dt2 i m) i =
       Some (None, Some (case m of None \<Rightarrow> ''unknown dispatch error'' | Some x \<Rightarrow> x), True)"
  using dt.settle_after [OF assms, of v m] by (auto simp: dt_run_eq)

theorem dispatch_request_settles_witness:
  "\<exists>dt1 dt2. dt_new_request dt_init = Some (''d_1'', dt1) \<and>
     dt_run [Issue, Issue, Reject ''d_2'' None, Remove ''d_3''] dt1 = Some dt2 \<and>
     dt_abs (dt_resolve dt2 ''d_1'' (Some ''7'')) ''d_1'' = Some (Some ''7'', None, True)"
proof -
  have n: "dt_new_request dt_init = Some (''d_1'', the (map_option snd (dt_new_request dt_init)))"
    by code_simp
  have "0 < dt_room dt_init" by (simp add: dt_room_def dt_init_def)
  then show ?thesis
    using dispatch_request_settles [OF dt_inv_init n, of "[Issue, Issue, Reject ''d_2'' None, Remove ''d_3'']"
      "Some ''7''" None] n by (auto simp: dt_room_def dt_init_def)
qed

end
