(* ===== verification/Lru_Cache.thy ===== *)
theory Lru_Cache
  imports Prelude
begin

text \<open>
  The interface of a cache with a bounded number of entries that several threads share.  \<open>code_cache\<close> is what an environment relies on:
  what is found was stored.  \<open>lru_cache\<close> is the full contract, with the time of last use of every entry and the eviction
  of an entry that was not used after any other; it implies the first.  From it follows how long an entry that was just used stays
  while other threads look up and insert.  The cache of \<^verbatim>\<open>src/bytecode_cache.c\<close> interprets both.
\<close>

definition INT64_MAX :: int where
  "INT64_MAX = 9223372036854775807"

section \<open>What a client relies on\<close>

text \<open>
  A client stores and finds values by key.  \<open>contents\<close> is what is stored; an entry may
  disappear when another is inserted, but is never changed, and what was just inserted is there.
\<close>

locale code_cache =
  fixes inv :: "'c \<Rightarrow> bool" and contents :: "'c \<Rightarrow> 'k \<Rightarrow> 'b option"
    and lookup :: "'c \<Rightarrow> 'k \<Rightarrow> int \<Rightarrow> 'b option \<times> 'c"
    and insert :: "'c \<Rightarrow> 'k \<Rightarrow> 'b \<Rightarrow> int \<Rightarrow> 'c"
  assumes lookup_law: "inv c \<Longrightarrow> t < INT64_MAX \<Longrightarrow> lookup c h t = (r, c') \<Longrightarrow>
        inv c' \<and> r = contents c h \<and> contents c' = contents c"
    and insert_law: "inv c \<Longrightarrow> t < INT64_MAX \<Longrightarrow> inv (insert c h b t) \<and>
        contents (insert c h b t) h = Some (case contents c h of Some b0 \<Rightarrow> b0 | None \<Rightarrow> b) \<and>
        (\<forall>k. k \<noteq> h \<longrightarrow> contents (insert c h b t) k \<in> {contents c k, None})"
begin

text \<open>A property of all stored pairs survives every operation whose new pair has it.\<close>

definition all_stored :: "('k \<Rightarrow> 'b \<Rightarrow> bool) \<Rightarrow> 'c \<Rightarrow> bool" where
  "all_stored P c \<longleftrightarrow> (\<forall>h b. contents c h = Some b \<longrightarrow> P h b)"

lemma lookup_stored:
  assumes "inv c" and "all_stored P c" and "t < INT64_MAX" and "lookup c h t = (r, c')"
  shows "inv c' \<and> all_stored P c' \<and> (\<forall>b. r = Some b \<longrightarrow> P h b)"
  using lookup_law [OF assms(1,3,4)] assms(2) by (auto simp: all_stored_def)

lemma insert_stored:
  assumes "inv c" and "all_stored P c" and "t < INT64_MAX" and "P h b"
  shows "inv (insert c h b t) \<and> all_stored P (insert c h b t)"
proof -
  have "P k x" if "contents (insert c h b t) k = Some x" for k x
    using insert_law [OF assms(1,3), of h b] that assms(2,4)
    by (cases "k = h") (auto simp: all_stored_def split: option.splits)
  with insert_law [OF assms(1,3), of h b] show ?thesis by (simp add: all_stored_def)
qed

end

section \<open>Eviction of the least recently used entry\<close>

text \<open>The operations of other threads, each at a time.\<close>

datatype ('k, 'b) cache_op = LookupOp 'k int | InsertOp 'k 'b int

primrec op_hash :: "('k, 'b) cache_op \<Rightarrow> 'k" where
  "op_hash (LookupOp h t) = h"
| "op_hash (InsertOp h b t) = h"

primrec op_time :: "('k, 'b) cache_op \<Rightarrow> int" where
  "op_time (LookupOp h t) = t"
| "op_time (InsertOp h b t) = t"

primrec op_inserts :: "('k, 'b) cache_op \<Rightarrow> bool" where
  "op_inserts (LookupOp h t) = False"
| "op_inserts (InsertOp h b t) = True"

primrec do_op ::
    "('c \<Rightarrow> 'k \<Rightarrow> int \<Rightarrow> 'b option \<times> 'c) \<Rightarrow> ('c \<Rightarrow> 'k \<Rightarrow> 'b \<Rightarrow> int \<Rightarrow> 'c) \<Rightarrow> ('k, 'b) cache_op \<Rightarrow> 'c \<Rightarrow> 'c" where
  "do_op look store (LookupOp h t) c = snd (look c h t)"
| "do_op look store (InsertOp h b t) c = store c h b t"

locale lru_cache =
  fixes inv :: "'c \<Rightarrow> bool" and table :: "'c \<Rightarrow> 'k \<Rightarrow> ('b \<times> int) option" and capacity :: "'c \<Rightarrow> int"
    and lookup :: "'c \<Rightarrow> 'k \<Rightarrow> int \<Rightarrow> 'b option \<times> 'c"
    and insert :: "'c \<Rightarrow> 'k \<Rightarrow> 'b \<Rightarrow> int \<Rightarrow> 'c"
  assumes finite_table: "inv c \<Longrightarrow> finite (dom (table c))"
    and table_bound: "inv c \<Longrightarrow> int (card (dom (table c))) \<le> capacity c"
    and lookup_table: "inv c \<Longrightarrow> t < INT64_MAX \<Longrightarrow> lookup c h t = (r, c') \<Longrightarrow>
        inv c' \<and> capacity c' = capacity c \<and> r = map_option fst (table c h) \<and>
        table c' = (table c)(h := map_option (\<lambda>v. (fst v, t)) (table c h))"
    and insert_keeps: "inv c \<Longrightarrow> t < INT64_MAX \<Longrightarrow> inv (insert c h b t) \<and> capacity (insert c h b t) = capacity c"
    and insert_present: "inv c \<Longrightarrow> t < INT64_MAX \<Longrightarrow> table c h = Some v \<Longrightarrow>
        table (insert c h b t) = (table c)(h \<mapsto> (fst v, t))"
    and insert_room: "inv c \<Longrightarrow> t < INT64_MAX \<Longrightarrow> table c h = None \<Longrightarrow> int (card (dom (table c))) < capacity c \<Longrightarrow>
        table (insert c h b t) = (table c)(h \<mapsto> (b, t))"
    and insert_full: "inv c \<Longrightarrow> t < INT64_MAX \<Longrightarrow> table c h = None \<Longrightarrow> int (card (dom (table c))) = capacity c \<Longrightarrow>
        \<exists>k v. table c k = Some v \<and> (\<forall>k' v'. table c k' = Some v' \<longrightarrow> snd v \<le> snd v') \<and>
          table (insert c h b t) = ((table c)(k := None))(h \<mapsto> (b, t))"
begin

text \<open>The three outcomes of an insertion.\<close>

lemma insert_cases:
  assumes "inv c" and "t < INT64_MAX"
  obtains (present) v where "table c h = Some v" "table (insert c h b t) = (table c)(h \<mapsto> (fst v, t))"
    | (room) "table c h = None" "table (insert c h b t) = (table c)(h \<mapsto> (b, t))"
    | (evict) k v where "table c h = None" "int (card (dom (table c))) = capacity c" "table c k = Some v"
        "\<forall>k' v'. table c k' = Some v' \<longrightarrow> snd v \<le> snd v'"
        "table (insert c h b t) = ((table c)(k := None))(h \<mapsto> (b, t))"
proof (cases "table c h")
  case None
  from table_bound [OF assms(1)] consider "int (card (dom (table c))) < capacity c" | "int (card (dom (table c))) = capacity c"
    by linarith
  then show thesis
  proof cases
    case 1
    from None insert_room [OF assms None 1, of b] show thesis by (rule room)
  next
    case 2
    from insert_full [OF assms None 2, of b] None 2 evict show thesis by blast
  qed
next
  case (Some v)
  from Some insert_present [OF assms Some, of b] show thesis by (rule present)
qed

end

text \<open>The full contract gives the one of the clients.\<close>

sublocale lru_cache \<subseteq> code_cache inv "\<lambda>c h. map_option fst (table c h)" lookup insert
proof
  fix c t h r c'
  assume "inv c" "t < INT64_MAX" "lookup c h t = (r, c')"
  from lookup_table [OF this] show "inv c' \<and> r = map_option fst (table c h) \<and>
      (\<lambda>h. map_option fst (table c' h)) = (\<lambda>h. map_option fst (table c h))"
    by (auto simp: fun_eq_iff option.map_comp comp_def)
next
  fix c t h b
  assume a: "inv c" "t < INT64_MAX"
  have "map_option fst (table (insert c h b t) h) = Some (case map_option fst (table c h) of None \<Rightarrow> b | Some b0 \<Rightarrow> b0) \<and>
      (\<forall>k. k \<noteq> h \<longrightarrow> map_option fst (table (insert c h b t) k) \<in> {map_option fst (table c k), None})"
    by (rule insert_cases [OF a, of h b]) auto
  with insert_keeps [OF a, of h b] show "inv (insert c h b t) \<and>
      map_option fst (table (insert c h b t) h) = Some (case map_option fst (table c h) of None \<Rightarrow> b | Some b0 \<Rightarrow> b0) \<and>
      (\<forall>k. k \<noteq> h \<longrightarrow> map_option fst (table (insert c h b t) k) \<in> {map_option fst (table c k), None})" by blast
qed

section \<open>How long an entry stays\<close>

context lru_cache
begin

abbreviation run_op :: "('k, 'b) cache_op \<Rightarrow> 'c \<Rightarrow> 'c" where
  "run_op \<equiv> do_op lookup insert"

lemma run_op_keeps:
  assumes "inv c" and "op_time op < INT64_MAX"
  shows "inv (run_op op c)" and "capacity (run_op op c) = capacity c"
proof -
  have "inv (run_op op c) \<and> capacity (run_op op c) = capacity c"
  proof (cases op)
    case (LookupOp h t)
    obtain r c' where l: "lookup c h t = (r, c')" by (rule prod.exhaust)
    from lookup_table [OF assms(1) _ l] LookupOp l assms(2) show ?thesis by simp
  qed (use assms insert_keeps in simp)
  then show "inv (run_op op c)" "capacity (run_op op c) = capacity c" by simp_all
qed

lemma run_keeps_capacity:
  assumes "inv c" and "\<forall>op \<in> set ops. op_time op < INT64_MAX"
  shows "capacity (fold run_op ops c) = capacity c"
  using assms by (induction ops arbitrary: c) (simp_all add: run_op_keeps)

text \<open>
  The entries not used since time \<open>t\<close> are old; as long as one is left, or the cache is not full, the entry used at \<open>t\<close> stays.
  \<open>used\<close> are the other keys used since.
\<close>

definition in_use :: "'k \<Rightarrow> 'b \<Rightarrow> int \<Rightarrow> 'k set \<Rightarrow> 'c \<Rightarrow> bool" where
  "in_use h b t used c \<longleftrightarrow> inv c \<and> (\<exists>t'. table c h = Some (b, t') \<and> t \<le> t') \<and>
     (\<forall>k v. table c k = Some v \<longrightarrow> k \<noteq> h \<longrightarrow> k \<notin> used \<longrightarrow> snd v < t)"

lemma in_use_step:
  assumes "in_use h b t used c" and "finite used" and "t \<le> op_time op" and "op_time op < INT64_MAX"
    and room: "int (card (Set.insert (op_hash op) used - {h})) < capacity c"
  shows "in_use h b t (Set.insert (op_hash op) used) (run_op op c)"
proof -
  have inv: "inv c" using assms(1) by (simp add: in_use_def)
  obtain t' where h: "table c h = Some (b, t')" "t \<le> t'" using assms(1) by (auto simp: in_use_def)
  have old: "snd v < t" if "table c k = Some v" "k \<noteq> h" "k \<notin> used" for k v
    using assms(1) that by (cases v) (auto simp: in_use_def)
  have inv': "inv (run_op op c)" using inv assms(4) by (rule run_op_keeps)
  show ?thesis
  proof (cases op)
    case (LookupOp x n)
    obtain r c' where l: "lookup c x n = (r, c')" by (rule prod.exhaust)
    from lookup_table [OF inv _ l] assms(3,4) LookupOp l h old show ?thesis by (auto simp: in_use_def)
  next
    case (InsertOp x y n)
    then have n: "n < INT64_MAX" "t \<le> n" using assms(3,4) by simp_all
    from inv n(1) show ?thesis
    proof (cases rule: insert_cases [where h = x and b = y])
      case (evict k v)
      have "k \<noteq> h"
      proof
        assume "k = h"
        with evict(3,4) h old have "dom (table c) - {h} \<subseteq> used" by (fastforce simp: dom_def)
        moreover have x: "x \<notin> dom (table c)" "h \<in> dom (table c)" using evict(1) h by auto
        ultimately have "Set.insert x (dom (table c) - {h}) \<subseteq> Set.insert x used - {h}" by auto
        with assms(2) have "card (Set.insert x (dom (table c) - {h})) \<le> card (Set.insert x used - {h})" by (intro card_mono) auto
        moreover have "0 < card (dom (table c))" using finite_table [OF inv] x(2) by (auto simp: card_gt_0_iff)
        then have "card (Set.insert x (dom (table c) - {h})) = card (dom (table c))" using finite_table [OF inv] x by simp
        ultimately show False using room evict(2) InsertOp by simp
      qed
      moreover have "x \<noteq> h" using evict(1) h by auto
      ultimately show ?thesis using evict(5) h old InsertOp inv' by (auto simp: in_use_def)
    qed (use h old InsertOp inv' n(2) in \<open>auto simp: in_use_def\<close>)
  qed
qed

lemma in_use_run:
  assumes "in_use h b t used c" and "finite used" and "\<forall>op \<in> set ops. t \<le> op_time op \<and> op_time op < INT64_MAX"
    and "int (card (op_hash ` set ops \<union> used - {h})) < capacity c"
  shows "in_use h b t (op_hash ` set ops \<union> used) (fold run_op ops c)"
  using assms
proof (induction ops arbitrary: used c)
  case (Cons op ops)
  have inv: "inv c" using Cons.prems(1) by (simp add: in_use_def)
  have "card (Set.insert (op_hash op) used - {h}) \<le> card (op_hash ` set (op # ops) \<union> used - {h})"
    using Cons.prems(2) by (intro card_mono) auto
  with Cons.prems have "in_use h b t (Set.insert (op_hash op) used) (run_op op c)" by (intro in_use_step) auto
  from Cons.IH [OF this] Cons.prems run_op_keeps(2) [OF inv, of op] show ?case by simp
qed simp

lemma used_entry_stays:
  assumes "inv c" and "t < INT64_MAX" and "lookup c h t = (Some b, c')"
    and "\<forall>k v. table c k = Some v \<longrightarrow> k \<noteq> h \<longrightarrow> snd v < t"
    and "\<forall>op \<in> set ops. t \<le> op_time op \<and> op_time op < INT64_MAX"
    and "int (card (op_hash ` set ops - {h})) < capacity c"
  shows "map_option fst (table (fold run_op ops c') h) = Some b"
proof -
  note l = lookup_table [OF assms(1-3)]
  then have "in_use h b t {} c'" using assms(4) by (cases "table c h") (auto simp: in_use_def)
  from in_use_run [OF this _ assms(5)] l assms(6) show ?thesis by (auto simp: in_use_def)
qed

text \<open>The entry used at time \<open>t\<close> is gone, or all of \<open>used\<close> are in the cache and were used later.\<close>

definition superseded :: "'k \<Rightarrow> int \<Rightarrow> 'k set \<Rightarrow> 'c \<Rightarrow> bool" where
  "superseded h t used c \<longleftrightarrow> inv c \<and>
     (table c h = None \<or> (\<exists>b. table c h = Some (b, t)) \<and> (\<forall>k \<in> used. \<exists>v. table c k = Some v \<and> t < snd v))"

lemma superseded_step:
  assumes "superseded h t used c" and "t < n" and "n < INT64_MAX" and "x \<noteq> h"
  shows "superseded h t (Set.insert x used) (insert c x y n)"
proof -
  have inv: "inv c" using assms(1) by (simp add: superseded_def)
  have inv': "inv (insert c x y n)" using insert_keeps [OF inv assms(3)] by blast
  from inv assms(3) show ?thesis
  proof (cases rule: insert_cases [where h = x and b = y])
    case (evict k v)
    have "k \<notin> used" if "table c h = Some (b, t)" "\<forall>k \<in> used. \<exists>v. table c k = Some v \<and> t < snd v" for b
      using evict(3,4) that by fastforce
    with evict(5) assms inv' show ?thesis by (auto simp: superseded_def)
  qed (use assms inv' in \<open>auto simp: superseded_def\<close>)
qed

lemma superseded_run:
  assumes "superseded h t used c" and "\<forall>op \<in> set ops. op_inserts op \<and> t < op_time op \<and> op_time op < INT64_MAX \<and> op_hash op \<noteq> h"
  shows "superseded h t (op_hash ` set ops \<union> used) (fold run_op ops c)"
  using assms
proof (induction ops arbitrary: used c)
  case (Cons op ops)
  then obtain x y n where "op = InsertOp x y n" by (cases op) auto
  with Cons.prems(2) superseded_step [OF Cons.prems(1), of n x y] have "superseded h t (Set.insert (op_hash op) used) (run_op op c)" by simp
  from Cons.IH [OF this] Cons.prems(2) show ?case by simp
qed simp

lemma used_entry_evicted:
  assumes "inv c" and "t < INT64_MAX" and "lookup c h t = (Some b, c')"
    and "\<forall>op \<in> set ops. op_inserts op \<and> t < op_time op \<and> op_time op < INT64_MAX \<and> op_hash op \<noteq> h"
    and "capacity c \<le> int (card (op_hash ` set ops))"
  shows "table (fold run_op ops c') h = None"
proof (rule ccontr)
  let ?c = "fold run_op ops c'"
  assume present: "table ?c h \<noteq> None"
  note l = lookup_table [OF assms(1-3)]
  then have "superseded h t {} c'" by (cases "table c h") (auto simp: superseded_def)
  from superseded_run [OF this assms(4)] present have inv: "inv ?c" and "op_hash ` set ops \<subseteq> dom (table ?c)"
    by (auto simp: superseded_def dom_def)
  with present assms(4) have sub: "Set.insert h (op_hash ` set ops) \<subseteq> dom (table ?c)" "h \<notin> op_hash ` set ops" by auto
  then have "Suc (card (op_hash ` set ops)) \<le> card (dom (table ?c))" using card_mono [OF finite_table [OF inv] sub(1)] by simp
  moreover have "capacity ?c = capacity c"
    using l assms(4) run_keeps_capacity [of c' ops] by simp
  ultimately show False using table_bound [OF inv] assms(5) by simp
qed

end

end
