(* ===== verification/Bytecode_Cache.thy ===== *)
theory Bytecode_Cache
  imports Lru_Cache
begin

text \<open>
  The shared bytecode cache of \<^verbatim>\<open>src/bytecode_cache.c\<close>: a hash table of chains with
  least-recently-used eviction.  Each operation runs under the cache's lock, so it is one step on
  the state; the value of \<^verbatim>\<open>cqjs_now_ms\<close> during it is its argument \<open>t\<close>.  The SHA-256 function of
  mbedTLS is a parameter.  It interprets the contracts of \<open>Lru_Cache\<close>, on which the environments rely.
\<close>

section \<open>State\<close>

record bytecode_entry =
  be_hash :: string
  be_bytecode :: "byte list"
  be_last_access :: int

record bytecode_cache =
  bc_buckets :: "bytecode_entry list list"
  bc_bucket_count :: int
  bc_entry_count :: int
  bc_max_entries :: int

section \<open>Operations\<close>

definition hash_string :: "string \<Rightarrow> int \<Rightarrow> nat" where
  "hash_string str bucket_count =
     unat (foldl (\<lambda>h c. (push_bit 5 h + h) + word_of_nat (code c)) (5381 :: u32) str
       mod word_of_int bucket_count)"

definition bc_init :: "int \<Rightarrow> bytecode_cache" where
  "bc_init max_entries =
     (let n = (if max_entries * 2 < 64 then 64 else max_entries * 2)
      in \<lparr>bc_buckets = replicate (nat n) [], bc_bucket_count = n, bc_entry_count = 0,
          bc_max_entries = max_entries\<rparr>)"

definition bc_free :: "bytecode_cache \<Rightarrow> bytecode_cache" where
  "bc_free cache = cache\<lparr>bc_buckets := [], bc_entry_count := 0\<rparr>"

text \<open>The walk along a chain, to the position of the entry with the hash.\<close>

fun find_hash :: "bytecode_entry list \<Rightarrow> string \<Rightarrow> nat option" where
  "find_hash [] h = None"
| "find_hash (e # es) h = (if be_hash e = h then Some 0 else map_option Suc (find_hash es h))"

definition touch_entry :: "bytecode_cache \<Rightarrow> nat \<Rightarrow> nat \<Rightarrow> int \<Rightarrow> bytecode_cache" where
  "touch_entry cache idx p t =
     cache\<lparr>bc_buckets := (bc_buckets cache)
       [idx := (bc_buckets cache ! idx)[p := (bc_buckets cache ! idx ! p)\<lparr>be_last_access := t\<rparr>]]\<rparr>"

definition bc_lookup :: "bytecode_cache \<Rightarrow> string \<Rightarrow> int \<Rightarrow> bytecode_entry option \<times> bytecode_cache" where
  "bc_lookup cache h t =
     (let idx = hash_string h (bc_bucket_count cache) in
      case find_hash (bc_buckets cache ! idx) h of
        None \<Rightarrow> (None, cache)
      | Some p \<Rightarrow> (let c' = touch_entry cache idx p t in (Some (bc_buckets c' ! idx ! p), c')))"

text \<open>The two loops of the eviction: the oldest time so far and where its entry is.\<close>

fun evict_chain :: "nat \<Rightarrow> nat \<Rightarrow> bytecode_entry list \<Rightarrow> int \<times> (nat \<times> nat) option \<Rightarrow>
    int \<times> (nat \<times> nat) option" where
  "evict_chain i p [] best = best"
| "evict_chain i p (e # es) best =
     evict_chain i (Suc p) es
       (if be_last_access e < fst best then (be_last_access e, Some (i, p)) else best)"

fun evict_scan :: "nat \<Rightarrow> bytecode_entry list list \<Rightarrow> int \<times> (nat \<times> nat) option \<Rightarrow>
    int \<times> (nat \<times> nat) option" where
  "evict_scan i [] best = best"
| "evict_scan i (ch # chs) best = evict_scan (Suc i) chs (evict_chain i 0 ch best)"

definition bc_evict_lru :: "bytecode_cache \<Rightarrow> bytecode_cache" where
  "bc_evict_lru cache =
     (case snd (evict_scan 0 (bc_buckets cache) (INT64_MAX, None)) of
        None \<Rightarrow> cache
      | Some (i, p) \<Rightarrow>
          cache\<lparr>bc_buckets := (bc_buckets cache)[i := remove_at p (bc_buckets cache ! i)],
                bc_entry_count := bc_entry_count cache - 1\<rparr>)"

definition bc_insert :: "bytecode_cache \<Rightarrow> string \<Rightarrow> byte list \<Rightarrow> int \<Rightarrow> bytecode_cache" where
  "bc_insert cache h bytecode t =
     (let idx = hash_string h (bc_bucket_count cache) in
      case find_hash (bc_buckets cache ! idx) h of
        Some p \<Rightarrow> touch_entry cache idx p t
      | None \<Rightarrow>
          (let c1 = (if bc_max_entries cache \<le> bc_entry_count cache then bc_evict_lru cache else cache);
               entry = \<lparr>be_hash = h, be_bytecode = bytecode, be_last_access = t\<rparr>
           in c1\<lparr>bc_buckets := (bc_buckets c1)[idx := entry # bc_buckets c1 ! idx],
                 bc_entry_count := bc_entry_count c1 + 1\<rparr>))"

text \<open>\<open>md\<close> is the digest function when mbedTLS offers SHA-256.\<close>

definition bc_compute_hash :: "(byte list \<Rightarrow> byte list) option \<Rightarrow> byte list \<Rightarrow> string" where
  "bc_compute_hash md c =
     (let digest = (case md of Some f \<Rightarrow> f c | None \<Rightarrow> replicate 32 0)
      in concat (map (\<lambda>i. hex_02x (unat (digest ! i))) [0..<32]))"

section \<open>Invariant and abstraction\<close>

definition bc_entries :: "bytecode_cache \<Rightarrow> bytecode_entry set" where
  "bc_entries c = \<Union> (set ` set (bc_buckets c))"

definition bc_inv :: "bytecode_cache \<Rightarrow> bool" where
  "bc_inv c \<longleftrightarrow>
     64 \<le> bc_bucket_count c \<and> bc_bucket_count c < 2147483648 \<and>
     length (bc_buckets c) = nat (bc_bucket_count c) \<and>
     (\<forall>i < length (bc_buckets c). distinct (map be_hash (bc_buckets c ! i)) \<and>
        (\<forall>e \<in> set (bc_buckets c ! i). hash_string (be_hash e) (bc_bucket_count c) = i \<and>
           be_last_access e < INT64_MAX)) \<and>
     bc_entry_count c = int (sum_list (map length (bc_buckets c))) \<and>
     1 \<le> bc_max_entries c \<and> bc_entry_count c \<le> bc_max_entries c"

text \<open>The cache as a map from hashes to bytecode with the time of its last use.\<close>

definition bc_abs :: "bytecode_cache \<Rightarrow> string \<Rightarrow> (byte list \<times> int) option" where
  "bc_abs c h =
     (let ch = bc_buckets c ! hash_string h (bc_bucket_count c) in
      map_option (\<lambda>p. (be_bytecode (ch ! p), be_last_access (ch ! p))) (find_hash ch h))"

lemma hash_string_less: "bc_inv c \<Longrightarrow> hash_string h (bc_bucket_count c) < length (bc_buckets c)"
proof -
  assume inv: "bc_inv c"
  let ?n = "bc_bucket_count c"
  let ?w = "foldl (\<lambda>h c. (push_bit 5 h + h) + word_of_nat (code c)) (5381 :: u32) h"
  have "unat (word_of_int ?n :: u32) = nat ?n"
    using inv by (simp add: bc_inv_def unat_eq_nat_uint uint_word_of_int)
  then have "unat (?w mod word_of_int ?n) < nat ?n"
    using inv by (simp add: unat_mod bc_inv_def)
  with inv show ?thesis by (simp add: hash_string_def bc_inv_def)
qed

lemma find_hash_Some: "find_hash es h = Some p \<Longrightarrow> p < length es \<and> be_hash (es ! p) = h"
  by (induction es arbitrary: p) (auto split: if_splits)

lemma find_hash_None: "find_hash es h = None \<longleftrightarrow> h \<notin> be_hash ` set es"
  by (induction es) auto

definition entry_val :: "bytecode_entry \<Rightarrow> byte list \<times> int" where
  "entry_val e = (be_bytecode e, be_last_access e)"

abbreviation chain_find :: "string \<Rightarrow> bytecode_entry list \<Rightarrow> bytecode_entry option" where
  "chain_find k es \<equiv> List.find (\<lambda>e. be_hash e = k) es"

lemma find_hash_nth: "map_option ((!) es) (find_hash es k) = chain_find k es"
  by (induction es) (auto simp: option.map_comp comp_def)

lemma bc_abs_find:
  "bc_abs c k = map_option entry_val (chain_find k (bc_buckets c ! hash_string k (bc_bucket_count c)))"
  by (simp add: bc_abs_def Let_def entry_val_def option.map_comp comp_def flip: find_hash_nth)

lemma chain_find_Some: "chain_find k es = Some e \<Longrightarrow> e \<in> set es \<and> be_hash e = k"
  by (induction es) (auto split: if_splits)

lemma chain_find_unique: "distinct (map be_hash es) \<Longrightarrow> e \<in> set es \<Longrightarrow> chain_find (be_hash e) es = Some e"
  by (induction es) (auto intro: rev_image_eqI)

lemma chain_find_append:
  "chain_find k (a @ b) = (case chain_find k a of None \<Rightarrow> chain_find k b | Some e \<Rightarrow> Some e)"
  by (induction a) auto

lemma chain_find_None: "chain_find k es = None \<longleftrightarrow> k \<notin> be_hash ` set es"
  by (induction es) auto

text \<open>Every entry lies in the chain of its hash.\<close>

lemma chain_facts:
  assumes "bc_inv c" and "i < length (bc_buckets c)"
  shows "distinct (map be_hash (bc_buckets c ! i))"
    and "\<And>e. e \<in> set (bc_buckets c ! i) \<Longrightarrow>
          hash_string (be_hash e) (bc_bucket_count c) = i \<and> be_last_access e < INT64_MAX"
  using assms by (auto simp: bc_inv_def)

lemma bc_entries_iff:
  assumes "bc_inv c"
  shows "e \<in> bc_entries c \<longleftrightarrow> e \<in> set (bc_buckets c ! hash_string (be_hash e) (bc_bucket_count c))"
proof
  assume "e \<in> bc_entries c"
  then obtain i where "i < length (bc_buckets c)" "e \<in> set (bc_buckets c ! i)"
    unfolding bc_entries_def by (metis UN_E in_set_conv_nth)
  with chain_facts(2) [OF assms this] show "e \<in> set (bc_buckets c ! hash_string (be_hash e) (bc_bucket_count c))"
    by simp
next
  assume "e \<in> set (bc_buckets c ! hash_string (be_hash e) (bc_bucket_count c))"
  then show "e \<in> bc_entries c"
    using nth_mem [OF hash_string_less [OF assms]] unfolding bc_entries_def by blast
qed

lemma bc_abs_iff:
  assumes "bc_inv c"
  shows "bc_abs c h = Some v \<longleftrightarrow> (\<exists>e \<in> bc_entries c. be_hash e = h \<and> v = entry_val e)"
  using bc_entries_iff [OF assms] chain_facts(1) [OF assms hash_string_less [OF assms], of h]
  by (auto simp: bc_abs_find chain_find_unique dest: chain_find_Some)

lemma bc_inv_init: "1 \<le> m \<Longrightarrow> m < 1073741824 \<Longrightarrow> bc_inv (bc_init m)"
  by (auto simp: bc_inv_def bc_init_def Let_def sum_list_replicate)

lemma entries_update:
  "i < length bs \<Longrightarrow> \<Union> (set ` set (bs[i := ch])) =
     set ch \<union> \<Union> (set ` ((!) bs ` ({..<length bs} - {i})))"
  by (auto simp: set_conv_nth [of "bs[i := ch]"] nth_list_update split: if_splits)

lemma sum_length_update:
  "i < length bs \<Longrightarrow> sum_list (map length (bs[i := ch])) + length (bs ! i) =
     sum_list (map length bs) + length ch"
  by (induction bs arbitrary: i) (auto split: nat.splits)

text \<open>Replacing one chain keeps the invariant when the chain is sound and the count right.\<close>

lemma bc_inv_chain:
  assumes inv: "bc_inv c" and i: "i < length (bc_buckets c)"
    and ch: "distinct (map be_hash ch)"
      "\<forall>e \<in> set ch. hash_string (be_hash e) (bc_bucket_count c) = i \<and> be_last_access e < INT64_MAX"
    and n: "n = bc_entry_count c + int (length ch) - int (length (bc_buckets c ! i))" "n \<le> bc_max_entries c"
  shows "bc_inv (c\<lparr>bc_buckets := (bc_buckets c)[i := ch], bc_entry_count := n\<rparr>)"
proof -
  have "int (sum_list (map length ((bc_buckets c)[i := ch]))) = n"
    using sum_length_update [OF i, of ch] inv n(1) unfolding bc_inv_def by linarith
  with assms show ?thesis unfolding bc_inv_def by (simp add: nth_list_update)
qed

lemma bc_abs_update:
  assumes "i < length (bc_buckets c)"
  shows "bc_abs (c\<lparr>bc_buckets := (bc_buckets c)[i := ch], bc_entry_count := n\<rparr>) k =
     (if hash_string k (bc_bucket_count c) = i then map_option entry_val (chain_find k ch) else bc_abs c k)"
  using assms by (simp add: bc_abs_find)

lemma chain_find_update:
  "find_hash es h = Some p \<Longrightarrow> be_hash e = h \<Longrightarrow>
     chain_find k (es[p := e]) = (if k = h then Some e else chain_find k es)"
  by (induction es arbitrary: p) (auto split: if_splits)

lemma bc_touch:
  assumes inv: "bc_inv c" and idx: "idx = hash_string h (bc_bucket_count c)"
    and p: "find_hash (bc_buckets c ! idx) h = Some p" and t: "t < INT64_MAX"
  shows "bc_inv (touch_entry c idx p t)"
    and "bc_abs (touch_entry c idx p t) = (bc_abs c)(h := map_option (\<lambda>v. (fst v, t)) (bc_abs c h))"
proof -
  let ?ch = "bc_buckets c ! idx" and ?c = "touch_entry c idx p t"
  let ?e = "(?ch ! p)\<lparr>be_last_access := t\<rparr>"
  have i: "idx < length (bc_buckets c)" using hash_string_less [OF inv] idx by simp
  have pl: "p < length ?ch" "be_hash (?ch ! p) = h" using find_hash_Some [OF p] by simp_all
  have ids: "map be_hash (?ch[p := ?e]) = map be_hash ?ch"
    using pl by (simp add: map_update list_update_same_conv)
  have c: "?c = c\<lparr>bc_buckets := (bc_buckets c)[idx := ?ch[p := ?e]], bc_entry_count := bc_entry_count c\<rparr>"
    by (simp add: touch_entry_def)
  have "bc_inv \<dots>"
  proof (rule bc_inv_chain [OF inv i])
    show "distinct (map be_hash (?ch[p := ?e]))" using ids chain_facts(1) [OF inv i] by simp
    show "\<forall>e \<in> set (?ch[p := ?e]). hash_string (be_hash e) (bc_bucket_count c) = idx \<and> be_last_access e < INT64_MAX"
      using chain_facts(2) [OF inv i] t pl(2) idx by (auto dest!: set_update_subset_insert [THEN subsetD])
  qed (use inv in \<open>simp_all add: bc_inv_def\<close>)
  then show "bc_inv ?c" by (simp only: c)
  have "bc_abs c h = Some (entry_val (?ch ! p))"
    using p by (simp add: bc_abs_def entry_val_def Let_def flip: idx)
  moreover have "bc_abs ?c k = (if k = h then Some (entry_val ?e) else bc_abs c k)" for k
    unfolding c bc_abs_update [OF i] chain_find_update [OF p, of ?e, simplified, OF pl(2)]
    by (auto simp: bc_abs_find simp flip: idx)
  ultimately show "bc_abs ?c = (bc_abs c)(h := map_option (\<lambda>v. (fst v, t)) (bc_abs c h))"
    by (auto simp: fun_eq_iff entry_val_def)
qed

section \<open>Eviction\<close>

definition good_best :: "bytecode_entry list list \<Rightarrow> int \<times> (nat \<times> nat) option \<Rightarrow> bool" where
  "good_best bs best \<longleftrightarrow>
     (case snd best of None \<Rightarrow> fst best = INT64_MAX
      | Some (i, p) \<Rightarrow> i < length bs \<and> p < length (bs ! i) \<and> be_last_access (bs ! i ! p) = fst best)"

lemma evict_chain_best:
  assumes "i < length bs" and "bs ! i = pre @ es" and "good_best bs best"
    and "evict_chain i (length pre) es best = best'"
  shows "good_best bs best' \<and> fst best' \<le> fst best \<and> (\<forall>e \<in> set es. fst best' \<le> be_last_access e)"
  using assms
proof (induction es arbitrary: pre best)
  case (Cons e es)
  let ?b = "if be_last_access e < fst best then (be_last_access e, Some (i, length pre)) else best"
  have "good_best bs ?b" using Cons.prems by (auto simp: good_best_def nth_append)
  moreover have "evict_chain i (length (pre @ [e])) es ?b = best'" using Cons.prems by simp
  ultimately show ?case using Cons.IH [of "pre @ [e]" ?b] Cons.prems(1,2) by (auto split: if_splits)
qed simp

lemma evict_scan_best:
  assumes "bs = pre @ rest" and "good_best bs best" and "evict_scan (length pre) rest best = best'"
  shows "good_best bs best' \<and> fst best' \<le> fst best \<and> (\<forall>ch \<in> set rest. \<forall>e \<in> set ch. fst best' \<le> be_last_access e)"
  using assms
proof (induction rest arbitrary: pre best)
  case (Cons ch rest)
  let ?b = "evict_chain (length pre) 0 ch best"
  have "bs ! length pre = [] @ ch" "length pre < length bs" using Cons.prems(1) by simp_all
  from evict_chain_best [OF this(2,1) Cons.prems(2), of ?b]
  have b: "good_best bs ?b" "fst ?b \<le> fst best" "\<forall>e \<in> set ch. fst ?b \<le> be_last_access e" by simp_all
  have "evict_scan (length (pre @ [ch])) rest ?b = best'" using Cons.prems(3) by simp
  from Cons.IH [OF _ b(1) this] Cons.prems(1) b(2,3) show ?case by fastforce
qed simp

lemma chain_find_remove:
  assumes "distinct (map be_hash es)" and "p < length es"
  shows "chain_find k (remove_at p es) = (if k = be_hash (es ! p) then None else chain_find k es)"
proof -
  obtain a e b where ab: "es = a @ e # b" "length a = p" "remove_at p es = a @ b"
    by (rule remove_at_split [OF assms(2)])
  then have "be_hash e \<notin> be_hash ` set a" "be_hash e \<notin> be_hash ` set b" "es ! p = e"
    using assms(1) by (auto simp: nth_append)
  with ab(3) show ?thesis
    by (auto simp: ab(1) chain_find_append simp flip: chain_find_None split: option.splits)
qed

lemma nonempty_chain: "sum_list (map length bs) \<noteq> 0 \<Longrightarrow> \<exists>ch \<in> set bs. ch \<noteq> []"
  by (induction bs) auto

lemma bc_evict_lru_spec:
  assumes inv: "bc_inv c" and n: "0 < bc_entry_count c"
  shows "\<exists>k v. bc_inv (bc_evict_lru c) \<and> bc_entry_count (bc_evict_lru c) = bc_entry_count c - 1 \<and>
     bc_max_entries (bc_evict_lru c) = bc_max_entries c \<and>
     bc_bucket_count (bc_evict_lru c) = bc_bucket_count c \<and>
     bc_abs c k = Some v \<and> (\<forall>k' v'. bc_abs c k' = Some v' \<longrightarrow> snd v \<le> snd v') \<and>
     bc_abs (bc_evict_lru c) = (bc_abs c)(k := None)"
proof -
  let ?bs = "bc_buckets c"
  obtain m b where s: "evict_scan 0 ?bs (INT64_MAX, None) = (m, b)" by fastforce
  have "good_best ?bs (INT64_MAX, None)" by (simp add: good_best_def)
  from evict_scan_best [of ?bs "[]" ?bs, OF _ this] s
  have g: "good_best ?bs (m, b)" and low: "\<forall>ch \<in> set ?bs. \<forall>e \<in> set ch. m \<le> be_last_access e" by simp_all
  have "sum_list (map length ?bs) \<noteq> 0" using inv n unfolding bc_inv_def by linarith
  then obtain ch where ch: "ch \<in> set ?bs" "ch \<noteq> []" using nonempty_chain by blast
  obtain e where "e \<in> set ch" using ch(2) by (meson last_in_set)
  moreover obtain j where "j < length ?bs" "ch = ?bs ! j" using ch(1) by (auto simp: in_set_conv_nth)
  ultimately have "m < INT64_MAX" using low ch(1) chain_facts(2) [OF inv] by fastforce
  with g obtain i p where b: "b = Some (i, p)" "i < length ?bs" "p < length (?bs ! i)"
    "be_last_access (?bs ! i ! p) = m" by (auto simp: good_best_def split: option.splits)
  let ?e = "?bs ! i ! p"
  let ?new = "remove_at p (?bs ! i)"
  have ev: "bc_evict_lru c = c\<lparr>bc_buckets := ?bs[i := ?new], bc_entry_count := bc_entry_count c - 1\<rparr>"
    by (simp add: bc_evict_lru_def s b(1))
  have e: "?e \<in> set (?bs ! i)" using b by simp
  have sub: "set ?new \<subseteq> set (?bs ! i)" "distinct (map be_hash ?new)"
    using chain_facts(1) [OF inv b(2)] b(3) set_remove_at distinct_map_remove_at by metis+
  have h: "hash_string (be_hash ?e) (bc_bucket_count c) = i" using chain_facts(2) [OF inv b(2) e] by simp
  have "bc_inv (bc_evict_lru c)"
    unfolding ev
  proof (rule bc_inv_chain [OF inv b(2) sub(2)])
    show "\<forall>e \<in> set ?new. hash_string (be_hash e) (bc_bucket_count c) = i \<and> be_last_access e < INT64_MAX"
      using chain_facts(2) [OF inv b(2)] sub(1) by blast
  qed (use inv b(3) in \<open>auto simp: bc_inv_def length_remove_at\<close>)
  moreover have "bc_abs (bc_evict_lru c) = (bc_abs c)(be_hash ?e := None)"
    using h
    unfolding ev fun_eq_iff bc_abs_update [OF b(2)] chain_find_remove [OF chain_facts(1) [OF inv b(2)] b(3)]
    by (auto simp: bc_abs_find)
  moreover have "bc_abs c (be_hash ?e) = Some (entry_val ?e)"
    using bc_abs_iff [OF inv, of "be_hash ?e" "entry_val ?e"] bc_entries_iff [OF inv, of ?e] e
    unfolding h by blast
  moreover have "\<forall>k' v'. bc_abs c k' = Some v' \<longrightarrow> snd (entry_val ?e) \<le> snd v'"
    using bc_abs_iff [OF inv] low b(4) by (fastforce simp: entry_val_def bc_entries_def)
  ultimately show ?thesis by (intro exI [of _ "be_hash ?e"] exI [of _ "entry_val ?e"]) (simp add: ev)
qed

section \<open>Insertion and lookup\<close>

lemma bc_add:
  assumes inv: "bc_inv c" and i: "idx = hash_string h (bc_bucket_count c)" and t: "t < INT64_MAX"
    and fresh: "bc_abs c h = None" and room: "bc_entry_count c < bc_max_entries c"
    and e: "e = \<lparr>be_hash = h, be_bytecode = b, be_last_access = t\<rparr>"
    and c': "c' = c\<lparr>bc_buckets := (bc_buckets c)[idx := e # bc_buckets c ! idx],
                 bc_entry_count := bc_entry_count c + 1\<rparr>"
  shows "bc_inv c'" and "bc_abs c' = (bc_abs c)(h \<mapsto> (b, t))"
proof -
  have il: "idx < length (bc_buckets c)" using hash_string_less [OF inv] i by simp
  have "h \<notin> be_hash ` set (bc_buckets c ! idx)"
    using fresh by (simp add: bc_abs_find chain_find_None flip: i)
  then show "bc_inv c'"
    unfolding c'
    by (intro bc_inv_chain [OF inv il]) (use chain_facts [OF inv il] room t i e in auto)
  show "bc_abs c' = (bc_abs c)(h \<mapsto> (b, t))"
    unfolding c' fun_eq_iff bc_abs_update [OF il]
    by (auto simp: e entry_val_def bc_abs_find simp flip: i)
qed

lemma bc_insert_spec:
  assumes inv: "bc_inv c" and t: "t < INT64_MAX"
  shows "bc_inv (bc_insert c h b t) \<and>
     (case bc_abs c h of
        Some (b0, t0) \<Rightarrow> bc_abs (bc_insert c h b t) = (bc_abs c)(h \<mapsto> (b0, t))
      | None \<Rightarrow>
          if bc_entry_count c < bc_max_entries c
          then bc_abs (bc_insert c h b t) = (bc_abs c)(h \<mapsto> (b, t))
          else \<exists>k v. bc_abs c k = Some v \<and> (\<forall>k' v'. bc_abs c k' = Some v' \<longrightarrow> snd v \<le> snd v') \<and>
                 bc_abs (bc_insert c h b t) = ((bc_abs c)(k := None))(h \<mapsto> (b, t)))"
proof -
  let ?i = "hash_string h (bc_bucket_count c)"
  show ?thesis
  proof (cases "find_hash (bc_buckets c ! ?i) h")
    case (Some p)
    from bc_touch [OF inv refl Some t] Some show ?thesis
      by (auto simp: bc_insert_def Let_def bc_abs_def split: option.splits)
  next
    case None
    then have fresh: "bc_abs c h = None" by (simp add: bc_abs_def Let_def)
    show ?thesis
    proof (cases "bc_entry_count c < bc_max_entries c")
      case True
      from bc_add [OF inv refl t fresh True refl refl, of b] None True fresh show ?thesis
        by (simp add: bc_insert_def Let_def)
    next
      case False
      have n: "0 < bc_entry_count c" using inv False by (simp add: bc_inv_def)
      obtain k v where ev: "bc_inv (bc_evict_lru c)"
        "bc_entry_count (bc_evict_lru c) = bc_entry_count c - 1"
        "bc_max_entries (bc_evict_lru c) = bc_max_entries c"
        "bc_bucket_count (bc_evict_lru c) = bc_bucket_count c"
        "bc_abs c k = Some v" "\<forall>k' v'. bc_abs c k' = Some v' \<longrightarrow> snd v \<le> snd v'"
        "bc_abs (bc_evict_lru c) = (bc_abs c)(k := None)"
        using bc_evict_lru_spec [OF inv n] by blast
      have r: "bc_entry_count (bc_evict_lru c) < bc_max_entries (bc_evict_lru c)"
        using inv ev(2,3) by (simp add: bc_inv_def)
      have f: "bc_abs (bc_evict_lru c) h = None" using ev(7) fresh by simp
      from bc_add [OF ev(1) refl t f r refl refl, of b] None False fresh ev show ?thesis
        by (auto simp: bc_insert_def Let_def split_paired_Ex [symmetric] simp del: split_paired_Ex split_paired_All)
    qed
  qed
qed

lemma bc_lookup_spec:
  assumes inv: "bc_inv c" and t: "t < INT64_MAX" and l: "bc_lookup c h t = (r, c')"
  shows "bc_inv c' \<and> map_option be_bytecode r = map_option fst (bc_abs c h) \<and>
     bc_abs c' = (bc_abs c)(h := map_option (\<lambda>v. (fst v, t)) (bc_abs c h))"
proof (cases "find_hash (bc_buckets c ! hash_string h (bc_bucket_count c)) h")
  case None
  then have "bc_abs c h = None" by (simp add: bc_abs_def Let_def)
  with None inv l show ?thesis by (auto simp: bc_lookup_def Let_def)
next
  case (Some p)
  let ?i = "hash_string h (bc_bucket_count c)"
  have "?i < length (bc_buckets c)" "p < length (bc_buckets c ! ?i)"
    using hash_string_less [OF inv] find_hash_Some [OF Some] by simp_all
  with bc_touch [OF inv refl Some t] l Some show ?thesis
    by (auto simp: bc_lookup_def Let_def bc_abs_def touch_entry_def)
qed

section \<open>The interface of the environments\<close>

abbreviation bc_contents :: "bytecode_cache \<Rightarrow> string \<Rightarrow> byte list option" where
  "bc_contents c h \<equiv> map_option fst (bc_abs c h)"

definition bc_lookup_bytes :: "bytecode_cache \<Rightarrow> string \<Rightarrow> int \<Rightarrow> byte list option \<times> bytecode_cache" where
  "bc_lookup_bytes c h t = (case bc_lookup c h t of (r, c') \<Rightarrow> (map_option be_bytecode r, c'))"

lemma bc_abs_init:
  assumes "1 \<le> m" and "m < 1073741824"
  shows "bc_abs (bc_init m) h = None"
  using hash_string_less [OF bc_inv_init [OF assms], of h] by (simp add: bc_abs_def bc_init_def Let_def)

lemma card_dom_abs:
  assumes "bc_inv c"
  shows "finite (dom (bc_abs c))" and "int (card (dom (bc_abs c))) = bc_entry_count c"
proof -
  let ?bs = "bc_buckets c"
  have i: "i < length ?bs" if "i \<in> {..<length ?bs}" for i using that by simp
  have "dom (bc_abs c) = be_hash ` bc_entries c"
    by (auto simp: dom_def bc_abs_iff [OF assms] entry_val_def)
  also have "\<dots> = (\<Union>i \<in> {..<length ?bs}. be_hash ` set (?bs ! i))"
    by (auto simp: bc_entries_def set_conv_nth [of ?bs])
  finally have dom: "dom (bc_abs c) = (\<Union>i \<in> {..<length ?bs}. be_hash ` set (?bs ! i))" .
  then show "finite (dom (bc_abs c))" by simp
  have "card (dom (bc_abs c)) = (\<Sum>i < length ?bs. card (be_hash ` set (?bs ! i)))"
    unfolding dom
  proof (rule card_UN_disjoint)
    have "i = j" if "i < length ?bs" "j < length ?bs" "x \<in> set (?bs ! i)" "y \<in> set (?bs ! j)" "be_hash x = be_hash y" for i j x y
      using chain_facts(2) [OF assms that(1,3)] chain_facts(2) [OF assms that(2,4)] that(5) by simp
    then show "\<forall>i \<in> {..<length ?bs}. \<forall>j \<in> {..<length ?bs}. i \<noteq> j \<longrightarrow> be_hash ` set (?bs ! i) \<inter> be_hash ` set (?bs ! j) = {}"
      by (fastforce simp: disjoint_iff)
  qed simp_all
  also have "\<dots> = (\<Sum>i < length ?bs. length (?bs ! i))"
  proof (rule sum.cong [OF refl])
    fix i assume "i \<in> {..<length ?bs}"
    with chain_facts(1) [OF assms] distinct_card [of "map be_hash (?bs ! i)"] show "card (be_hash ` set (?bs ! i)) = length (?bs ! i)"
      by simp
  qed
  also have "\<dots> = sum_list (map length ?bs)" by (simp add: sum_list_sum_nth atLeast0LessThan)
  finally show "int (card (dom (bc_abs c))) = bc_entry_count c" using assms by (simp add: bc_inv_def)
qed

lemma bc_max_entries_keeps [simp]:
  "bc_max_entries (snd (bc_lookup c h t)) = bc_max_entries c" "bc_max_entries (bc_insert c h b t) = bc_max_entries c"
  by (auto simp: bc_lookup_def bc_insert_def touch_entry_def bc_evict_lru_def Let_def split: option.split prod.split)

interpretation bc: lru_cache bc_inv bc_abs bc_max_entries bc_lookup_bytes bc_insert
proof
  fix c
  assume "bc_inv c"
  then show "finite (dom (bc_abs c))" "int (card (dom (bc_abs c))) \<le> bc_max_entries c"
    by (simp_all add: card_dom_abs) (simp add: bc_inv_def)
next
  fix c t h r c'
  assume a: "bc_inv c" "t < INT64_MAX" "bc_lookup_bytes c h t = (r, c')"
  obtain r0 where "bc_lookup c h t = (r0, c')" "r = map_option be_bytecode r0"
    using a(3) by (auto simp: bc_lookup_bytes_def split: prod.splits)
  with bc_lookup_spec [OF a(1,2) this(1)] bc_max_entries_keeps(1) [of c h t]
  show "bc_inv c' \<and> bc_max_entries c' = bc_max_entries c \<and> r = bc_contents c h \<and>
      bc_abs c' = (bc_abs c)(h := map_option (\<lambda>v. (fst v, t)) (bc_abs c h))" by simp
next
  fix c t h b
  assume a: "bc_inv c" "t < INT64_MAX"
  note spec = bc_insert_spec [OF a, of h b]
  from spec show "bc_inv (bc_insert c h b t) \<and> bc_max_entries (bc_insert c h b t) = bc_max_entries c" by simp
  show "bc_abs (bc_insert c h b t) = (bc_abs c)(h \<mapsto> (fst v, t))" if "bc_abs c h = Some v" for v
    using spec that by (cases v) simp
  show "bc_abs (bc_insert c h b t) = (bc_abs c)(h \<mapsto> (b, t))" if "bc_abs c h = None" "int (card (dom (bc_abs c))) < bc_max_entries c"
    using spec that card_dom_abs(2) [OF a(1)] by simp
  show "\<exists>k v. bc_abs c k = Some v \<and> (\<forall>k' v'. bc_abs c k' = Some v' \<longrightarrow> snd v \<le> snd v') \<and>
      bc_abs (bc_insert c h b t) = ((bc_abs c)(k := None))(h \<mapsto> (b, t))"
    if "bc_abs c h = None" "int (card (dom (bc_abs c))) = bc_max_entries c"
    using spec that card_dom_abs(2) [OF a(1)] by simp
qed

section \<open>Hashes\<close>

lemma hex_02x_inj: "a < 256 \<Longrightarrow> b < 256 \<Longrightarrow> hex_02x a = hex_02x b \<longleftrightarrow> a = b"
proof
  assume ab: "a < 256" "b < 256" and eq: "hex_02x a = hex_02x b"
  have "a div 16 < 16" "b div 16 < 16" "a mod 16 < 16" "b mod 16 < 16" using ab by auto
  with eq have "a div 16 = b div 16" "a mod 16 = b mod 16"
    unfolding hex_02x_def by (metis digit_char_inj list.inject)+
  then show "a = b" by (metis div_mult_mod_eq)
qed simp

lemma concat_hex_inj:
  "length xs = length ys \<Longrightarrow> concat (map (\<lambda>b :: byte. hex_02x (unat b)) xs) = concat (map (\<lambda>b. hex_02x (unat b)) ys) \<longleftrightarrow>
     xs = ys"
proof (induction xs ys rule: list_induct2)
  case (Cons x xs y ys)
  from Cons hex_02x_inj [OF unat_byte_less unat_byte_less, of x y] show ?case
    by (auto simp: append_eq_append_conv word_unat_eq_iff)
qed simp

lemma bc_compute_hash_eq:
  assumes "length (f c) = 32"
  shows "bc_compute_hash (Some f) c = concat (map (\<lambda>b. hex_02x (unat b)) (f c))"
proof -
  have "map (\<lambda>i. hex_02x (unat (f c ! i))) [0..<32] = map (\<lambda>b. hex_02x (unat b)) (f c)"
    by (rule nth_equalityI) (use assms in auto)
  then show ?thesis by (simp add: bc_compute_hash_def)
qed

section \<open>Correctness\<close>

text \<open>
  The cache implements a map from hashes to bytecode.  A lookup returns what the map
  holds and marks the entry as used now; nothing else changes, and the invariant is kept: every
  entry in the chain of its hash, no hash twice, the count exact and at most the maximum.
\<close>

theorem bc_lookup_refines_map:
  assumes "bc_inv c" and "t < INT64_MAX" and "bc_lookup c h t = (r, c')"
  shows "bc_inv c' \<and> map_option be_bytecode r = map_option fst (bc_abs c h) \<and>
     bc_abs c' = (bc_abs c)(h := map_option (\<lambda>v. (fst v, t)) (bc_abs c h))"
  using assms by (rule bc_lookup_spec)

text \<open>
  Property C23.  An insertion keeps the invariant (so never more than the maximum of entries).  A hash
  that is present keeps its bytecode and is only marked as used; a new one is added, and when the
  cache is full exactly one entry goes, one whose last use is not later than any other's.
\<close>

theorem bc_insert_evicts_lru:
  assumes "bc_inv c" and "t < INT64_MAX"
  shows "bc_inv (bc_insert c h b t) \<and>
     (case bc_abs c h of
        Some (b0, t0) \<Rightarrow> bc_abs (bc_insert c h b t) = (bc_abs c)(h \<mapsto> (b0, t))
      | None \<Rightarrow>
          if bc_entry_count c < bc_max_entries c
          then bc_abs (bc_insert c h b t) = (bc_abs c)(h \<mapsto> (b, t))
          else \<exists>k v. bc_abs c k = Some v \<and> (\<forall>k' v'. bc_abs c k' = Some v' \<longrightarrow> snd v \<le> snd v') \<and>
                 bc_abs (bc_insert c h b t) = ((bc_abs c)(k := None))(h \<mapsto> (b, t)))"
  using assms by (rule bc_insert_spec)

text \<open>
  The key of the cache is 64 lower-case hexadecimal digits, and two sources have the same
  key exactly when their SHA-256 digests are equal.
\<close>

theorem bc_compute_hash_faithful:
  assumes "\<And>x. length (sha256 x) = 32"
  shows "length (bc_compute_hash (Some sha256) x) = 64 \<and>
     set (bc_compute_hash (Some sha256) x) \<subseteq> set ''0123456789abcdef'' \<and>
     (bc_compute_hash (Some sha256) x = bc_compute_hash (Some sha256) y \<longleftrightarrow> sha256 x = sha256 y)"
proof -
  have len: "length (concat (map (\<lambda>b. hex_02x (unat b)) bs)) = 2 * length bs" for bs :: "byte list"
    by (induction bs) auto
  have dig: "x \<in> set ''0123456789abcdef''" if "x \<in> set (hex_02x (unat b))" for x and b :: byte
  proof -
    have "unat b div 16 < 16" using unat_byte_less [of b] by linarith
    moreover have "x = digit_char (unat b div 16) \<or> x = digit_char (unat b mod 16)"
      using that by (auto simp: hex_02x_def)
    ultimately show ?thesis using digit_char_hex by (metis mod_less_divisor zero_less_numeral)
  qed
  have "length (bc_compute_hash (Some sha256) x) = 64" using assms len by (simp add: bc_compute_hash_eq)
  moreover have "set (bc_compute_hash (Some sha256) x) \<subseteq> set ''0123456789abcdef''"
    using dig unfolding bc_compute_hash_eq [of sha256 x, OF assms] set_concat set_map by blast
  ultimately show ?thesis using assms by (simp only: bc_compute_hash_eq concat_hex_inj)
qed

section \<open>Witnesses\<close>

definition ex_bc :: bytecode_cache where
  "ex_bc = bc_insert (bc_insert (bc_init 2) ''a'' [1] 10) ''b'' [2] 20"

lemma ex_bc_inv: "bc_inv ex_bc"
proof -
  have t: "(10 :: int) < INT64_MAX" "(20 :: int) < INT64_MAX" by (simp_all add: INT64_MAX_def)
  have "bc_inv (bc_insert (bc_init 2) ''a'' [1] 10)"
    by (rule bc_insert_spec [THEN conjunct1, OF bc_inv_init t(1)]) simp_all
  then show ?thesis unfolding ex_bc_def by (rule bc_insert_spec [THEN conjunct1, OF _ t(2)])
qed

theorem bc_lookup_refines_map_witness:
  "map_option be_bytecode (fst (bc_lookup ex_bc ''a'' 30)) = Some [1]"
proof -
  have "map_option fst (bc_abs ex_bc ''a'') = Some [1]" by code_simp
  moreover have "(30 :: int) < INT64_MAX" by (simp add: INT64_MAX_def)
  moreover obtain r c' where "bc_lookup ex_bc ''a'' 30 = (r, c')" by fastforce
  ultimately show ?thesis using bc_lookup_refines_map [OF ex_bc_inv] by fastforce
qed

theorem bc_insert_evicts_lru_witness:
  "bc_inv (bc_insert ex_bc ''c'' [3] 30) \<and> bc_abs (bc_insert ex_bc ''c'' [3] 30) ''a'' = None"
proof -
  have "bc_abs (bc_insert ex_bc ''c'' [3] 30) ''a'' = None" by code_simp
  then show ?thesis
    using bc_insert_evicts_lru [OF ex_bc_inv, of 30 "''c''" "[3]"] by (simp add: INT64_MAX_def)
qed

theorem bc_compute_hash_faithful_witness:
  "length (bc_compute_hash (Some (\<lambda>x. take 32 (x @ replicate 32 0))) [7, 8]) = 64"
  using bc_compute_hash_faithful [of "\<lambda>x. take 32 (x @ replicate 32 0)" "[7, 8]"] by simp

end
