(* ===== verification/Json_Response.thy ===== *)
theory Json_Response
  imports Js_Api
begin

text \<open>
  The response side of the JSON Lines protocol, from \<^verbatim>\<open>src/cqjs.c\<close>: writing a line to standard
  output, reading a file, escaping a C string as a JSON string and building a response.
  Standard output is the string of bytes written so far.  A response is built with \<^verbatim>\<open>sprintf\<close>
  into a heap buffer whose size is computed beforehand; the model makes the write past its end
  a value (\<open>BufferOverflow\<close>), so that the absence of overflow is a theorem with a hypothesis.
  A reader for JSON strings and flat JSON objects is the specification the output is checked
  against.
\<close>

section \<open>Standard output and files\<close>

definition cqjs_send_response :: "string \<Rightarrow> string \<Rightarrow> string" where
  "cqjs_send_response stdout json_line = stdout @ json_line @ [CHR 0x0A]"

text \<open>
  \<open>fopen path\<close> is \<open>None\<close> where the file cannot be opened, otherwise what \<^verbatim>\<open>ftell\<close> returns at its
  end (negative for an error) and the bytes a read from its start delivers.
\<close>

definition cqjs_read_file ::
    "(nat \<Rightarrow> bool) \<Rightarrow> (string \<Rightarrow> (int \<times> string) option) \<Rightarrow> string \<Rightarrow> string option" where
  "cqjs_read_file malloc_ok fopen path =
     (case fopen path of
        None \<Rightarrow> None
      | Some (len, content) \<Rightarrow>
          if len < 0 then None
          else if \<not> malloc_ok (nat len + 1) then None
          else Some (take (nat len) content))"

section \<open>Escaping\<close>

definition json_escape_char :: "char \<Rightarrow> string" where
  "json_escape_char c =
     (if c = CHR 0x22 then [CHR 0x5C, CHR 0x22]
      else if c = CHR 0x5C then [CHR 0x5C, CHR 0x5C]
      else if c = CHR 0x08 then [CHR 0x5C, CHR ''b'']
      else if c = CHR 0x0C then [CHR 0x5C, CHR ''f'']
      else if c = CHR 0x0A then [CHR 0x5C, CHR ''n'']
      else if c = CHR 0x0D then [CHR 0x5C, CHR ''r'']
      else if c = CHR 0x09 then [CHR 0x5C, CHR ''t'']
      else if code c < 0x20 then [CHR 0x5C, CHR ''u''] @ hex_04x (code c)
      else [c])"

definition json_escape_string :: "(nat \<Rightarrow> bool) \<Rightarrow> string option \<Rightarrow> string" where
  "json_escape_string malloc_ok str =
     (case str of
        None \<Rightarrow> ''null''
      | Some s \<Rightarrow>
          if \<not> malloc_ok (length s * 6 + 3) then [CHR 0x22, CHR 0x22]
          else [CHR 0x22] @ concat (map json_escape_char s) @ [CHR 0x22])"

section \<open>Building a response\<close>

text \<open>The arguments of \<^verbatim>\<open>send_json_response\<close>; \<open>None\<close> is a NULL pointer.\<close>

record response =
  r_id :: "string option"
  r_type :: string
  r_env_id :: "string option"
  r_value :: "string option"
  r_value_is_raw :: bool
  r_message :: "string option"
  r_name :: "string option"
  r_data :: "string option"
  r_data_is_raw :: bool

definition quoted :: "string \<Rightarrow> string" where
  "quoted k = [CHR 0x22] @ k @ [CHR 0x22]"

text \<open>The member \<open>"key":text\<close>.\<close>

definition json_member :: "string \<Rightarrow> string \<Rightarrow> string" where
  "json_member key tx = quoted key @ [CHR '':''] @ tx"

definition opt_text :: "string option \<Rightarrow> (string \<Rightarrow> string) \<Rightarrow> string" where
  "opt_text x f = (case x of None \<Rightarrow> [] | Some s \<Rightarrow> f s)"

definition response_text :: "(nat \<Rightarrow> bool) \<Rightarrow> response \<Rightarrow> string" where
  "response_text malloc_ok r =
     (let esc = (\<lambda>s. json_escape_string malloc_ok (Some s)) in
      ''{'' @
      (case r_id r of Some (c # cs) \<Rightarrow> json_member ''id'' (esc (c # cs)) @ '','' | _ \<Rightarrow> []) @
      json_member ''type'' (esc (r_type r)) @
      opt_text (r_env_id r) (\<lambda>s. '','' @ json_member ''env_id'' (esc s)) @
      opt_text (r_value r)
        (\<lambda>s. '','' @ json_member ''value'' (if r_value_is_raw r then s else esc s)) @
      opt_text (r_message r) (\<lambda>s. '','' @ json_member ''message'' (esc s)) @
      opt_text (r_name r) (\<lambda>s. '','' @ json_member ''name'' (esc s)) @
      opt_text (r_data r)
        (\<lambda>s. '','' @ json_member ''data'' (if r_data_is_raw r then s else esc s)) @
      ''}'')"

definition opt_len :: "string option \<Rightarrow> nat" where
  "opt_len x = (case x of None \<Rightarrow> 0 | Some s \<Rightarrow> length s)"

definition response_cap :: "response \<Rightarrow> nat" where
  "response_cap r =
     256 + opt_len (r_value r) * 2 + opt_len (r_message r) * 2 + opt_len (r_data r) * 2 +
     opt_len (r_env_id r) * 2"

datatype send_outcome = Sent string | NoMemory | BufferOverflow

text \<open>
  The buffer has \<open>cap + 256\<close> bytes and \<^verbatim>\<open>sprintf\<close> writes the text and its NUL without a check.
\<close>

definition send_json_response :: "(nat \<Rightarrow> bool) \<Rightarrow> response \<Rightarrow> string \<Rightarrow> send_outcome" where
  "send_json_response malloc_ok r stdout =
     (let cap = response_cap r; buf = response_text malloc_ok r in
      if \<not> malloc_ok (cap + 256) then NoMemory
      else if cap + 256 < length buf + 1 then BufferOverflow
      else Sent (cqjs_send_response stdout buf))"

section \<open>Specification: reading JSON\<close>

text \<open>
  A JSON string token of RFC 8259: the value and the rest of the input.  Control characters
  must be escaped; \<^verbatim>\<open>\uXXXX\<close> is read below 0x80 only, where it stands for one byte.
\<close>

fun json_read_chars :: "string \<Rightarrow> (string \<times> string) option" where
  "json_read_chars [] = None"
| "json_read_chars (c # r) =
     (if c = CHR 0x22 then Some ([], r)
      else if c = CHR 0x5C then
        (case r of
           [] \<Rightarrow> None
         | e # r1 \<Rightarrow>
             (if e = CHR ''u'' then
                (case r1 of
                   a # b # x # y # r2 \<Rightarrow>
                     (case (xdigit a, xdigit b, xdigit x, xdigit y) of
                        (Some 0, Some 0, Some m, Some n) \<Rightarrow>
                          if m < 8 then
                            map_option (\<lambda>(s, rest). (char_of (16 * m + n) # s, rest))
                              (json_read_chars r2)
                          else None
                      | _ \<Rightarrow> None)
                 | _ \<Rightarrow> None)
              else
                (case map_of [(CHR 0x22, CHR 0x22), (CHR 0x5C, CHR 0x5C), (CHR ''/'', CHR ''/''),
                              (CHR ''b'', CHR 0x08), (CHR ''f'', CHR 0x0C), (CHR ''n'', CHR 0x0A),
                              (CHR ''r'', CHR 0x0D), (CHR ''t'', CHR 0x09)] e of
                   None \<Rightarrow> None
                 | Some d \<Rightarrow> map_option (\<lambda>(s, rest). (d # s, rest)) (json_read_chars r1))))
      else if code c < 0x20 then None
      else map_option (\<lambda>(s, rest). (c # s, rest)) (json_read_chars r))"

definition json_read_string :: "string \<Rightarrow> (string \<times> string) option" where
  "json_read_string s = (case s of c # r \<Rightarrow> if c = CHR 0x22 then json_read_chars r else None | [] \<Rightarrow> None)"

text \<open>The members of a flat object whose values are strings, up to the closing brace.\<close>

fun json_read_members :: "nat \<Rightarrow> string \<Rightarrow> (string \<times> string) list option" where
  "json_read_members 0 s = None"
| "json_read_members (Suc n) s =
     (case json_read_string s of
        None \<Rightarrow> None
      | Some (k, s1) \<Rightarrow>
          (case s1 of
             [] \<Rightarrow> None
           | c # s2 \<Rightarrow>
               if c \<noteq> CHR '':'' then None
               else (case json_read_string s2 of
                       None \<Rightarrow> None
                     | Some (v, s3) \<Rightarrow>
                         (case s3 of
                            [] \<Rightarrow> None
                          | d # s4 \<Rightarrow>
                              if d = CHR ''}'' then (if s4 = [] then Some [(k, v)] else None)
                              else if d = CHR '','' then
                                map_option (\<lambda>kvs. (k, v) # kvs) (json_read_members n s4)
                              else None))))"

definition json_read_object :: "string \<Rightarrow> (string \<times> string) list option" where
  "json_read_object s =
     (case s of c # r \<Rightarrow> if c = CHR ''{'' then json_read_members (length s) r else None | [] \<Rightarrow> None)"

text \<open>The members a response stands for.\<close>

definition opt_member :: "string \<Rightarrow> string option \<Rightarrow> (string \<times> string) list" where
  "opt_member k x = (case x of None \<Rightarrow> [] | Some s \<Rightarrow> [(k, s)])"

definition response_members :: "response \<Rightarrow> (string \<times> string) list" where
  "response_members r =
     (case r_id r of Some (c # cs) \<Rightarrow> [(''id'', c # cs)] | _ \<Rightarrow> []) @
     [(''type'', r_type r)] @ opt_member ''env_id'' (r_env_id r) @
     opt_member ''value'' (r_value r) @ opt_member ''message'' (r_message r) @
     opt_member ''name'' (r_name r) @ opt_member ''data'' (r_data r)"

text \<open>Splitting a stream into its lines, and the unterminated rest.\<close>

fun split_lines :: "string \<Rightarrow> string \<Rightarrow> string list \<times> string" where
  "split_lines cur [] = ([], cur)"
| "split_lines cur (c # s) =
     (if c = CHR 0x0A then (let (ls, rest) = split_lines [] s in (cur # ls, rest))
      else split_lines (cur @ [c]) s)"

section \<open>Lemmas: escaping\<close>

abbreviation json_body :: "string \<Rightarrow> string" where
  "json_body s \<equiv> concat (map json_escape_char s)"

lemma json_escape_Some:
  "(\<And>n. malloc_ok n) \<Longrightarrow> json_escape_string malloc_ok (Some s) = quoted (json_body s)"
  by (simp add: json_escape_string_def quoted_def)

lemma json_read_escape_char:
  "json_read_chars (json_escape_char c @ r) = map_option (\<lambda>(s, rest). (c # s, rest)) (json_read_chars r)"
proof (cases "json_escape_char c = [CHR 0x5C, CHR ''u''] @ hex_04x (code c)")
  case True
  then have c: "code c < 32"
    by (auto simp: json_escape_char_def hex_04x_def split: if_splits)
  then have d: "code c div 4096 = 0" "code c div 256 = 0" "code c div 16 < 8"
    "code c div 16 mod 16 = code c div 16" by auto
  then have "xdigit (digit_char (code c div 16)) = Some (code c div 16)"
    by (intro xdigit_digit_char) linarith
  moreover have "xdigit (digit_char (code c mod 16)) = Some (code c mod 16)" by simp
  moreover have "char_of (16 * (code c div 16) + code c mod 16) = c" by simp
  ultimately show ?thesis
    using True d by (simp add: hex_04x_def)
next
  case False
  then show ?thesis
    by (auto simp: json_escape_char_def split: if_splits)
qed

lemma json_read_body: "json_read_chars (json_body s @ CHR 0x22 # r) = Some (s, r)"
  by (induction s) (simp_all add: json_read_escape_char)

lemma json_read_quoted: "json_read_string (quoted (json_body s) @ r) = Some (s, r)"
  by (simp add: json_read_string_def quoted_def json_read_body)

lemma json_escape_char_printable: "x \<in> set (json_escape_char c) \<Longrightarrow> 32 \<le> code x"
proof -
  have "32 \<le> code (digit_char d)" if "d < 16" for d
    using code_digit_char [OF that] by simp
  moreover have "code c div 4096 < 16" by (simp add: div_le_dividend less_mult_imp_div_less order_less_trans [OF nat_of_char_less_256])
  ultimately show "x \<in> set (json_escape_char c) \<Longrightarrow> 32 \<le> code x"
    by (auto simp: json_escape_char_def hex_04x_def split: if_splits)
qed

lemma length_json_escape_char: "length (json_escape_char c) \<le> 6"
  by (simp add: json_escape_char_def hex_04x_def)

lemma length_json_body: "length (json_body s) \<le> 6 * length s"
proof (induction s)
  case (Cons c s)
  then show ?case using length_json_escape_char [of c] by simp
qed simp

text \<open>Characters whose escape is at most two characters long.\<close>

definition short_escape :: "char \<Rightarrow> bool" where
  "short_escape c \<longleftrightarrow> 32 \<le> code c \<or> c \<in> {CHR 0x08, CHR 0x09, CHR 0x0A, CHR 0x0C, CHR 0x0D}"

lemma length_short_escape: "short_escape c \<Longrightarrow> length (json_escape_char c) \<le> 2"
  by (auto simp: json_escape_char_def short_escape_def)

lemma length_short_body: "list_all short_escape s \<Longrightarrow> length (json_body s) \<le> 2 * length s"
proof (induction s)
  case (Cons c s)
  then show ?case using length_short_escape [of c] by simp
qed simp

section \<open>Lemmas: responses\<close>

definition members_text :: "(string \<times> string) list \<Rightarrow> string" where
  "members_text kvs =
     concat (map (\<lambda>(k, v). '','' @ quoted (json_body k) @ '':'' @ quoted (json_body v)) kvs)"

lemma json_read_members_text:
  "length kvs < n \<Longrightarrow>
   json_read_members n (quoted (json_body k) @ '':'' @ quoted (json_body v) @ members_text kvs @ ''}'') =
     Some ((k, v) # kvs)"
proof (induction kvs arbitrary: n k v)
  case Nil
  then obtain m where "n = Suc m" by (cases n) auto
  then show ?case by (simp add: json_read_quoted members_text_def)
next
  case (Cons kv kvs)
  then obtain m where m: "n = Suc m" "length kvs < m" by (cases n) auto
  obtain k' v' where kv: "kv = (k', v')" by fastforce
  from Cons.IH [OF m(2), of k' v'] m(1) kv show ?case
    by (simp add: json_read_quoted members_text_def)
qed

lemma json_member_plain:
  "list_all (\<lambda>c. json_escape_char c = [c]) k \<Longrightarrow>
     json_member k x = quoted (json_body k) @ '':'' @ x"
proof -
  assume "list_all (\<lambda>c. json_escape_char c = [c]) k"
  then have "json_body k = k" by (induction k) auto
  then show ?thesis by (simp add: json_member_def)
qed

lemma response_keys_plain:
  "list_all (list_all (\<lambda>c. json_escape_char c = [c]))
     [''id'', ''type'', ''env_id'', ''value'', ''message'', ''name'', ''data'']"
  by code_simp

lemma response_text_members:
  assumes "\<And>n. malloc_ok n"
    and "r_value r = None \<or> \<not> r_value_is_raw r" and "r_data r = None \<or> \<not> r_data_is_raw r"
  shows "response_text malloc_ok r =
    ''{'' @ tl (members_text (response_members r)) @ ''}''"
proof -
  have plain: "json_member k x = quoted (json_body k) @ '':'' @ x"
    if "k \<in> {''id'', ''type'', ''env_id'', ''value'', ''message'', ''name'', ''data''}" for k x
    using that response_keys_plain by (intro json_member_plain) auto
  have m: "opt_text x (\<lambda>s. '','' @ json_member k (json_escape_string malloc_ok (Some s))) =
      members_text (opt_member k x)"
    if "k \<in> {''id'', ''type'', ''env_id'', ''value'', ''message'', ''name'', ''data''}" for k x
    using plain [OF that] assms(1)
    by (simp add: opt_text_def opt_member_def members_text_def json_escape_Some split: option.split)
  have app: "members_text (a @ b) = members_text a @ members_text b" for a b
    by (simp add: members_text_def)
  have v: "opt_text (r_value r) (\<lambda>s. '','' @ json_member ''value''
        (if r_value_is_raw r then s else json_escape_string malloc_ok (Some s))) =
      members_text (opt_member ''value'' (r_value r))"
    using m [of "''value''" "r_value r"] assms(2) by (auto simp: opt_text_def split: option.splits)
  have d: "opt_text (r_data r) (\<lambda>s. '','' @ json_member ''data''
        (if r_data_is_raw r then s else json_escape_string malloc_ok (Some s))) =
      members_text (opt_member ''data'' (r_data r))"
    using m [of "''data''" "r_data r"] assms(3) by (auto simp: opt_text_def split: option.splits)
  define h where "h = (case r_id r of Some (c # cs) \<Rightarrow> [(''id'', c # cs)] | _ \<Rightarrow> []) @ [(''type'', r_type r)]"
  define rest where "rest = opt_member ''env_id'' (r_env_id r) @ opt_member ''value'' (r_value r) @
    opt_member ''message'' (r_message r) @ opt_member ''name'' (r_name r) @ opt_member ''data'' (r_data r)"
  have hd: "(case r_id r of Some (c # cs) \<Rightarrow>
        json_member ''id'' (json_escape_string malloc_ok (Some (c # cs))) @ '','' | _ \<Rightarrow> []) @
      json_member ''type'' (json_escape_string malloc_ok (Some (r_type r))) = tl (members_text h)"
    using assms(1)
    by (simp add: h_def plain members_text_def json_escape_Some split: option.split list.split)
  have ne: "members_text h \<noteq> []"
    by (simp add: h_def members_text_def)
  have "response_text malloc_ok r = ''{'' @ tl (members_text h) @ members_text rest @ ''}''"
    unfolding response_text_def Let_def hd [symmetric] rest_def app
    by (simp only: m [of "''env_id''", simplified] m [of "''message''", simplified]
        m [of "''name''", simplified] v [simplified] d [simplified] append_assoc append.simps)
  moreover have "response_members r = h @ rest"
    by (simp add: response_members_def h_def rest_def)
  ultimately show ?thesis using ne by (simp add: app tl_append2)
qed

lemma json_body_no_newline: "CHR 0x0A \<notin> set (json_body s)"
  using json_escape_char_printable [of "CHR 0x0A"] by auto

text \<open>The raw fields of a response contain no line feed.\<close>

definition raw_one_line :: "response \<Rightarrow> bool" where
  "raw_one_line r \<longleftrightarrow>
     (r_value_is_raw r \<longrightarrow> CHR 0x0A \<notin> set (opt_text (r_value r) (\<lambda>s. s))) \<and>
     (r_data_is_raw r \<longrightarrow> CHR 0x0A \<notin> set (opt_text (r_data r) (\<lambda>s. s)))"

lemma response_text_no_newline:
  assumes "\<And>n. malloc_ok n" and "raw_one_line r"
  shows "CHR 0x0A \<notin> set (response_text malloc_ok r)"
proof -
  have esc: "CHR 0x0A \<notin> set (json_escape_string malloc_ok x)" for x
    using json_body_no_newline assms(1)
    by (cases x) (auto simp: json_escape_Some quoted_def json_escape_string_def)
  have mem: "CHR 0x0A \<notin> set (json_member k x)" if "CHR 0x0A \<notin> set k" "CHR 0x0A \<notin> set x" for k x
    using that by (simp add: json_member_def quoted_def)
  have opt: "CHR 0x0A \<notin> set (opt_text x (\<lambda>s. '','' @ json_member k (f s)))"
    if "\<And>s. x = Some s \<Longrightarrow> CHR 0x0A \<notin> set (f s)" "CHR 0x0A \<notin> set k" for x k f
    using that by (simp add: opt_text_def mem split: option.split)
  have id: "CHR 0x0A \<notin> set (case r_id r of Some (c # cs) \<Rightarrow>
      json_member ''id'' (json_escape_string malloc_ok (Some (c # cs))) @ '','' | _ \<Rightarrow> [])"
    by (simp add: mem esc split: option.split list.split)
  have v: "CHR 0x0A \<notin> set (opt_text (r_value r) (\<lambda>s. '','' @ json_member ''value''
      (if r_value_is_raw r then s else json_escape_string malloc_ok (Some s))))"
    using assms(2) esc by (intro opt) (auto simp: raw_one_line_def opt_text_def)
  have d: "CHR 0x0A \<notin> set (opt_text (r_data r) (\<lambda>s. '','' @ json_member ''data''
      (if r_data_is_raw r then s else json_escape_string malloc_ok (Some s))))"
    using assms(2) esc by (intro opt) (auto simp: raw_one_line_def opt_text_def)
  show ?thesis
    unfolding response_text_def Let_def set_append Un_iff de_Morgan_disj
    by (intro conjI) (rule id v d | intro opt mem esc | simp)+
qed

lemma split_lines_append:
  "CHR 0x0A \<notin> set l \<Longrightarrow> split_lines cur (l @ CHR 0x0A # s) =
     (let (ls, rest) = split_lines [] s in ((cur @ l) # ls, rest))"
  by (induction l arbitrary: cur) auto

lemma split_lines_concat:
  "(\<forall>l \<in> set ls. CHR 0x0A \<notin> set l) \<Longrightarrow> split_lines [] (concat (map (\<lambda>l. l @ [CHR 0x0A]) ls)) = (ls, [])"
  by (induction ls) (auto simp: split_lines_append)

lemma fold_send_response:
  "fold (\<lambda>l out. cqjs_send_response out l) ls out = out @ concat (map (\<lambda>l. l @ [CHR 0x0A]) ls)"
  by (induction ls arbitrary: out) (auto simp: cqjs_send_response_def)

lemma length_json_member [simp]: "length (json_member k x) = length k + length x + 3"
  by (simp add: json_member_def quoted_def)

lemma length_escape_short:
  "(\<And>n. malloc_ok n) \<Longrightarrow> list_all short_escape s \<Longrightarrow>
     length (json_escape_string malloc_ok (Some s)) \<le> 2 * length s + 2"
  using length_short_body [of s] by (simp add: json_escape_Some quoted_def)

text \<open>Every character of the fields has a short escape.\<close>

definition short_fields :: "response \<Rightarrow> bool" where
  "short_fields r \<longleftrightarrow> list_all (\<lambda>x. list_all short_escape (opt_text x (\<lambda>s. s)))
     [r_id r, Some (r_type r), r_env_id r, r_value r, r_message r, r_name r, r_data r]"

lemma length_opt_text:
  "(\<And>s. x = Some s \<Longrightarrow> length (f s) \<le> k + 2 * length s) \<Longrightarrow> length (opt_text x f) \<le> k + 2 * opt_len x"
  by (simp add: opt_text_def opt_len_def split: option.split)

section \<open>Properties\<close>

text \<open>
  Escaping loses nothing: a JSON reader gets the C string back from the escaped
  text, whatever follows it, and the text fits the buffer of \<open>6 * strlen + 3\<close> bytes allocated
  for it, with its NUL.
\<close>

theorem json_escape_roundtrip:
  assumes "\<And>n. malloc_ok n"
  shows "json_read_string (json_escape_string malloc_ok (Some s) @ rest) = Some (s, rest) \<and>
         length (json_escape_string malloc_ok (Some s)) + 1 \<le> length s * 6 + 3"
  using json_read_quoted [of s rest] length_json_body [of s] assms
  by (simp add: json_escape_Some) (simp add: quoted_def)

theorem json_escape_roundtrip_witness:
  "json_read_string (json_escape_string (\<lambda>_. True) (Some [CHR ''a'', CHR 0x22, CHR 0x01]) @ ''}'') =
     Some ([CHR ''a'', CHR 0x22, CHR 0x01], ''}'') \<and>
   length (json_escape_string (\<lambda>_. True) (Some [CHR ''a'', CHR 0x22, CHR 0x01])) + 1
     \<le> length [CHR ''a'', CHR 0x22, CHR 0x01] * 6 + 3"
  using json_escape_roundtrip [of "\<lambda>_. True" "[CHR ''a'', CHR 0x22, CHR 0x01]" "''}''"] by blast

text \<open>
  Property C32.  A response whose value and data are not raw is a JSON object that reads back as
  exactly its members, in the order id, type, env_id, value, message, name, data: absent fields
  are left out, an empty id as well, and no field can break out of its string.
\<close>

theorem response_roundtrip:
  assumes "\<And>n. malloc_ok n"
    and "r_value r = None \<or> \<not> r_value_is_raw r" and "r_data r = None \<or> \<not> r_data_is_raw r"
  shows "json_read_object (response_text malloc_ok r) = Some (response_members r)"
proof -
  obtain k v kvs where m: "response_members r = (k, v) # kvs"
  proof (cases "response_members r")
    case Nil
    then show ?thesis by (simp add: response_members_def)
  next
    case (Cons kv kvs)
    then show ?thesis using that by (cases kv) simp
  qed
  have txt_eq: "response_text malloc_ok r =
      CHR ''{'' # quoted (json_body k) @ '':'' @ quoted (json_body v) @ members_text kvs @ ''}''"
    using response_text_members [of malloc_ok r, OF assms] m by (simp add: members_text_def)
  have "length l \<le> length (members_text l)" for l
    by (induction l) (auto simp: members_text_def)
  from this [of kvs] have "length kvs < length (response_text malloc_ok r)"
    unfolding txt_eq by simp
  with txt_eq show ?thesis
    using json_read_members_text [of kvs "length (response_text malloc_ok r)" k v] m
    by (simp add: json_read_object_def)
qed

theorem response_roundtrip_witness:
  "json_read_object (response_text (\<lambda>_. True)
     \<lparr>r_id = Some ''1'', r_type = ''result'', r_env_id = None, r_value = Some [CHR 0x22, CHR 0x0A],
      r_value_is_raw = False, r_message = None, r_name = None, r_data = None, r_data_is_raw = False\<rparr>) =
   Some [(''id'', ''1''), (''type'', ''result''), (''value'', [CHR 0x22, CHR 0x0A])]"
  using response_roundtrip [of "\<lambda>_. True"
     "\<lparr>r_id = Some ''1'', r_type = ''result'', r_env_id = None, r_value = Some [CHR 0x22, CHR 0x0A],
      r_value_is_raw = False, r_message = None, r_name = None, r_data = None, r_data_is_raw = False\<rparr>"]
  by (simp add: response_members_def opt_member_def)

text \<open>
  JSON Lines framing: whatever the fields hold, a response whose raw parts contain
  no line feed is one line.  Sending any number of them writes exactly these lines, each
  terminated, so a reader that splits the stream gets the responses back one by one.
\<close>

theorem response_lines:
  assumes "\<And>n. malloc_ok n" and "\<forall>r \<in> set rs. raw_one_line r"
  shows "split_lines [] (fold (\<lambda>r out. cqjs_send_response out (response_text malloc_ok r)) rs []) =
           (map (response_text malloc_ok) rs, [])"
proof -
  have "fold (\<lambda>r out. cqjs_send_response out (response_text malloc_ok r)) rs [] =
      concat (map (\<lambda>l. l @ [CHR 0x0A]) (map (response_text malloc_ok) rs))"
    using fold_send_response [of "map (response_text malloc_ok) rs" "[]"] by (simp add: fold_map comp_def)
  moreover have "\<forall>l \<in> set (map (response_text malloc_ok) rs). CHR 0x0A \<notin> set l"
    using response_text_no_newline [of malloc_ok, OF assms(1)] assms(2) by auto
  ultimately show ?thesis by (simp only: split_lines_concat)
qed

theorem response_lines_witness:
  "let r = \<lparr>r_id = Some [CHR 0x0A], r_type = ''event'', r_env_id = Some ''e'', r_value = None,
            r_value_is_raw = False, r_message = None, r_name = Some ''n'', r_data = Some ''{}'',
            r_data_is_raw = True\<rparr> in
   split_lines [] (fold (\<lambda>r out. cqjs_send_response out (response_text (\<lambda>_. True) r)) [r, r] []) =
     (map (response_text (\<lambda>_. True)) [r, r], [])"
  unfolding Let_def
  by (rule response_lines) (simp_all add: raw_one_line_def opt_text_def)

text \<open>
  Property C33.  No overflow for ordinary responses: where every character of the escaped fields
  has an escape of at most two characters, and id, type and name, which the size computation
  leaves out, have together at most 218 characters, the text and its NUL fit the buffer and the
  line is sent.
\<close>

theorem send_json_response_fits:
  assumes "\<And>n. malloc_ok n"
    and "short_fields r"
    and "opt_len (r_id r) + length (r_type r) + opt_len (r_name r) \<le> 218"
  shows "send_json_response malloc_ok r out = Sent (cqjs_send_response out (response_text malloc_ok r))"
proof -
  let ?esc = "\<lambda>s. json_escape_string malloc_ok (Some s)"
  have esc: "length (?esc s) \<le> 2 * length s + 2" if "list_all short_escape s" for s
    using that assms(1) by (rule length_escape_short [rotated])
  let ?id = "(case r_id r of Some (c # cs) \<Rightarrow> json_member ''id'' (?esc (c # cs)) @ '','' | _ \<Rightarrow> [])"
  have "length ?id \<le> 8 + 2 * opt_len (r_id r)"
  proof (cases "r_id r")
    case (Some s)
    then have "list_all short_escape s" using assms(2) by (simp add: short_fields_def opt_text_def)
    with esc [of s] Some show ?thesis by (cases s) (simp_all add: opt_len_def)
  qed simp
  moreover have "length (json_member ''type'' (?esc (r_type r))) \<le> 9 + 2 * length (r_type r)"
    using esc [of "r_type r"] assms(2) by (simp add: short_fields_def opt_text_def)
  moreover have "length (opt_text (r_env_id r) (\<lambda>s. '','' @ json_member ''env_id'' (?esc s)))
      \<le> 12 + 2 * opt_len (r_env_id r)"
    by (rule length_opt_text) (use esc assms(2) in \<open>simp add: short_fields_def opt_text_def\<close>)
  moreover have "length (opt_text (r_value r)
        (\<lambda>s. '','' @ json_member ''value'' (if r_value_is_raw r then s else ?esc s)))
      \<le> 11 + 2 * opt_len (r_value r)"
    by (rule length_opt_text) (use esc assms(2) in \<open>simp add: short_fields_def opt_text_def\<close>)
  moreover have "length (opt_text (r_message r) (\<lambda>s. '','' @ json_member ''message'' (?esc s)))
      \<le> 13 + 2 * opt_len (r_message r)"
    by (rule length_opt_text) (use esc assms(2) in \<open>simp add: short_fields_def opt_text_def\<close>)
  moreover have "length (opt_text (r_name r) (\<lambda>s. '','' @ json_member ''name'' (?esc s)))
      \<le> 10 + 2 * opt_len (r_name r)"
    by (rule length_opt_text) (use esc assms(2) in \<open>simp add: short_fields_def opt_text_def\<close>)
  moreover have "length (opt_text (r_data r)
        (\<lambda>s. '','' @ json_member ''data'' (if r_data_is_raw r then s else ?esc s)))
      \<le> 10 + 2 * opt_len (r_data r)"
    by (rule length_opt_text) (use esc assms(2) in \<open>simp add: short_fields_def opt_text_def\<close>)
  ultimately have "length (response_text malloc_ok r) + 1 \<le> response_cap r + 256"
    using assms(3) by (simp add: response_text_def response_cap_def Let_def)
  then show ?thesis
    using assms(1) by (simp add: send_json_response_def Let_def)
qed

theorem send_json_response_fits_witness:
  "let r = \<lparr>r_id = Some ''1'', r_type = ''result'', r_env_id = None, r_value = Some [CHR ''2'', CHR 0x0A],
            r_value_is_raw = False, r_message = None, r_name = None, r_data = None,
            r_data_is_raw = False\<rparr> in
   send_json_response (\<lambda>_. True) r [] = Sent (cqjs_send_response [] (response_text (\<lambda>_. True) r))"
  unfolding Let_def
  by (rule send_json_response_fits) (simp_all add: short_fields_def short_escape_def opt_len_def opt_text_def)

text \<open>
  Property C37.  The size computation is too small in general.  It counts two bytes per character
  of a message where a control character takes six, and it does not count the id at all: an error
  message of 121 or more control characters, or an id of 490 or more plain characters, makes
  \<^verbatim>\<open>sprintf\<close> write past the end of the heap buffer.
\<close>

theorem send_json_response_overflows:
  assumes "\<And>n. malloc_ok n" and "121 \<le> n" and "490 \<le> k"
  shows "send_json_response malloc_ok
           \<lparr>r_id = None, r_type = ''error'', r_env_id = None, r_value = None, r_value_is_raw = False,
            r_message = Some (replicate n (CHR 0x01)), r_name = None, r_data = None,
            r_data_is_raw = False\<rparr> out = BufferOverflow \<and>
         send_json_response malloc_ok
           \<lparr>r_id = Some (replicate k (CHR ''x'')), r_type = ''result'', r_env_id = None, r_value = None,
            r_value_is_raw = False, r_message = None, r_name = None, r_data = None,
            r_data_is_raw = False\<rparr> out = BufferOverflow"
proof
  have "length (json_body (replicate n (CHR 0x01))) = 6 * n"
    by (induction n) (simp_all add: json_escape_char_def hex_04x_def)
  then show "send_json_response malloc_ok
           \<lparr>r_id = None, r_type = ''error'', r_env_id = None, r_value = None, r_value_is_raw = False,
            r_message = Some (replicate n (CHR 0x01)), r_name = None, r_data = None,
            r_data_is_raw = False\<rparr> out = BufferOverflow"
    using assms(1,2)
    by (simp add: send_json_response_def response_text_def response_cap_def opt_len_def opt_text_def
        Let_def json_escape_Some quoted_def json_escape_char_def [of "CHR ''e''"]
        json_escape_char_def [of "CHR ''r''"] json_escape_char_def [of "CHR ''o''"])
next
  have "length (json_body (replicate k (CHR ''x''))) = k"
    by (induction k) (simp_all add: json_escape_char_def)
  moreover obtain cs where "replicate k (CHR ''x'') = CHR ''x'' # cs"
    using assms(3) by (cases k) auto
  ultimately show "send_json_response malloc_ok
           \<lparr>r_id = Some (replicate k (CHR ''x'')), r_type = ''result'', r_env_id = None, r_value = None,
            r_value_is_raw = False, r_message = None, r_name = None, r_data = None,
            r_data_is_raw = False\<rparr> out = BufferOverflow"
    using assms(1,3)
    by (simp add: send_json_response_def response_text_def response_cap_def opt_len_def opt_text_def
        Let_def json_escape_Some quoted_def json_escape_char_def [of "CHR ''r''"]
        json_escape_char_def [of "CHR ''e''"] json_escape_char_def [of "CHR ''s''"]
        json_escape_char_def [of "CHR ''u''"] json_escape_char_def [of "CHR ''l''"]
        json_escape_char_def [of "CHR ''t''"])
qed

theorem send_json_response_overflows_witness:
  "send_json_response (\<lambda>_. True)
           \<lparr>r_id = None, r_type = ''error'', r_env_id = None, r_value = None, r_value_is_raw = False,
            r_message = Some (replicate 121 (CHR 0x01)), r_name = None, r_data = None,
            r_data_is_raw = False\<rparr> [] = BufferOverflow"
  using send_json_response_overflows [of "\<lambda>_. True" 121 490 "[]"] by simp

end
