(* ===== verification/Environment.thy ===== *)
theory Environment
  imports Engine Dispatch Bytecode_Cache Json_Response
begin

text \<open>
  One JavaScript environment (\<^verbatim>\<open>src/env_manager.c\<close>, \<^verbatim>\<open>src/env_manager.h\<close> and the big-stack wrappers of
  \<^verbatim>\<open>src/cqjs.c\<close>): its state \<open>js_env\<close>, the native functions its scripts call, the wrappers that run the engine
  on a thread with a large stack, the processing of jobs, timers and fetches, the handling of requests and the
  event loop.  \<open>je_out\<close> collects the responses in the order in which the environment sends them; how a
  response becomes a line of output is the matter of \<open>Json_Response\<close>.  \<open>je_clock\<close> and \<open>je_tick\<close> count the
  readings of the clock and the other questions put to the world, and \<open>je_submitted\<close> lists every request that
  was ever submitted; the C structure has no such fields and no operation reads the last one.  \<open>je_globals\<close> are
  the native bindings the environment was created with.
\<close>

section \<open>State\<close>

text \<open>
  The threads that run code of an environment: the main thread while it is created, its event loop afterwards, and the
  big-stack threads.  \<open>je_thread\<close> is the one running now and \<open>je_stack_top\<close> the one whose stack the engine was last
  told of, by \<^verbatim>\<open>JS_NewRuntime\<close> or \<^verbatim>\<open>JS_UpdateStackTop\<close>.
\<close>

datatype env_thread = MainThread | LoopThread | BigStackThread

record ('v, 'h) js_env =
  je_env_id :: string
  je_heap :: 'h
  je_thread :: env_thread
  je_stack_top :: env_thread
  je_timer_mgr :: "'v timer_manager"
  je_clock :: nat
  je_fetch_mgr :: "'v fetch_manager"
  je_dispatch :: dispatch_tracker
  je_bridge :: bool
  je_globals :: js_object
  je_requests :: request_queue
  je_pipe :: string
  je_running :: bool
  je_memory_limit_mb :: int
  je_stack_size_mb :: int
  je_tick :: nat
  je_out :: "response list"
  je_submitted :: "env_request list"

definition ask :: "('v, 'h) js_env \<Rightarrow> ('v, 'h) js_env" where
  "ask e = e\<lparr>je_tick := Suc (je_tick e)\<rparr>"

definition send :: "response \<Rightarrow> ('v, 'h) js_env \<Rightarrow> ('v, 'h) js_env" where
  "send r e = e\<lparr>je_out := je_out e @ [r]\<rparr>"

definition on_heap :: "('h \<Rightarrow> 'h) \<Rightarrow> ('v, 'h) js_env \<Rightarrow> ('v, 'h) js_env" where
  "on_heap f e = e\<lparr>je_heap := f (je_heap e)\<rparr>"

section \<open>Responses\<close>

text \<open>A name between single quotation marks.\<close>

definition apos :: "string \<Rightarrow> string" where
  "apos s = [CHR 0x27] @ s @ [CHR 0x27]"

definition error_response :: "string option \<Rightarrow> string \<Rightarrow> response" where
  "error_response i msg =
     \<lparr>r_id = i, r_type = ''error'', r_env_id = None, r_value = None, r_value_is_raw = False,
      r_message = Some msg, r_name = None, r_data = None, r_data_is_raw = False\<rparr>"

definition result_response :: "string option \<Rightarrow> string option \<Rightarrow> response" where
  "result_response i v =
     \<lparr>r_id = i, r_type = ''result'', r_env_id = None, r_value = v, r_value_is_raw = False,
      r_message = None, r_name = None, r_data = None, r_data_is_raw = False\<rparr>"

definition event_response :: "string \<Rightarrow> string \<Rightarrow> string \<Rightarrow> response" where
  "event_response env_id name data =
     \<lparr>r_id = None, r_type = ''event'', r_env_id = Some env_id, r_value = None, r_value_is_raw = False,
      r_message = None, r_name = Some name, r_data = Some data, r_data_is_raw = True\<rparr>"

section \<open>Native functions\<close>

text \<open>
  \<^verbatim>\<open>__cqjs_send\<close>: the events \<^verbatim>\<open>response\<close> and \<^verbatim>\<open>error\<close> complete a request of the dispatch tracker, every other
  event goes out as a response of type \<^verbatim>\<open>event\<close>.
\<close>

definition dispatch_response ::
    "('v, 'h) engine \<Rightarrow> string \<Rightarrow> ('v, 'h) js_env \<Rightarrow> ('v, 'h) js_env" where
  "dispatch_response eng data_str e =
     (case en_parse_json eng data_str (je_heap e) of
        (None, h) \<Rightarrow> e\<lparr>je_heap := h\<rparr>
      | (Some parsed, h) \<Rightarrow>
          (let api = en_api eng h; e1 = e\<lparr>je_heap := h\<rparr> in
           if js_is_object api parsed then
             (case js_cstring api (js_get_property api parsed ''id'') of
                None \<Rightarrow> e1
              | Some id_str \<Rightarrow>
                  (let result_str = js_cstring api (js_get_property api parsed ''data'') in
                   e1\<lparr>je_dispatch := dt_resolve (je_dispatch e1) id_str
                        (Some (case result_str of Some s \<Rightarrow> s | None \<Rightarrow> ''null''))\<rparr>))
           else e1))"

definition dispatch_error ::
    "('v, 'h) engine \<Rightarrow> string \<Rightarrow> ('v, 'h) js_env \<Rightarrow> ('v, 'h) js_env" where
  "dispatch_error eng data_str e =
     (case en_parse_json eng data_str (je_heap e) of
        (None, h) \<Rightarrow> e\<lparr>je_heap := h\<rparr>
      | (Some parsed, h) \<Rightarrow>
          (let api = en_api eng h; e1 = e\<lparr>je_heap := h\<rparr> in
           if js_is_object api parsed then
             (let err_str = js_cstring api (js_get_property api parsed ''error'') in
              case js_cstring api (js_get_property api parsed ''id'') of
                None \<Rightarrow> e1
              | Some id_str \<Rightarrow>
                  e1\<lparr>je_dispatch := dt_reject (je_dispatch e1) id_str
                       (Some (case err_str of Some (c # cs) \<Rightarrow> c # cs | _ \<Rightarrow> ''unknown dispatch error''))\<rparr>)
           else e1))"

definition js_env_cqjs_send ::
    "('v, 'h) engine \<Rightarrow> 'v list \<Rightarrow> ('v, 'h) js_env \<Rightarrow> js_result \<times> ('v, 'h) js_env" where
  "js_env_cqjs_send eng argv e =
     (case argv of
        a0 # a1 # _ \<Rightarrow>
          (case (js_cstring (en_api eng (je_heap e)) a0, js_cstring (en_api eng (je_heap e)) a1) of
             (Some event_name, Some data_str) \<Rightarrow>
               (JS_UNDEFINED,
                if \<not> je_bridge e then e
                else if event_name = ''response'' then dispatch_response eng data_str e
                else if event_name = ''error'' then dispatch_error eng data_str e
                else send (event_response (je_env_id e) event_name data_str) e)
           | _ \<Rightarrow> (JS_UNDEFINED, e))
      | _ \<Rightarrow> (JS_UNDEFINED, e))"

text \<open>The engine's reference counting, for the native timer functions.\<close>

definition timer_refs :: "('v, 'h) engine \<Rightarrow> ('v, ('v, 'h) js_env) timer_env" where
  "timer_refs eng = \<lparr>js_dup = \<lambda>v. on_heap (en_dup eng v), js_free = \<lambda>v. on_heap (en_free eng v), js_callback = \<lambda>_ s. s\<rparr>"

definition with_timers :: "'a \<times> ('v, ('v, 'h) js_env) timer_state \<Rightarrow> 'a \<times> ('v, 'h) js_env" where
  "with_timers = (\<lambda>(r, tm, n, e). (r, e\<lparr>je_timer_mgr := tm, je_clock := n\<rparr>))"

abbreviation timers_of :: "('v, 'h) js_env \<Rightarrow> ('v, ('v, 'h) js_env) timer_state" where
  "timers_of e \<equiv> (je_timer_mgr e, je_clock e, e)"

abbreviation env_clock :: "host_world \<Rightarrow> nat \<Rightarrow> timespec" where
  "env_clock w \<equiv> clock_gettime (w_clock_ns w)"

fun host_call ::
    "host_world \<Rightarrow> ('v, 'h) engine \<Rightarrow> 'v host_call \<Rightarrow> ('v, 'h) js_env \<Rightarrow> 'v host_answer \<times> ('v, 'h) js_env" where
  "host_call w eng (Call_setTimeout argv) e =
     apfst Inl (with_timers (js_set_timeout (env_clock w) (w_calloc_ok w (je_tick e)) (en_api eng (je_heap e))
       (timer_refs eng) (en_tm_ptr eng (je_heap e)) argv (timers_of (ask e))))"
| "host_call w eng (Call_setInterval argv) e =
     apfst Inl (with_timers (js_set_interval (env_clock w) (w_calloc_ok w (je_tick e)) (en_api eng (je_heap e))
       (timer_refs eng) (en_tm_ptr eng (je_heap e)) argv (timers_of (ask e))))"
| "host_call w eng (Call_clearTimeout argv) e =
     apfst Inl (with_timers (js_clear_timeout (en_api eng (je_heap e)) (en_tm_ptr eng (je_heap e)) argv (timers_of e)))"
| "host_call w eng (Call_clearInterval argv) e =
     apfst Inl (with_timers (js_clear_interval (en_api eng (je_heap e)) (en_tm_ptr eng (je_heap e)) argv (timers_of e)))"
| "host_call w eng (Call_fetch argv) e =
     (case en_new_promise eng (je_heap e) of (cap, h) \<Rightarrow>
      case js_fetch (en_api eng (je_heap e)) (w_thread_ok w (je_tick e)) cap (en_fm_ptr eng (je_heap e)) argv (je_fetch_mgr e) of
        (Inl r, fm) \<Rightarrow> (Inl r, (ask e)\<lparr>je_fetch_mgr := fm\<rparr>)
      | (Inr promise, fm) \<Rightarrow> (Inr promise, (ask e)\<lparr>je_fetch_mgr := fm, je_heap := h\<rparr>))"
| "host_call w eng (Call_cqjs_send argv) e = apfst Inl (js_env_cqjs_send eng argv e)"

primrec run_script ::
    "host_world \<Rightarrow> ('v, 'h) engine \<Rightarrow> ('v, 'h) script \<Rightarrow> ('v, 'h) js_env \<Rightarrow> 'v option \<times> ('v, 'h) js_env" where
  "run_script w eng (ScriptEnd r h) = (\<lambda>e. (r, e\<lparr>je_heap := h\<rparr>))"
| "run_script w eng (HostCall c h k) =
     (\<lambda>e. case host_call w eng c (e\<lparr>je_heap := h\<rparr>) of (a, e') \<Rightarrow> run_script w eng (k a (je_heap e')) e')"

section \<open>Running the engine on a big stack\<close>

text \<open>
  The three wrappers have the same shape: the function \<open>run\<close> runs on a new thread, which first tells the engine
  about its stack, and the caller joins it and tells the engine about its own stack again; where the
  thread cannot be created it runs in place.
\<close>

definition on_big_stack ::
    "host_world \<Rightarrow> (('v, 'h) js_env \<Rightarrow> 'r \<times> ('v, 'h) js_env) \<Rightarrow> ('v, 'h) js_env \<Rightarrow> 'r \<times> ('v, 'h) js_env" where
  "on_big_stack w run e =
     (if w_thread_ok w (je_tick e) then
        (case run ((ask e)\<lparr>je_stack_top := BigStackThread\<rparr>) of (r, e') \<Rightarrow> (r, e'\<lparr>je_stack_top := je_thread e'\<rparr>))
      else run (ask e))"

definition cqjs_eval ::
    "host_world \<Rightarrow> ('v, 'h) engine \<Rightarrow> string \<Rightarrow> string \<Rightarrow> bool \<Rightarrow> ('v, 'h) js_env \<Rightarrow> 'v option \<times> ('v, 'h) js_env" where
  "cqjs_eval w eng input filename compile_only =
     on_big_stack w (\<lambda>e. run_script w eng (en_eval eng input filename compile_only (je_heap e)) e)"

definition cqjs_eval_function ::
    "host_world \<Rightarrow> ('v, 'h) engine \<Rightarrow> 'v \<Rightarrow> ('v, 'h) js_env \<Rightarrow> 'v option \<times> ('v, 'h) js_env" where
  "cqjs_eval_function w eng func_obj =
     on_big_stack w (\<lambda>e. run_script w eng (en_eval_function eng func_obj (je_heap e)) e)"

definition cqjs_call ::
    "host_world \<Rightarrow> ('v, 'h) engine \<Rightarrow> 'v \<Rightarrow> ('v, 'h) js_env \<Rightarrow> 'v option \<times> ('v, 'h) js_env" where
  "cqjs_call w eng func_obj =
     on_big_stack w (\<lambda>e. run_script w eng (en_call eng func_obj (je_heap e)) e)"

text \<open>\<^verbatim>\<open>cqjs_call\<close> of a resolving function of a promise, with its argument.\<close>

definition cqjs_call_settle ::
    "host_world \<Rightarrow> ('v, 'h) engine \<Rightarrow> 'v \<Rightarrow> settle_arg \<Rightarrow> ('v, 'h) js_env \<Rightarrow> ('v, 'h) js_env" where
  "cqjs_call_settle w eng func_obj arg e =
     snd (on_big_stack w (\<lambda>e. ((), on_heap (en_settle eng func_obj arg) e)) e)"

section \<open>Jobs, timers and fetches\<close>

text \<open>What a timer callback does, run by \<^verbatim>\<open>cqjs_call\<close>; its result is freed whether or not it is an exception.\<close>

definition env_timer_env :: "host_world \<Rightarrow> ('v, 'h) engine \<Rightarrow> ('v, ('v, 'h) js_env) timer_env" where
  "env_timer_env w eng = (timer_refs eng)\<lparr>js_callback := (\<lambda>cb (tm, n, x).
     case cqjs_call w eng cb (x\<lparr>je_timer_mgr := tm, je_clock := n\<rparr>) of
       (result, e) \<Rightarrow>
         (let e' = (case result of Some v \<Rightarrow> on_heap (en_free eng v) e | None \<Rightarrow> e)
          in timers_of e'))\<rparr>"

text \<open>The fetch threads may run before each look at a \<^verbatim>\<open>completed\<close> flag and while a promise is settled.\<close>

definition env_fetch_env :: "host_world \<Rightarrow> ('v, 'h) engine \<Rightarrow> ('v, ('v, 'h) js_env) fetch_env" where
  "env_fetch_env w eng =
     \<lparr>fe_call = \<lambda>f arg (fm, x). (run_workers (w_curl w) (w_workers w (je_tick x)) fm, cqjs_call_settle w eng f arg x),
      fe_free = \<lambda>v. on_heap (en_free eng v),
      fe_workers = \<lambda>(fm, x). (run_workers (w_curl w) (w_workers w (je_tick x)) fm, ask x)\<rparr>"

definition env_timer_pass ::
    "host_world \<Rightarrow> ('v, 'h) engine \<Rightarrow> ('v, 'h) js_env \<Rightarrow> (int list \<times> ('v, 'h) js_env) option" where
  "env_timer_pass w eng e =
     map_option with_timers (tm_process_pending (env_clock w) (env_timer_env w eng) (timers_of e))"

definition env_fetch_pass ::
    "host_world \<Rightarrow> ('v, 'h) engine \<Rightarrow> ('v, 'h) js_env \<Rightarrow> ((nat \<times> 'v \<times> settle_arg) list \<times> ('v, 'h) js_env) option" where
  "env_fetch_pass w eng e =
     map_option (\<lambda>(settled, fm, x). (settled, x\<lparr>je_fetch_mgr := fm\<rparr>))
       (fm_process_pending (env_fetch_env w eng) (je_fetch_mgr e, e))"

text \<open>The exception is taken from the context and freed; its message goes to the log.\<close>

definition drop_exception :: "('v, 'h) engine \<Rightarrow> ('v, 'h) js_env \<Rightarrow> ('v, 'h) js_env" where
  "drop_exception eng e = on_heap (\<lambda>h. case en_exception eng h of (exc, h') \<Rightarrow> en_free eng exc h') e"

definition env_run_job ::
    "host_world \<Rightarrow> ('v, 'h) engine \<Rightarrow> ('v, 'h) js_env \<Rightarrow> int \<times> ('v, 'h) js_env" where
  "env_run_job w eng e =
     (case en_job eng (je_heap e) of
        None \<Rightarrow> (0, e)
      | Some sc \<Rightarrow>
          (case run_script w eng sc e of
             (Some v, e') \<Rightarrow> (1, on_heap (en_free eng v) e')
           | (None, e') \<Rightarrow> (- 1, drop_exception eng e')))"

definition env_submit_request :: "env_request \<Rightarrow> ('v, 'h) js_env \<Rightarrow> ('v, 'h) js_env" where
  "env_submit_request req e = e\<lparr>je_requests := rq_push req (je_requests e), je_pipe := je_pipe e @ ''r'',
     je_submitted := je_submitted e @ [req]\<rparr>"

text \<open>What the main thread submits before the event loop next takes the queue's mutex.\<close>

definition env_arrivals :: "host_world \<Rightarrow> ('v, 'h) js_env \<Rightarrow> ('v, 'h) js_env" where
  "env_arrivals w e = fold env_submit_request (w_arrivals w (je_tick e)) (ask e)"

text \<open>\<open>k\<close> is the number of rounds left of the 100.\<close>

fun env_jobs_loop ::
    "nat \<Rightarrow> host_world \<Rightarrow> ('v, 'h) engine \<Rightarrow> ('v, 'h) js_env \<Rightarrow> ('v, 'h) js_env option" where
  "env_jobs_loop 0 w eng e = Some e"
| "env_jobs_loop (Suc k) w eng e =
     (case env_run_job w eng e of (executed, e1) \<Rightarrow>
      case env_timer_pass w eng e1 of
        None \<Rightarrow> None
      | Some (fired, e2) \<Rightarrow>
          (case env_fetch_pass w eng e2 of
             None \<Rightarrow> None
           | Some (settled, e3) \<Rightarrow>
               if executed \<le> 0 \<and> fired = [] \<and> settled = [] then Some e3
               else
                 let e4 = env_arrivals w e3 in
                 if rq_head (je_requests e4) \<noteq> None then Some e4
                 else env_jobs_loop k w eng e4))"

definition env_process_jobs :: "host_world \<Rightarrow> ('v, 'h) engine \<Rightarrow> ('v, 'h) js_env \<Rightarrow> ('v, 'h) js_env option" where
  "env_process_jobs w eng e = env_jobs_loop 100 w eng e"

section \<open>Requests\<close>

text \<open>
  Evaluation through the cache: a hit is deserialised and run, falling back to the source when that fails; a
  miss is compiled, stored and run.  \<open>None\<close> for the cache is the null pointer.
\<close>

definition eval_hit ::
    "host_world \<Rightarrow> ('v, 'h) engine \<Rightarrow> string \<Rightarrow> string \<Rightarrow> byte list \<Rightarrow> ('v, 'h) js_env \<Rightarrow> 'v option \<times> ('v, 'h) js_env" where
  "eval_hit w eng src filename bytecode e =
     (case en_read_object eng bytecode (je_heap e) of
        (None, h) \<Rightarrow> cqjs_eval w eng src filename False (drop_exception eng (e\<lparr>je_heap := h\<rparr>))
      | (Some obj, h) \<Rightarrow> cqjs_eval_function w eng obj (e\<lparr>je_heap := h\<rparr>))"

definition eval_miss ::
    "host_world \<Rightarrow> ('v, 'h) engine \<Rightarrow> string \<Rightarrow> string \<Rightarrow> string \<Rightarrow> bytecode_cache \<Rightarrow> ('v, 'h) js_env \<Rightarrow>
     'v option \<times> bytecode_cache \<times> ('v, 'h) js_env" where
  "eval_miss w eng src filename hash cache e =
     (case cqjs_eval w eng src filename True e of
        (None, e1) \<Rightarrow> (None, cache, e1)
      | (Some compiled, e1) \<Rightarrow>
          (let cache' = (case en_write_object eng compiled (je_heap e1) of
                           Some bc_data \<Rightarrow> (if bc_data \<noteq> [] then bc_insert cache hash bc_data (w_now_ms w (je_tick e1)) else cache)
                         | None \<Rightarrow> cache)
           in case cqjs_eval_function w eng compiled (ask e1) of (r, e2) \<Rightarrow> (r, cache', e2)))"

definition eval_cached ::
    "host_world \<Rightarrow> ('v, 'h) engine \<Rightarrow> string \<Rightarrow> string \<Rightarrow> bytecode_cache option \<Rightarrow> ('v, 'h) js_env \<Rightarrow>
     'v option \<times> bytecode_cache option \<times> ('v, 'h) js_env" where
  "eval_cached w eng src filename cache e =
     (case cache of
        None \<Rightarrow> (case cqjs_eval w eng src filename False e of (r, e1) \<Rightarrow> (r, None, e1))
      | Some c \<Rightarrow>
          (let hash = bc_compute_hash (w_sha256 w) (bytes_of src) in
           case bc_lookup c hash (w_now_ms w (je_tick e)) of
             (Some entry, c1) \<Rightarrow>
               (case eval_hit w eng src filename (be_bytecode entry) (ask e) of (r, e1) \<Rightarrow> (r, Some c1, e1))
           | (None, c1) \<Rightarrow>
               (case eval_miss w eng src filename hash c1 (ask e) of (r, c2, e1) \<Rightarrow> (r, Some c2, e1))))"

text \<open>The response to an evaluation.\<close>

definition env_respond ::
    "('v, 'h) engine \<Rightarrow> string \<Rightarrow> string option \<Rightarrow> 'v option \<Rightarrow> ('v, 'h) js_env \<Rightarrow> ('v, 'h) js_env" where
  "env_respond eng default_msg request_id result e =
     (case result of
        None \<Rightarrow>
          (case en_exception eng (je_heap e) of (exc, h) \<Rightarrow>
           let msg = (case js_cstring (en_api eng h) exc of Some m \<Rightarrow> m | None \<Rightarrow> default_msg)
           in send (error_response request_id msg) (e\<lparr>je_heap := en_free eng exc h\<rparr>))
      | Some v \<Rightarrow>
          send (result_response request_id (js_cstring (en_api eng (je_heap e)) v)) (on_heap (en_free eng v) e))"

type_synonym ('v, 'h) served = "(bytecode_cache option \<times> ('v, 'h) js_env) option"

definition env_handle_eval ::
    "host_world \<Rightarrow> ('v, 'h) engine \<Rightarrow> env_request \<Rightarrow> bytecode_cache option \<Rightarrow> ('v, 'h) js_env \<Rightarrow> ('v, 'h) served" where
  "env_handle_eval w eng req cache e =
     (case rq_code req of
        None \<Rightarrow> Some (cache, send (error_response (rq_request_id req) (''eval: missing '' @ apos ''code'')) e)
      | Some src \<Rightarrow>
          (let filename = (case rq_filename req of Some f \<Rightarrow> f | None \<Rightarrow> ''<eval>'') in
           case eval_cached w eng src filename cache e of (result, cache', e1) \<Rightarrow>
           map_option (Pair cache')
             (env_process_jobs w eng (env_respond eng ''eval error'' (rq_request_id req) result e1))))"

definition env_handle_eval_file ::
    "host_world \<Rightarrow> ('v, 'h) engine \<Rightarrow> env_request \<Rightarrow> ('v, 'h) js_env \<Rightarrow> ('v, 'h) js_env option" where
  "env_handle_eval_file w eng req e =
     (case rq_path req of
        None \<Rightarrow> Some (send (error_response (rq_request_id req) (''eval_file: missing '' @ apos ''path'')) e)
      | Some path \<Rightarrow>
          (case cqjs_read_file (w_malloc_ok w) (w_fopen w) path of
             None \<Rightarrow>
               Some (send (error_response (rq_request_id req)
                 (snprintf 512 (''eval_file: cannot read '' @ apos path))) e)
           | Some file_content \<Rightarrow>
               (case cqjs_eval w eng file_content path False e of (result, e1) \<Rightarrow>
                env_process_jobs w eng (env_respond eng ''eval_file error'' (rq_request_id req) result e1))))"

definition env_handle_request ::
    "host_world \<Rightarrow> ('v, 'h) engine \<Rightarrow> env_request \<Rightarrow> bytecode_cache option \<Rightarrow> ('v, 'h) js_env \<Rightarrow> ('v, 'h) served" where
  "env_handle_request w eng req cache e =
     (if rq_type req = ''eval'' then env_handle_eval w eng req cache e
      else if rq_type req = ''eval_file'' then map_option (Pair cache) (env_handle_eval_file w eng req e)
      else Some (cache, send (error_response (rq_request_id req)
             (snprintf 128 (''unknown request type for env: '' @ rq_type req))) e))"

section \<open>The event loop\<close>

text \<open>
  The loop over the request queue, which ends when it finds the queue empty; new requests may arrive each time
  before the mutex is taken, so it returns an option.  \<open>handled\<close> lists the requests taken so far.
\<close>

partial_function (option) env_drain ::
    "host_world \<Rightarrow> ('v, 'h) engine \<Rightarrow> env_request list \<Rightarrow> bytecode_cache option \<times> ('v, 'h) js_env \<Rightarrow>
     (env_request list \<times> bytecode_cache option \<times> ('v, 'h) js_env) option" where
  "env_drain w eng handled s =
     (case s of (cache, e) \<Rightarrow>
      let e1 = env_arrivals w e in
      case rq_pop (je_requests e1) of
        (None, q) \<Rightarrow> Some (handled, cache, e1)
      | (Some req, q) \<Rightarrow>
          Option.bind (env_handle_request w eng req cache (e1\<lparr>je_requests := q\<rparr>)) (env_drain w eng (handled @ [req])))"

definition env_poll_timeout :: "int \<Rightarrow> int" where
  "env_poll_timeout next_timer = (if 0 \<le> next_timer \<and> next_timer < 100 then next_timer else 100)"

text \<open>
  One turn of the loop: the poll timeout is computed, \<^verbatim>\<open>poll\<close> waits at most that long, at most 64 bytes are read
  from each pipe that has some, and the requests and then the jobs are processed.
\<close>

definition env_drain_pipes :: "('v, 'h) js_env \<Rightarrow> ('v, 'h) js_env" where
  "env_drain_pipes e =
     e\<lparr>je_pipe := drop 64 (je_pipe e),
       je_timer_mgr := (je_timer_mgr e)\<lparr>tm_pipe := tm_pipe (je_timer_mgr e) - 64\<rparr>,
       je_fetch_mgr := (je_fetch_mgr e)\<lparr>fm_pipe := fm_pipe (je_fetch_mgr e) - 64\<rparr>\<rparr>"

definition env_loop_turn ::
    "host_world \<Rightarrow> ('v, 'h) engine \<Rightarrow> bytecode_cache option \<times> ('v, 'h) js_env \<Rightarrow>
     (int \<times> env_request list \<times> bytecode_cache option \<times> ('v, 'h) js_env) option" where
  "env_loop_turn w eng s =
     (case s of (cache, e) \<Rightarrow>
      case tm_next_timeout_ms (env_clock w) (je_timer_mgr e, je_clock e) of (next_timer, n) \<Rightarrow>
      case env_drain w eng [] (cache, env_drain_pipes (e\<lparr>je_clock := n\<rparr>)) of
        None \<Rightarrow> None
      | Some (handled, cache', e1) \<Rightarrow>
          map_option (\<lambda>e2. (env_poll_timeout next_timer, handled, cache', e2)) (env_process_jobs w eng e1))"

text \<open>The loop condition is read before each turn.\<close>

fun env_event_loop ::
    "nat \<Rightarrow> host_world \<Rightarrow> ('v, 'h) engine \<Rightarrow> bytecode_cache option \<times> ('v, 'h) js_env \<Rightarrow>
     (env_request list \<times> bytecode_cache option \<times> ('v, 'h) js_env) option" where
  "env_event_loop 0 w eng s = Some ([], s)"
| "env_event_loop (Suc k) w eng (cache, e) =
     (if \<not> je_running e then Some ([], cache, e)
      else
        case env_loop_turn w eng (cache, e) of
          None \<Rightarrow> None
        | Some (timeout, handled, s') \<Rightarrow>
            map_option (\<lambda>(hs, s''). (handled @ hs, s'')) (env_event_loop k w eng s'))"

section \<open>Invariant\<close>

definition env_inv :: "('v, 'h) js_env \<Rightarrow> bool" where
  "env_inv e \<longleftrightarrow> tm_inv (je_timer_mgr e) \<and> fm_inv (je_fetch_mgr e) \<and> dt_inv (je_dispatch e) \<and> rq_inv (je_requests e)"

text \<open>The events an environment sends carry its own id, a name and raw data, and nothing else.\<close>

definition event_of :: "string \<Rightarrow> response \<Rightarrow> bool" where
  "event_of i r \<longleftrightarrow> r = event_response i (the (r_name r)) (the (r_data r))"

lemma event_of_response [simp]: "event_of i (event_response j name data) \<longleftrightarrow> i = j"
  by (auto simp: event_of_def event_response_def)

lemma event_of_head: "event_of i r \<Longrightarrow> r_type r = ''event'' \<and> r_env_id r = Some i \<and> r_id r = None"
  by (auto simp: event_of_def event_response_def dest: arg_cong [of _ _ r_type] arg_cong [of _ _ r_env_id] arg_cong [of _ _ r_id])

text \<open>
  What no script can change: the identity of the environment, its request queue and its responses to requests.
  A script sends events only, and the engine is told of the thread's own stack again.
\<close>

definition env_frame :: "('v, 'h) js_env \<Rightarrow> ('v, 'h) js_env \<Rightarrow> bool" where
  "env_frame e e' \<longleftrightarrow>
     je_env_id e' = je_env_id e \<and> je_requests e' = je_requests e \<and> je_pipe e' = je_pipe e \<and>
     je_submitted e' = je_submitted e \<and>
     je_running e' = je_running e \<and> je_bridge e' = je_bridge e \<and> je_tick e \<le> je_tick e' \<and>
     je_thread e' = je_thread e \<and> (je_stack_top e = je_thread e \<longrightarrow> je_stack_top e' = je_thread e) \<and>
     (\<exists>evs. je_out e' = je_out e @ evs \<and> list_all (event_of (je_env_id e)) evs)"

definition script_ok :: "host_world \<Rightarrow> ('v, 'h) js_env \<Rightarrow> ('v, 'h) js_env \<Rightarrow> bool" where
  "script_ok w e e' \<longleftrightarrow>
     tm_ops (env_clock w) (je_timer_mgr e, je_clock e) (je_timer_mgr e', je_clock e') \<and>
     (fm_inv (je_fetch_mgr e) \<longrightarrow> fm_inv (je_fetch_mgr e')) \<and>
     fm_grows (je_fetch_mgr e) (je_fetch_mgr e') \<and>
     (dt_inv (je_dispatch e) \<longrightarrow> dt_inv (je_dispatch e')) \<and> env_frame e e'"

lemma env_frame_refl [simp]: "env_frame e e"
  by (simp add: env_frame_def)

lemma env_frame_trans [trans]:
  assumes "env_frame a b" and "env_frame b c"
  shows "env_frame a c"
proof -
  obtain xs ys where xs: "je_out b = je_out a @ xs" "list_all (event_of (je_env_id a)) xs"
    and ys: "je_out c = je_out b @ ys" "list_all (event_of (je_env_id b)) ys"
    using assms by (auto simp: env_frame_def)
  have "je_env_id b = je_env_id a" using assms(1) by (simp add: env_frame_def)
  with xs ys have "je_out c = je_out a @ xs @ ys \<and> list_all (event_of (je_env_id a)) (xs @ ys)" by simp
  moreover have "je_tick a \<le> je_tick c" using assms by (simp add: env_frame_def)
  ultimately show ?thesis using assms unfolding env_frame_def by simp
qed

lemma script_ok_trans [trans]:
  assumes "script_ok w a b" and "script_ok w b c"
  shows "script_ok w a c"
proof -
  from assms have ab: "env_frame a b" "tm_ops (env_clock w) (je_timer_mgr a, je_clock a) (je_timer_mgr b, je_clock b)"
    and bc: "env_frame b c" "tm_ops (env_clock w) (je_timer_mgr b, je_clock b) (je_timer_mgr c, je_clock c)"
    by (simp_all add: script_ok_def)
  have "env_frame a c" using ab(1) bc(1) by (rule env_frame_trans)
  moreover have "tm_ops (env_clock w) (je_timer_mgr a, je_clock a) (je_timer_mgr c, je_clock c)"
    using bc(2) ab(2) by (rule tm_ops_trans)
  ultimately show ?thesis using assms fm_grows_trans by (auto simp: script_ok_def)
qed

lemma script_ok_refl [simp]: "script_ok w e e"
  by (simp add: script_ok_def ops_refl)

text \<open>Steps that touch the heap and the counter only.\<close>

lemma script_ok_heap [simp]:
  "script_ok w e (e\<lparr>je_heap := h\<rparr>)" "script_ok w e (on_heap f e)" "script_ok w e (ask e)"
  "script_ok w e (drop_exception eng e)"
  by (simp_all add: script_ok_def env_frame_def on_heap_def ask_def drop_exception_def ops_refl)

lemma script_ok_dispatch:
  "script_ok w e (dispatch_response eng d e)" "script_ok w e (dispatch_error eng d e)"
  by (auto simp: dispatch_response_def dispatch_error_def Let_def script_ok_def env_frame_def ops_refl
      dt_resolve_law dt_reject_law split: prod.splits option.splits)

lemma script_ok_send_event: "script_ok w e (send (event_response (je_env_id e) n d) e)"
  by (auto simp: script_ok_def env_frame_def send_def ops_refl)

lemma cqjs_send_ok: "script_ok w e (snd (js_env_cqjs_send eng argv e))"
  by (auto simp: js_env_cqjs_send_def script_ok_dispatch script_ok_send_event split: list.splits option.splits)

lemma with_timers_ok:
  assumes "tm_ops (env_clock w) (je_timer_mgr e, je_clock e) (tm, n)" and "e' = ask e \<or> e' = e \<or> (\<exists>f. e' = on_heap f (ask e))"
  shows "script_ok w e (snd (with_timers (r, tm, n, e')))"
  using assms by (auto simp: with_timers_def script_ok_def env_frame_def ask_def on_heap_def)

lemma set_timer_ok:
  "script_ok w e (snd (host_call w eng (Call_setTimeout argv) e))"
  "script_ok w e (snd (host_call w eng (Call_setInterval argv) e))"
proof -
  obtain r tm n x where a: "js_set_timeout (env_clock w) (w_calloc_ok w (je_tick e)) (en_api eng (je_heap e))
       (timer_refs eng) (en_tm_ptr eng (je_heap e)) argv (timers_of (ask e)) = (r, tm, n, x)" by (metis prod_cases4)
  then have "tm_ops (env_clock w) (je_timer_mgr e, je_clock e) (tm, n) \<and> (x = ask e \<or> x = e \<or> (\<exists>f. x = on_heap f (ask e)))"
    by (auto simp: js_set_timeout_def timer_refs_def ask_def ops_refl Let_def split: list.splits if_splits prod.splits
        intro: ops_timeout [OF ops_refl])
  then show "script_ok w e (snd (host_call w eng (Call_setTimeout argv) e))"
    by (simp add: a with_timers_ok)
  obtain r tm n x where a: "js_set_interval (env_clock w) (w_calloc_ok w (je_tick e)) (en_api eng (je_heap e))
       (timer_refs eng) (en_tm_ptr eng (je_heap e)) argv (timers_of (ask e)) = (r, tm, n, x)" by (metis prod_cases4)
  then have "tm_ops (env_clock w) (je_timer_mgr e, je_clock e) (tm, n) \<and> (x = ask e \<or> x = e \<or> (\<exists>f. x = on_heap f (ask e)))"
    by (auto simp: js_set_interval_def timer_refs_def ask_def ops_refl Let_def split: list.splits if_splits prod.splits
        intro: ops_interval [OF ops_refl])
  then show "script_ok w e (snd (host_call w eng (Call_setInterval argv) e))"
    by (simp add: a with_timers_ok)
qed

lemma clear_timer_ok:
  "script_ok w e (snd (host_call w eng (Call_clearTimeout argv) e))"
  "script_ok w e (snd (host_call w eng (Call_clearInterval argv) e))"
  by (auto simp: js_clear_timeout_def js_clear_interval_def ops_refl ops_clear [OF ops_refl] with_timers_ok
      split: list.splits if_splits)

lemma fetch_ok: "script_ok w e (snd (host_call w eng (Call_fetch argv) e))"
proof -
  obtain cap h where p: "en_new_promise eng (je_heap e) = (cap, h)" by (rule prod.exhaust)
  obtain r fm where f: "js_fetch (en_api eng (je_heap e)) (w_thread_ok w (je_tick e)) cap (en_fm_ptr eng (je_heap e)) argv (je_fetch_mgr e) = (r, fm)"
    by (rule prod.exhaust)
  have "fm_inv (je_fetch_mgr e) \<longrightarrow> fm_inv fm"
    using js_fetch_keeps [of "je_fetch_mgr e" "en_api eng (je_heap e)" "w_thread_ok w (je_tick e)" cap "en_fm_ptr eng (je_heap e)" argv] f by simp
  moreover have "fm_grows (je_fetch_mgr e) fm"
    using js_fetch_grows [of "je_fetch_mgr e" "en_api eng (je_heap e)" "w_thread_ok w (je_tick e)" cap "en_fm_ptr eng (je_heap e)" argv] f by simp
  ultimately show ?thesis
    by (cases r) (simp_all add: p f script_ok_def env_frame_def ask_def ops_refl)
qed

lemma host_call_ok: "script_ok w e (snd (host_call w eng c e))"
proof (cases c)
  case (Call_cqjs_send argv)
  then show ?thesis by (simp add: cqjs_send_ok)
qed (simp_all only: set_timer_ok clear_timer_ok fetch_ok)

lemma run_script_ok: "script_ok w e (snd (run_script w eng sc e))"
proof (induction sc arbitrary: e)
  case (ScriptEnd r h)
  show ?case by simp
next
  case (HostCall c h k)
  obtain a e' where c: "host_call w eng c (e\<lparr>je_heap := h\<rparr>) = (a, e')" by (rule prod.exhaust)
  have "script_ok w (e\<lparr>je_heap := h\<rparr>) e'" using host_call_ok [of w "e\<lparr>je_heap := h\<rparr>" eng c] by (simp add: c)
  moreover have "script_ok w e' (snd (run_script w eng (k a (je_heap e')) e'))" by (rule HostCall.IH [OF rangeI rangeI])
  moreover have "script_ok w e (e\<lparr>je_heap := h\<rparr>)" by simp
  ultimately show ?case by (simp only: run_script.simps c prod.case) (metis script_ok_trans)
qed

lemma on_big_stack_ok:
  assumes "\<And>e. script_ok w e (snd (run e))"
  shows "script_ok w e (snd (on_big_stack w run e))"
proof (cases "w_thread_ok w (je_tick e)")
  case True
  let ?e = "(ask e)\<lparr>je_stack_top := BigStackThread\<rparr>"
  obtain r e' where r: "run ?e = (r, e')" by (rule prod.exhaust)
  with assms [of ?e] have "script_ok w ?e e'" by simp
  then show ?thesis using True r by (auto simp: on_big_stack_def script_ok_def env_frame_def ask_def)
next
  case False
  have "script_ok w e (ask e)" by simp
  also have "script_ok w (ask e) (snd (run (ask e)))" by (rule assms)
  finally show ?thesis using False by (simp add: on_big_stack_def)
qed

lemma cqjs_ok [simp]:
  "script_ok w e (snd (cqjs_eval w eng src fn co e))" "script_ok w e (snd (cqjs_eval_function w eng f e))"
  "script_ok w e (snd (cqjs_call w eng f e))" "script_ok w e (cqjs_call_settle w eng f arg e)"
  by (simp_all add: cqjs_eval_def cqjs_eval_function_def cqjs_call_def cqjs_call_settle_def on_big_stack_ok run_script_ok)

section \<open>A pass over the timers and a pass over the fetches\<close>

lemma timer_callback_ok:
  assumes "js_callback (env_timer_env w eng) cb (tm, n, x) = (tm', n', x')"
  shows "script_ok w (x\<lparr>je_timer_mgr := tm, je_clock := n\<rparr>) x'" and "tm' = je_timer_mgr x'" and "n' = je_clock x'"
proof -
  let ?e = "x\<lparr>je_timer_mgr := tm, je_clock := n\<rparr>"
  obtain r e where c: "cqjs_call w eng cb ?e = (r, e)" by (rule prod.exhaust)
  have "script_ok w ?e e" using cqjs_ok(3) [of w ?e eng cb] by (simp add: c)
  moreover have x': "x' = (case r of Some v \<Rightarrow> on_heap (en_free eng v) e | None \<Rightarrow> e)"
    "tm' = je_timer_mgr x'" "n' = je_clock x'"
    using assms by (auto simp: env_timer_env_def c Let_def)
  moreover have "script_ok w e x'" by (simp add: x'(1) split: option.split)
  ultimately show "script_ok w ?e x'" "tm' = je_timer_mgr x'" "n' = je_clock x'"
    using script_ok_trans by auto
qed

lemma timer_callback_ops:
  assumes "js_callback (env_timer_env w eng) cb (tm, n, x) = (tm', n', x')"
  shows "tm_ops (env_clock w) (tm, n) (tm', n')"
  using timer_callback_ok [OF assms] by (simp add: script_ok_def)

interpretation et: timer_callbacks "env_clock w" "env_timer_env w eng" for w eng
  by unfold_locales (simp_all add: timer_callback_ops)

interpretation ef: fetch_engine "w_curl w" "env_fetch_env w eng" for w eng
  by unfold_locales (auto simp: env_fetch_env_def run_workers_steps)

definition clock_advances :: "host_world \<Rightarrow> bool" where
  "clock_advances w \<longleftrightarrow> (\<forall>n. \<exists>N. \<forall>k \<ge> N. w_clock_ns w n < w_clock_ns w k)"

lemma script_ok_inv:
  assumes "script_ok w e e'" and "env_inv e"
  shows "env_inv e'"
proof -
  from assms have "tm_inv (je_timer_mgr e')"
    using tm_inv_ops [of "env_clock w" "(je_timer_mgr e, je_clock e)" "(je_timer_mgr e', je_clock e')"]
    by (simp add: script_ok_def env_inv_def)
  with assms show ?thesis by (simp add: script_ok_def env_inv_def env_frame_def)
qed

text \<open>What the timer pass keeps of the rest, and what the fetch pass keeps of the rest.\<close>

definition but_timers :: "('v, 'h) js_env \<Rightarrow> ('v, 'h) js_env \<Rightarrow> bool" where
  "but_timers e x \<longleftrightarrow> fm_inv (je_fetch_mgr x) \<and> fm_grows (je_fetch_mgr e) (je_fetch_mgr x) \<and> dt_inv (je_dispatch x) \<and> env_frame e x"

definition but_fetches :: "('v, 'h) js_env \<Rightarrow> ('v, 'h) js_env \<Rightarrow> bool" where
  "but_fetches e x \<longleftrightarrow> tm_inv (je_timer_mgr x) \<and> dt_inv (je_dispatch x) \<and> env_frame e x"

lemma but_timers_step: "but_timers e x \<Longrightarrow> script_ok w (x\<lparr>je_timer_mgr := tm, je_clock := n\<rparr>) x' \<Longrightarrow> but_timers e x'"
proof -
  assume x: "but_timers e x" and ok: "script_ok w (x\<lparr>je_timer_mgr := tm, je_clock := n\<rparr>) x'"
  from x have "env_frame e (x\<lparr>je_timer_mgr := tm, je_clock := n\<rparr>)" by (simp add: but_timers_def env_frame_def)
  also have "env_frame (x\<lparr>je_timer_mgr := tm, je_clock := n\<rparr>) x'" using ok by (simp add: script_ok_def)
  finally show "but_timers e x'" using x ok fm_grows_trans by (auto simp: but_timers_def script_ok_def)
qed

lemma timer_env_keeps_rest: "timer_env_keeps (but_timers e) (env_timer_env w eng)"
  unfolding timer_env_keeps_def
proof (intro conjI allI impI)
  fix v x assume "but_timers e x"
  then show "but_timers e (js_free (env_timer_env w eng) v x)" "but_timers e (js_dup (env_timer_env w eng) v x)"
    by (simp_all add: env_timer_env_def timer_refs_def but_timers_def env_frame_def on_heap_def)
next
  fix cb tm n x assume x: "but_timers e x"
  obtain tm' n' x' where c: "js_callback (env_timer_env w eng) cb (tm, n, x) = (tm', n', x')" by (rule prod_cases3)
  from but_timers_step [OF x timer_callback_ok(1) [OF c]] show "but_timers e (snd (snd (js_callback (env_timer_env w eng) cb (tm, n, x))))"
    by (simp add: c)
qed

lemma fetch_env_keeps_rest: "fetch_env_keeps (but_fetches e) (env_fetch_env w eng)"
proof -
  have "but_fetches e x'" if x: "but_fetches e x" and ok: "script_ok w x x'" for x x'
  proof -
    from x have "env_frame e x" by (simp add: but_fetches_def)
    also have "env_frame x x'" using ok by (simp add: script_ok_def)
    finally show ?thesis
      using x ok tm_inv_ops [of "env_clock w" "(je_timer_mgr x, je_clock x)" "(je_timer_mgr x', je_clock x')"]
      by (simp add: but_fetches_def script_ok_def)
  qed
  then show ?thesis by (simp add: fetch_env_keeps_def env_fetch_env_def)
qed

lemma timer_pass:
  assumes "env_inv e" and "clock_advances w"
  shows "\<exists>fired e'. env_timer_pass w eng e = Some (fired, e') \<and> env_inv e' \<and> env_frame e e' \<and>
    fm_grows (je_fetch_mgr e) (je_fetch_mgr e') \<and>
    (\<forall>t \<in> set (tm_head (je_timer_mgr e')). waiting (env_clock w (je_clock e)) t)"
proof -
  have "\<exists>N. \<forall>k \<ge> N. time_ns (env_clock w (je_clock e)) < time_ns (env_clock w k)"
    using assms(2) by (simp add: clock_advances_def)
  moreover have "tm_inv (je_timer_mgr e)" using assms(1) by (simp add: env_inv_def)
  ultimately obtain fired tm n x where
    p: "tm_process_pending (env_clock w) (env_timer_env w eng) (timers_of e) = Some (fired, tm, n, x)"
      "tm_inv tm" "\<forall>t \<in> set (tm_head tm). waiting (env_clock w (je_clock e)) t"
    using et.process_spec [of "je_timer_mgr e" False "je_clock e" w eng e] by (auto simp: scan_post_def)
  from tm_process_pending_keeps [OF p(1) timer_env_keeps_rest [of e w eng]] assms(1) have "but_timers e x"
    by (simp add: but_timers_def env_inv_def)
  with p assms(1) show ?thesis
    by (simp add: env_timer_pass_def with_timers_def env_inv_def but_timers_def env_frame_def)
qed

lemma fetch_pass:
  assumes "env_inv e"
  shows "\<exists>settled e'. env_fetch_pass w eng e = Some (settled, e') \<and> env_inv e' \<and> env_frame e e' \<and> awake (je_fetch_mgr e')"
proof -
  have "fm_inv (je_fetch_mgr e)" using assms by (simp add: env_inv_def)
  from ef.process_spec [OF this, of w eng e] obtain settled fm x where
    p: "fm_process_pending (env_fetch_env w eng) (je_fetch_mgr e, e) = Some (settled, fm, x)" "fm_inv fm" "awake fm"
    by (auto simp: fscan_post_def)
  from fm_process_pending_keeps [OF p(1) fetch_env_keeps_rest [of e w eng]] assms have "but_fetches e x"
    by (simp add: but_fetches_def env_inv_def)
  with p assms show ?thesis
    by (simp add: env_fetch_pass_def env_inv_def but_fetches_def env_frame_def)
qed

section \<open>Serving requests\<close>

text \<open>The answer to a request: an error with a message or a result with a value, under its id and with no other field.\<close>

definition answers :: "env_request \<Rightarrow> response \<Rightarrow> bool" where
  "answers req r \<longleftrightarrow>
     r = error_response (rq_request_id req) (the (r_message r)) \<or> r = result_response (rq_request_id req) (r_value r)"

lemma response_heads [simp]:
  "r_id (error_response i m) = i" "r_type (error_response i m) = ''error''" "r_env_id (error_response i m) = None"
  "r_id (result_response i v) = i" "r_type (result_response i v) = ''result''" "r_env_id (result_response i v) = None"
  by (simp_all add: error_response_def result_response_def)

lemma answers_responses [simp]:
  "answers req (error_response i m) \<longleftrightarrow> i = rq_request_id req" "answers req (result_response i v) \<longleftrightarrow> i = rq_request_id req"
  by (auto simp: answers_def error_response_def result_response_def)

lemma answers_head:
  assumes "answers req r"
  shows "r_id r = rq_request_id req \<and> r_type r \<in> {''result'', ''error''} \<and> r_env_id r = None"
proof -
  from assms consider m where "r = error_response (rq_request_id req) m" | v where "r = result_response (rq_request_id req) v"
    by (auto simp: answers_def)
  then show ?thesis by cases simp_all
qed

lemma answers_no_event: "answers req r \<Longrightarrow> \<not> event_of i r"
  using answers_head event_of_head by fastforce

text \<open>The responses among a list that are no events of the environment.\<close>

definition replies :: "string \<Rightarrow> response list \<Rightarrow> response list" where
  "replies i rs = filter (\<lambda>r. \<not> event_of i r) rs"

abbreviation arrivals_between :: "host_world \<Rightarrow> nat \<Rightarrow> nat \<Rightarrow> nat" where
  "arrivals_between w a b \<equiv> (\<Sum>k \<in> {a..<b}. length (w_arrivals w k))"

text \<open>
  From \<open>e\<close> to \<open>e'\<close> the requests \<open>taken\<close> left the queue, in its order, and the requests \<open>answered\<close> were answered, one
  response each and in that order; the only other output is events of the environment.
\<close>

definition serves ::
    "host_world \<Rightarrow> env_request list \<Rightarrow> env_request list \<Rightarrow> ('v, 'h) js_env \<Rightarrow> ('v, 'h) js_env \<Rightarrow> bool" where
  "serves w taken answered e e' \<longleftrightarrow>
     je_env_id e' = je_env_id e \<and> je_running e' = je_running e \<and> je_tick e \<le> je_tick e' \<and>
     je_thread e' = je_thread e \<and> (je_stack_top e = je_thread e \<longrightarrow> je_stack_top e' = je_thread e) \<and>
     (\<exists>new. je_submitted e' = je_submitted e @ new \<and>
        rq_contents (je_requests e) @ new = taken @ rq_contents (je_requests e') \<and>
        length new \<le> arrivals_between w (je_tick e) (je_tick e')) \<and>
     (\<exists>out. je_out e' = je_out e @ out \<and> list_all2 answers answered (replies (je_env_id e) out))"

lemma replies_append [simp]: "replies i (a @ b) = replies i a @ replies i b"
  by (simp add: replies_def)

lemma replies_events: "list_all (event_of i) evs \<Longrightarrow> replies i evs = []"
  by (simp add: replies_def filter_empty_conv list_all_iff)

lemma serves_frame: "env_frame e e' \<Longrightarrow> serves w [] [] e e'"
  by (auto simp: env_frame_def serves_def replies_events)

lemma serves_refl [simp]: "serves w [] [] e e"
  by (simp add: serves_frame)

lemma serves_trans:
  assumes "serves w t1 a1 x y" and "serves w t2 a2 y z"
  shows "serves w (t1 @ t2) (a1 @ a2) x z"
proof -
  obtain n1 o1 where x: "je_submitted y = je_submitted x @ n1"
      "rq_contents (je_requests x) @ n1 = t1 @ rq_contents (je_requests y)"
      "length n1 \<le> arrivals_between w (je_tick x) (je_tick y)"
      "je_out y = je_out x @ o1" "list_all2 answers a1 (replies (je_env_id x) o1)" "je_env_id y = je_env_id x"
      "je_tick x \<le> je_tick y"
    using assms(1) by (auto simp: serves_def)
  obtain n2 o2 where y: "je_submitted z = je_submitted y @ n2"
      "rq_contents (je_requests y) @ n2 = t2 @ rq_contents (je_requests z)"
      "length n2 \<le> arrivals_between w (je_tick y) (je_tick z)"
      "je_out z = je_out y @ o2" "list_all2 answers a2 (replies (je_env_id y) o2)" "je_tick y \<le> je_tick z"
    using assms(2) by (auto simp: serves_def)
  have "rq_contents (je_requests x) @ n1 @ n2 = (t1 @ t2) @ rq_contents (je_requests z)"
    using x(2) y(2) by (metis append_assoc)
  moreover have "length (n1 @ n2) \<le> arrivals_between w (je_tick x) (je_tick z)"
    using x(3) y(3) sum.atLeastLessThan_concat [OF x(7) y(6), of "\<lambda>k. length (w_arrivals w k)"] by simp
  moreover have "list_all2 answers (a1 @ a2) (replies (je_env_id x) (o1 @ o2))"
    using x(5,6) y(5) by (simp add: list_all2_appendI)
  moreover have "je_submitted z = je_submitted x @ n1 @ n2" "je_out z = je_out x @ o1 @ o2" using x y by simp_all
  moreover have "je_env_id z = je_env_id x" "je_running z = je_running x" "je_tick x \<le> je_tick z"
    "je_thread z = je_thread x" "je_stack_top x = je_thread x \<longrightarrow> je_stack_top z = je_thread x"
    using assms by (auto simp: serves_def)
  ultimately show ?thesis unfolding serves_def by blast
qed

lemma submit_contents:
  assumes "rq_inv (je_requests e)"
  shows "rq_inv (je_requests (fold env_submit_request rs e)) \<and>
    rq_contents (je_requests (fold env_submit_request rs e)) = rq_contents (je_requests e) @ rs \<and>
    fold env_submit_request rs e = e\<lparr>je_requests := je_requests (fold env_submit_request rs e),
      je_pipe := je_pipe e @ concat (map (\<lambda>_. ''r'') rs), je_submitted := je_submitted e @ rs\<rparr>"
  using assms
proof (induction rs arbitrary: e)
  case (Cons r rs)
  have "rq_inv (je_requests (env_submit_request r e))"
    using Cons.prems by (simp add: env_submit_request_def rq.push_inv)
  note IH = Cons.IH [OF this]
  moreover have "rq_contents (je_requests (env_submit_request r e)) = rq_contents (je_requests e) @ [r]"
    using Cons.prems by (simp add: env_submit_request_def rq.push_contents)
  ultimately show ?case by (simp add: env_submit_request_def)
qed simp

lemma arrivals_serve:
  assumes "env_inv e"
  shows "env_inv (env_arrivals w e) \<and> serves w [] [] e (env_arrivals w e) \<and>
    je_tick (env_arrivals w e) = Suc (je_tick e) \<and>
    je_fetch_mgr (env_arrivals w e) = je_fetch_mgr e"
proof -
  let ?rs = "w_arrivals w (je_tick e)"
  have inv: "rq_inv (je_requests (ask e))" using assms by (simp add: env_inv_def ask_def)
  define q where "q = je_requests (fold env_submit_request ?rs (ask e))"
  have q: "rq_inv q" "rq_contents q = rq_contents (je_requests e) @ ?rs"
    "env_arrivals w e = e\<lparr>je_requests := q, je_pipe := je_pipe e @ concat (map (\<lambda>_. ''r'') ?rs),
       je_submitted := je_submitted e @ ?rs, je_tick := Suc (je_tick e)\<rparr>"
    using submit_contents [OF inv, of ?rs] unfolding env_arrivals_def q_def [symmetric] by (simp_all add: ask_def)
  show ?thesis using assms q(1,2) by (simp add: q(3) env_inv_def serves_def replies_def)
qed

lemma run_job_ok: "script_ok w e (snd (env_run_job w eng e))"
proof (cases "en_job eng (je_heap e)")
  case (Some sc)
  obtain r e' where r: "run_script w eng sc e = (r, e')" by (rule prod.exhaust)
  have "script_ok w e e'" using run_script_ok [of w e eng sc] r by simp
  also have "script_ok w e' (snd (env_run_job w eng e))"
    by (cases r) (simp_all add: env_run_job_def Some r)
  finally show ?thesis .
qed (simp add: env_run_job_def)

text \<open>One round of jobs, timers and fetches.\<close>

lemma jobs_round:
  assumes "env_inv e" and "clock_advances w"
  obtains executed e1 fired e2 settled e3 where "env_run_job w eng e = (executed, e1)"
    "env_timer_pass w eng e1 = Some (fired, e2)" "env_fetch_pass w eng e2 = Some (settled, e3)"
    "env_inv e3" "serves w [] [] e e3" "awake (je_fetch_mgr e3)"
proof -
  obtain executed e1 where j: "env_run_job w eng e = (executed, e1)" by (rule prod.exhaust)
  have ok1: "script_ok w e e1" using run_job_ok [of w e eng] j by simp
  then have inv1: "env_inv e1" using assms(1) by (rule script_ok_inv)
  from timer_pass [OF this assms(2), of eng] obtain fired e2 where
    t: "env_timer_pass w eng e1 = Some (fired, e2)" "env_inv e2" "env_frame e1 e2" by blast
  from fetch_pass [OF t(2), of w eng] obtain settled e3 where
    f: "env_fetch_pass w eng e2 = Some (settled, e3)" "env_inv e3" "env_frame e2 e3" "awake (je_fetch_mgr e3)" by blast
  from ok1 have "env_frame e e1" by (simp add: script_ok_def)
  also note t(3) also note f(3)
  finally have "serves w [] [] e e3" by (rule serves_frame)
  with j t(1) f(1,2,4) show thesis by (intro that)
qed

lemma jobs_loop:
  assumes "env_inv e" and "clock_advances w"
  shows "\<exists>e'. env_jobs_loop k w eng e = Some e' \<and> env_inv e' \<and> serves w [] [] e e' \<and> (0 < k \<longrightarrow> awake (je_fetch_mgr e'))"
  using assms(1)
proof (induction k arbitrary: e)
  case 0
  then show ?case by simp
next
  case (Suc k)
  obtain executed e1 fired e2 settled e3 where r: "env_run_job w eng e = (executed, e1)"
    "env_timer_pass w eng e1 = Some (fired, e2)" "env_fetch_pass w eng e2 = Some (settled, e3)"
    "env_inv e3" "serves w [] [] e e3" "awake (je_fetch_mgr e3)"
    by (rule jobs_round [OF Suc.prems assms(2)])
  define e4 where "e4 = env_arrivals w e3"
  have a: "env_inv e4" "serves w [] [] e3 e4" "je_fetch_mgr e4 = je_fetch_mgr e3"
    using arrivals_serve [OF r(4), of w] by (simp_all add: e4_def)
  have s4: "serves w [] [] e e4" using serves_trans [OF r(5) a(2)] by simp
  have loop: "env_jobs_loop (Suc k) w eng e =
      (if executed \<le> 0 \<and> fired = [] \<and> settled = [] then Some e3
       else if rq_head (je_requests e4) \<noteq> None then Some e4 else env_jobs_loop k w eng e4)"
    by (simp add: r(1-3) e4_def Let_def)
  obtain e5 where e5: "env_jobs_loop k w eng e4 = Some e5" "env_inv e5" "serves w [] [] e4 e5"
      "0 < k \<longrightarrow> awake (je_fetch_mgr e5)" using Suc.IH [OF a(1)] by blast
  have "serves w [] [] e e5" using serves_trans [OF s4 e5(3)] by simp
  moreover have "awake (je_fetch_mgr e5)" using e5 a(3) r(6) by (cases k) auto
  ultimately show ?case using loop r(4,5,6) a s4 e5(1,2) by auto
qed

lemma process_jobs:
  assumes "env_inv e" and "clock_advances w"
  obtains e' where "env_process_jobs w eng e = Some e'" "env_inv e'" "serves w [] [] e e'" "awake (je_fetch_mgr e')"
  using jobs_loop [OF assms, of 100 eng] by (auto simp: env_process_jobs_def)

text \<open>Sending the answer.\<close>

lemma send_serves:
  "answers req r \<Longrightarrow> env_inv e \<Longrightarrow> env_inv (send r e) \<and> serves w [] [req] e (send r e)"
  by (auto simp: serves_def send_def env_inv_def replies_def answers_no_event)

lemma respond_serves:
  assumes "env_inv e" and "i = rq_request_id req"
  shows "env_inv (env_respond eng msg i result e) \<and> serves w [] [req] e (env_respond eng msg i result e)"
proof -
  have *: "answers req (error_response i m)" "answers req (result_response i v)" for m v
    using assms(2) by simp_all
  have "\<exists>r h. env_respond eng msg i result e = send r (e\<lparr>je_heap := h\<rparr>) \<and> answers req r"
    using * by (cases result) (auto simp: env_respond_def on_heap_def Let_def split: prod.splits)
  then obtain r h where r: "env_respond eng msg i result e = send r (e\<lparr>je_heap := h\<rparr>)" "answers req r" by blast
  have "env_inv (e\<lparr>je_heap := h\<rparr>)" using assms(1) by (simp add: env_inv_def)
  from send_serves [OF r(2) this, of w] show ?thesis
    by (simp add: r(1) serves_def)
qed

lemma eval_cached_ok: "script_ok w e (snd (snd (eval_cached w eng src fn cache e)))"
proof -
  have hit: "script_ok w e (snd (eval_hit w eng src fn b e))" for e b
  proof (cases "en_read_object eng b (je_heap e)")
    case (Pair obj h)
    have "script_ok w e (e\<lparr>je_heap := h\<rparr>)" by simp
    also have "script_ok w (e\<lparr>je_heap := h\<rparr>) (snd (eval_hit w eng src fn b e))"
      by (cases obj) (auto simp: eval_hit_def Pair intro: script_ok_trans [of w _ "drop_exception eng (e\<lparr>je_heap := h\<rparr>)"])
    finally show ?thesis .
  qed
  have miss: "script_ok w e (snd (snd (eval_miss w eng src fn hash c e)))" for e hash c
  proof (cases "cqjs_eval w eng src fn True e")
    case (Pair r e1)
    have "script_ok w e e1" using cqjs_ok(1) [of w e eng src fn True] by (simp add: Pair)
    also have "script_ok w e1 (snd (snd (eval_miss w eng src fn hash c e)))"
    proof (cases r)
      case (Some f)
      have "script_ok w e1 (ask e1)" by simp
      also have "script_ok w (ask e1) (snd (cqjs_eval_function w eng f (ask e1)))" by simp
      finally show ?thesis
        by (cases "cqjs_eval_function w eng f (ask e1)") (simp add: eval_miss_def Pair Some Let_def)
    qed (simp add: eval_miss_def Pair)
    finally show ?thesis .
  qed
  show ?thesis
  proof (cases cache)
    case None
    then show ?thesis using cqjs_ok(1) [of w e eng src fn False]
      by (cases "cqjs_eval w eng src fn False e") (simp add: eval_cached_def)
  next
    case (Some c)
    have "script_ok w e (ask e)" by simp
    also have "script_ok w (ask e) (snd (snd (eval_cached w eng src fn cache e)))"
      using hit [of "ask e"] miss [of "ask e"]
      by (auto simp: eval_cached_def Some Let_def split: prod.splits option.splits) (metis snd_conv)+
    finally show ?thesis .
  qed
qed

text \<open>Every request gets one answer, whatever the request, the engine and the file system do.\<close>

lemma handle_after:
  assumes "env_inv e" and "clock_advances w" and "script_ok w e e1" and "i = rq_request_id req"
  obtains e' where "env_process_jobs w eng (env_respond eng msg i result e1) = Some e'" "env_inv e'"
    "serves w [] [req] e e'"
proof -
  have e1: "env_inv e1" "serves w [] [] e e1"
    using assms(1,3) by (auto simp: script_ok_def intro: script_ok_inv [OF assms(3)] serves_frame)
  note r = respond_serves [OF e1(1) assms(4), of eng msg result w]
  obtain e' where e': "env_process_jobs w eng (env_respond eng msg i result e1) = Some e'" "env_inv e'"
    "serves w [] [] (env_respond eng msg i result e1) e'"
    by (rule process_jobs [OF conjunct1 [OF r] assms(2)])
  have "serves w [] [req] e e'"
    using serves_trans [OF serves_trans [OF e1(2) conjunct2 [OF r]] e'(3)] by simp
  with e' show thesis by (intro that)
qed

lemma handle_request:
  assumes "env_inv e" and "clock_advances w"
  obtains cache' e' where "env_handle_request w eng req cache e = Some (cache', e')" "env_inv e'" "serves w [] [req] e e'"
proof -
  have err: "env_inv (send (error_response (rq_request_id req) m) e) \<and>
      serves w [] [req] e (send (error_response (rq_request_id req) m) e)" for m
    by (rule send_serves) (simp_all add: assms(1))
  consider (source) src where "rq_type req = ''eval''" "rq_code req = Some src"
    | (script_file) path content where "rq_type req = ''eval_file''" "rq_path req = Some path"
        "cqjs_read_file (w_malloc_ok w) (w_fopen w) path = Some content"
    | (bad) m where "env_handle_request w eng req cache e = Some (cache, send (error_response (rq_request_id req) m) e)"
    by (cases "rq_type req = ''eval''"; cases "rq_type req = ''eval_file''"; cases "rq_code req"; cases "rq_path req";
        cases "cqjs_read_file (w_malloc_ok w) (w_fopen w) (the (rq_path req))")
      (auto simp: env_handle_request_def env_handle_eval_def env_handle_eval_file_def)
  then show thesis
  proof cases
    case source
    define fn where "fn = (case rq_filename req of Some f \<Rightarrow> f | None \<Rightarrow> ''<eval>'')"
    obtain r cache' e1 where c: "eval_cached w eng src fn cache e = (r, cache', e1)" by (rule prod_cases3)
    have "script_ok w e e1" using eval_cached_ok [of w e eng src fn cache] c by simp
    from handle_after [OF assms this refl, where eng = eng and msg = "''eval error''" and result = r] obtain e' where
      "env_process_jobs w eng (env_respond eng ''eval error'' (rq_request_id req) r e1) = Some e'" "env_inv e'"
      "serves w [] [req] e e'" .
    with source c show thesis
      by (intro that [of cache' e']) (simp_all add: env_handle_request_def env_handle_eval_def fn_def)
  next
    case script_file
    obtain r e1 where c: "cqjs_eval w eng content path False e = (r, e1)" by (rule prod.exhaust)
    have "script_ok w e e1" using cqjs_ok(1) [of w e eng content path False] c by simp
    from handle_after [OF assms this refl, where eng = eng and msg = "''eval_file error''" and result = r] obtain e' where
      "env_process_jobs w eng (env_respond eng ''eval_file error'' (rq_request_id req) r e1) = Some e'" "env_inv e'"
      "serves w [] [req] e e'" .
    with script_file c show thesis
      by (intro that [of cache e']) (simp_all add: env_handle_request_def env_handle_eval_file_def)
  next
    case bad
    with err [of m] show thesis by (intro that) auto
  qed
qed

text \<open>Draining the queue ends when only finitely many requests arrive.\<close>

definition arrivals_end :: "host_world \<Rightarrow> bool" where
  "arrivals_end w \<longleftrightarrow> (\<exists>N. \<forall>k \<ge> N. w_arrivals w k = [])"

lemma drain_step:
  assumes "env_inv e" and "clock_advances w"
  obtains (empty) e1 where "env_drain w eng handled (cache, e) = Some (handled, cache, e1)" "env_inv e1"
      "serves w [] [] e e1" "rq_contents (je_requests e1) = []"
    | (served) req cache' e' where "env_drain w eng handled (cache, e) = env_drain w eng (handled @ [req]) (cache', e')"
      "env_inv e'" "serves w [req] [req] e e'"
proof -
  define e1 where "e1 = env_arrivals w e"
  have a: "env_inv e1" "serves w [] [] e e1" using arrivals_serve [OF assms(1), of w] by (simp_all add: e1_def)
  then have q: "rq_inv (je_requests e1)" by (simp add: env_inv_def)
  show thesis
  proof (cases "rq_contents (je_requests e1)")
    case Nil
    then have "rq_pop (je_requests e1) = (None, je_requests e1)" using q by (simp add: rq.pop_empty)
    then show thesis using a Nil by (intro empty) (simp_all add: env_drain.simps e1_def Let_def)
  next
    case (Cons req rest)
    with rq.pop_contents [OF q this] obtain q' where p: "rq_pop (je_requests e1) = (Some req, q')" "rq_contents q' = rest"
      by (metis prod.collapse)
    have "rq_inv q'" using rq.pop_inv [OF q] p by simp
    then have "env_inv (e1\<lparr>je_requests := q'\<rparr>)" using a(1) by (simp add: env_inv_def)
    from handle_request [OF this assms(2), of eng req cache] obtain cache' e' where
      h: "env_handle_request w eng req cache (e1\<lparr>je_requests := q'\<rparr>) = Some (cache', e')" "env_inv e'"
        "serves w [] [req] (e1\<lparr>je_requests := q'\<rparr>) e'" .
    have "serves w [req] [] e1 (e1\<lparr>je_requests := q'\<rparr>)" using Cons p(2) by (simp add: serves_def replies_def)
    from serves_trans [OF serves_trans [OF a(2) this] h(3)] have "serves w [req] [req] e e'" by simp
    with h(1,2) p(1) show thesis by (intro served) (simp_all add: env_drain.simps [of w eng handled "(cache, e)"] e1_def Let_def)
  qed
qed

lemma serves_fewer:
  assumes "serves w [req] as e e'" and "\<forall>k \<ge> N. w_arrivals w k = []"
  shows "length (rq_contents (je_requests e')) + arrivals_between w (je_tick e') N <
    length (rq_contents (je_requests e)) + arrivals_between w (je_tick e) N"
proof -
  from assms(1) obtain new where n: "rq_contents (je_requests e) @ new = req # rq_contents (je_requests e')"
    "length new \<le> arrivals_between w (je_tick e) (je_tick e')" and t: "je_tick e \<le> je_tick e'"
    by (auto simp: serves_def)
  have "length (rq_contents (je_requests e)) + length new = Suc (length (rq_contents (je_requests e')))"
    using arg_cong [OF n(1), of length] by simp
  moreover have "arrivals_between w (je_tick e) (je_tick e') + arrivals_between w (je_tick e') N = arrivals_between w (je_tick e) N"
  proof (cases "je_tick e' \<le> N")
    case True
    with t show ?thesis by (simp add: sum.atLeastLessThan_concat)
  next
    case False
    have z: "arrivals_between w a b = 0" if "N \<le> a" for a b using that assms(2) by simp
    show ?thesis
    proof (cases "je_tick e \<le> N")
      case True
      with False sum.atLeastLessThan_concat [of "je_tick e" N "je_tick e'" "\<lambda>k. length (w_arrivals w k)"]
      show ?thesis by (simp add: z del: sum_eq_0_iff)
    next
      case False
      with t show ?thesis by (simp add: z del: sum_eq_0_iff)
    qed
  qed
  ultimately show ?thesis using n(2) by linarith
qed

lemma drain_all:
  assumes "env_inv e" and "clock_advances w" and "arrivals_end w"
  shows "\<exists>served cache' e'. env_drain w eng handled (cache, e) = Some (handled @ served, cache', e') \<and> env_inv e' \<and>
    serves w served served e e' \<and> rq_contents (je_requests e') = []"
proof -
  from assms(3) obtain N where N: "\<forall>k \<ge> N. w_arrivals w k = []" by (auto simp: arrivals_end_def)
  show ?thesis
    using assms(1)
  proof (induction "length (rq_contents (je_requests e)) + arrivals_between w (je_tick e) N"
      arbitrary: e cache handled rule: less_induct)
    case less
    from less.prems assms(2) show ?case
    proof (cases rule: drain_step [of e w eng handled cache])
      case (empty e1)
      then show ?thesis by (intro exI [of _ "[]"]) auto
    next
      case (served req cache1 e1)
      from less.hyps [OF serves_fewer [OF served(3) N] served(2), of "handled @ [req]" cache1]
      obtain rest cache' e' where r: "env_drain w eng (handled @ [req]) (cache1, e1) = Some ((handled @ [req]) @ rest, cache', e')"
        "env_inv e'" "serves w rest rest e1 e'" "rq_contents (je_requests e') = []" by blast
      moreover have "serves w (req # rest) (req # rest) e e'" using serves_trans [OF served(3) r(3)] by simp
      ultimately show ?thesis using served(1) by (intro exI [of _ "req # rest"]) auto
    qed
  qed
qed

lemma loop_turn:
  assumes "env_inv e" and "clock_advances w" and "arrivals_end w"
  shows "\<exists>timeout handled cache' e'. env_loop_turn w eng (cache, e) = Some (timeout, handled, cache', e') \<and>
    0 \<le> timeout \<and> timeout \<le> 100 \<and> env_inv e' \<and> serves w handled handled e e' \<and> awake (je_fetch_mgr e') \<and>
    ((\<forall>k. w_arrivals w k = []) \<longrightarrow> rq_contents (je_requests e') = [])"
proof -
  obtain next_timer n where t: "tm_next_timeout_ms (env_clock w) (je_timer_mgr e, je_clock e) = (next_timer, n)"
    by (rule prod.exhaust)
  let ?e = "env_drain_pipes (e\<lparr>je_clock := n\<rparr>)"
  have inv: "env_inv ?e"
    using assms(1) by (simp add: env_inv_def env_drain_pipes_def tm_inv_def fm_inv_def entry_ok_def)
  from drain_all [OF this assms(2,3), of eng "[]" cache] obtain handled cache' e1 where
    d: "env_drain w eng [] (cache, ?e) = Some (handled, cache', e1)" "env_inv e1" "serves w handled handled ?e e1"
      "rq_contents (je_requests e1) = []" by auto
  obtain e2 where j: "env_process_jobs w eng e1 = Some e2" "env_inv e2" "serves w [] [] e1 e2" "awake (je_fetch_mgr e2)"
    by (rule process_jobs [OF d(2) assms(2)])
  have "serves w [] [] e ?e" by (simp add: serves_def env_drain_pipes_def replies_def)
  from serves_trans [OF serves_trans [OF this d(3)] j(3)] have "serves w handled handled e e2" by simp
  moreover have "rq_contents (je_requests e2) = []" if "\<forall>k. w_arrivals w k = []"
    using j(3) d(4) that by (auto simp: serves_def)
  ultimately show ?thesis using t d(1) j by (simp add: env_loop_turn_def env_poll_timeout_def)
qed

lemma event_loop:
  assumes "env_inv e" and "clock_advances w" and "arrivals_end w"
  shows "\<exists>handled cache' e'. env_event_loop k w eng (cache, e) = Some (handled, cache', e') \<and> env_inv e' \<and>
    serves w handled handled e e' \<and> (je_running e \<longrightarrow> 0 < k \<longrightarrow> awake (je_fetch_mgr e'))"
  using assms(1)
proof (induction k arbitrary: e cache)
  case 0
  then show ?case by simp
next
  case (Suc k)
  show ?case
  proof (cases "je_running e")
    case False
    with Suc.prems show ?thesis by simp
  next
    case True
    from loop_turn [OF Suc.prems assms(2,3), of eng cache] obtain timeout handled cache1 e1 where
      l: "env_loop_turn w eng (cache, e) = Some (timeout, handled, cache1, e1)" "env_inv e1" "serves w handled handled e e1"
        "awake (je_fetch_mgr e1)" by blast
    from Suc.IH [OF l(2), of cache1] obtain hs cache' e' where
      r: "env_event_loop k w eng (cache1, e1) = Some (hs, cache', e')" "env_inv e'" "serves w hs hs e1 e'"
        "je_running e1 \<longrightarrow> 0 < k \<longrightarrow> awake (je_fetch_mgr e')" by blast
    have "je_running e1" using True l(3) by (simp add: serves_def)
    then have "awake (je_fetch_mgr e')" using r(1,4) l(4) by (cases k) auto
    with True l(1) r serves_trans [OF l(3) r(3)] show ?thesis by simp
  qed
qed

section \<open>The cache is transparent\<close>

text \<open>
  What the environments rely on in the engine.  Evaluating is compiling and then running the compiled function,
  and compiling runs no native function; reading back the bytes written for a compiled function gives a
  function that behaves like evaluating the source under the file name it was compiled with, or
  fails with an exception and leaves the heap as it was once the exception is dropped.
\<close>

definition compile_law :: "('v, 'h) engine \<Rightarrow> bool" where
  "compile_law eng \<longleftrightarrow> (\<forall>src fn h. \<exists>r h1. en_eval eng src fn True h = ScriptEnd r h1 \<and>
     en_eval eng src fn False h = (case r of Some f \<Rightarrow> en_eval_function eng f h1 | None \<Rightarrow> ScriptEnd None h1))"

definition bytecode_law :: "('v, 'h) engine \<Rightarrow> bool" where
  "bytecode_law eng \<longleftrightarrow> (\<forall>src fn h0 f h1 b h.
     en_eval eng src fn True h0 = ScriptEnd (Some f) h1 \<longrightarrow> en_write_object eng f h1 = Some b \<longrightarrow>
     (case en_read_object eng b h of
        (Some g, h2) \<Rightarrow> en_eval_function eng g h2 = en_eval eng src fn False h
      | (None, h2) \<Rightarrow> (case en_exception eng h2 of (exc, h3) \<Rightarrow> en_free eng exc h3 = h)))"

text \<open>What the cache holds: bytes written for a compilation of one of the sources \<open>S\<close>, under the hash of it.\<close>

definition compiled_from :: "('v, 'h) engine \<Rightarrow> (byte list \<Rightarrow> byte list) option \<Rightarrow> string set \<Rightarrow> string \<Rightarrow> byte list \<Rightarrow> bool" where
  "compiled_from eng md S hash b \<longleftrightarrow> (\<exists>src \<in> S. \<exists>fn h0 f h1. hash = bc_compute_hash md (bytes_of src) \<and>
     en_eval eng src fn True h0 = ScriptEnd (Some f) h1 \<and> en_write_object eng f h1 = Some b)"

abbreviation cache_ok :: "('v, 'h) engine \<Rightarrow> (byte list \<Rightarrow> byte list) option \<Rightarrow> string set \<Rightarrow> bytecode_cache \<Rightarrow> bool" where
  "cache_ok eng md S c \<equiv> bc_inv c \<and> bc.all_stored (compiled_from eng md S) c"

text \<open>
  \<open>e'\<close> and \<open>r\<close> are what evaluating the source in \<open>e\<close> gives, up to the count of questions and whose stack the engine
  was last told of.
\<close>

definition evaluates ::
    "host_world \<Rightarrow> ('v, 'h) engine \<Rightarrow> string \<Rightarrow> string \<Rightarrow> ('v, 'h) js_env \<Rightarrow> 'v option \<Rightarrow> ('v, 'h) js_env \<Rightarrow> bool" where
  "evaluates w eng src fn e r e' \<longleftrightarrow> (\<exists>t s s'. (r, e') =
     apsnd (\<lambda>x. x\<lparr>je_stack_top := s'\<rparr>) (run_script w eng (en_eval eng src fn False (je_heap e)) (e\<lparr>je_tick := t, je_stack_top := s\<rparr>)))"

lemma on_big_stack_runs:
  "\<exists>s s'. on_big_stack w run e = apsnd (\<lambda>x. x\<lparr>je_stack_top := s'\<rparr>) (run (e\<lparr>je_tick := Suc (je_tick e), je_stack_top := s\<rparr>))"
proof (cases "w_thread_ok w (je_tick e)")
  case True
  obtain r e' where r: "run ((ask e)\<lparr>je_stack_top := BigStackThread\<rparr>) = (r, e')" by (rule prod.exhaust)
  moreover have "(ask e)\<lparr>je_stack_top := BigStackThread\<rparr> = e\<lparr>je_tick := Suc (je_tick e), je_stack_top := BigStackThread\<rparr>"
    by (simp add: ask_def)
  ultimately have "on_big_stack w run e = apsnd (\<lambda>x. x\<lparr>je_stack_top := je_thread e'\<rparr>)
      (run (e\<lparr>je_tick := Suc (je_tick e), je_stack_top := BigStackThread\<rparr>))"
    using True by (simp add: on_big_stack_def)
  then show ?thesis by blast
next
  case False
  obtain r e' where r: "run (ask e) = (r, e')" by (rule prod.exhaust)
  have "e\<lparr>je_tick := Suc (je_tick e), je_stack_top := je_stack_top e\<rparr> = ask e" by (cases e) (simp add: ask_def)
  with False r have "on_big_stack w run e = apsnd (\<lambda>x. x\<lparr>je_stack_top := je_stack_top e'\<rparr>)
      (run (e\<lparr>je_tick := Suc (je_tick e), je_stack_top := je_stack_top e\<rparr>))" by (simp only: on_big_stack_def if_False) simp
  then show ?thesis by blast
qed

text \<open>A script brings its own heap.\<close>

lemma run_script_heap: "run_script w eng sc (e\<lparr>je_heap := h\<rparr>) = run_script w eng sc e"
  by (cases sc) simp_all

lemma evaluates_eval:
  assumes "je_heap e1 = je_heap e" and "e1\<lparr>je_tick := 0, je_stack_top := MainThread\<rparr> = e\<lparr>je_tick := 0, je_stack_top := MainThread\<rparr>"
    and "cqjs_eval w eng src fn False e1 = (r, e')"
  shows "evaluates w eng src fn e r e'"
proof -
  obtain s s' where "cqjs_eval w eng src fn False e1 =
      apsnd (\<lambda>x. x\<lparr>je_stack_top := s'\<rparr>) (run_script w eng (en_eval eng src fn False (je_heap e1)) (e1\<lparr>je_tick := Suc (je_tick e1), je_stack_top := s\<rparr>))"
    using on_big_stack_runs [of w "\<lambda>e. run_script w eng (en_eval eng src fn False (je_heap e)) e" e1]
    by (auto simp: cqjs_eval_def)
  moreover have "e1\<lparr>je_tick := t, je_stack_top := s\<rparr> = e\<lparr>je_tick := t, je_stack_top := s\<rparr>" for t s
    using arg_cong [OF assms(2), of "\<lambda>x. x\<lparr>je_tick := t, je_stack_top := s\<rparr>"] by simp
  ultimately show ?thesis using assms(1,3) unfolding evaluates_def by metis
qed

lemma evaluates_function:
  assumes "en_eval_function eng f (je_heap e1) = en_eval eng src fn False (je_heap e)"
    and "e1\<lparr>je_tick := 0, je_stack_top := MainThread, je_heap := je_heap e\<rparr> = e\<lparr>je_tick := 0, je_stack_top := MainThread\<rparr>"
    and "cqjs_eval_function w eng f e1 = (r, e')"
  shows "evaluates w eng src fn e r e'"
proof -
  obtain s s' where c: "cqjs_eval_function w eng f e1 =
      apsnd (\<lambda>x. x\<lparr>je_stack_top := s'\<rparr>) (run_script w eng (en_eval_function eng f (je_heap e1)) (e1\<lparr>je_tick := Suc (je_tick e1), je_stack_top := s\<rparr>))"
    using on_big_stack_runs [of w "\<lambda>e. run_script w eng (en_eval_function eng f (je_heap e)) e" e1]
    by (auto simp: cqjs_eval_function_def)
  have "e1\<lparr>je_tick := t, je_stack_top := s, je_heap := je_heap e\<rparr> = e\<lparr>je_tick := t, je_stack_top := s\<rparr>" for t s
    using arg_cong [OF assms(2), of "\<lambda>x. x\<lparr>je_tick := t, je_stack_top := s\<rparr>"] by (cases e1; cases e) simp
  then have "run_script w eng sc (e1\<lparr>je_tick := t, je_stack_top := s\<rparr>) = run_script w eng sc (e\<lparr>je_tick := t, je_stack_top := s\<rparr>)" for sc t s
    using run_script_heap [of w eng sc "je_heap e" "e1\<lparr>je_tick := t, je_stack_top := s\<rparr>"] by simp
  with c assms(1,3) show ?thesis unfolding evaluates_def by metis
qed

text \<open>Storing the bytes of a compilation keeps the cache correct.\<close>

abbreviation cache_compiled :: "('v, 'h) engine \<Rightarrow> string \<Rightarrow> 'v \<Rightarrow> 'h \<Rightarrow> int \<Rightarrow> bytecode_cache \<Rightarrow> bytecode_cache" where
  "cache_compiled eng hash f h now c \<equiv>
     (case en_write_object eng f h of Some b \<Rightarrow> (if b \<noteq> [] then bc_insert c hash b now else c) | None \<Rightarrow> c)"

lemma cache_compiled_ok:
  assumes "cache_ok eng (w_sha256 w) S c" and "src \<in> S" and "now < INT64_MAX"
    and "hash = bc_compute_hash (w_sha256 w) (bytes_of src)" and "en_eval eng src fn True h0 = ScriptEnd (Some f) h"
  shows "cache_ok eng (w_sha256 w) S (cache_compiled eng hash f h now c)"
proof (cases "\<exists>b. en_write_object eng f h = Some b \<and> b \<noteq> []")
  case True
  then obtain b where b: "en_write_object eng f h = Some b" "b \<noteq> []" by blast
  then have "compiled_from eng (w_sha256 w) S hash b" using assms(2,4,5) unfolding compiled_from_def by blast
  then show ?thesis using bc.insert_stored [of c "compiled_from eng (w_sha256 w) S"] assms(1,3) b by simp
next
  case False
  then have "cache_compiled eng hash f h now c = c" by (auto split: option.split)
  with assms(1) show ?thesis by simp
qed

lemma eval_miss_transparent:
  assumes "compile_law eng" and "cache_ok eng (w_sha256 w) S c" and "src \<in> S" and "\<And>k. w_now_ms w k < INT64_MAX"
    and "hash = bc_compute_hash (w_sha256 w) (bytes_of src)" and "eval_miss w eng src fn hash c e = (r, c', e')"
  shows "evaluates w eng src fn e r e' \<and> cache_ok eng (w_sha256 w) S c'"
proof -
  obtain r1 h1 where comp: "en_eval eng src fn True (je_heap e) = ScriptEnd r1 h1"
      "en_eval eng src fn False (je_heap e) = (case r1 of Some f \<Rightarrow> en_eval_function eng f h1 | None \<Rightarrow> ScriptEnd None h1)"
    using assms(1) unfolding compile_law_def by blast
  obtain s0 s where "cqjs_eval w eng src fn True e = apsnd (\<lambda>x. x\<lparr>je_stack_top := s\<rparr>)
      (run_script w eng (en_eval eng src fn True (je_heap e)) (e\<lparr>je_tick := Suc (je_tick e), je_stack_top := s0\<rparr>))"
    using on_big_stack_runs [of w "\<lambda>e. run_script w eng (en_eval eng src fn True (je_heap e)) e" e]
    by (auto simp: cqjs_eval_def)
  then have c1: "cqjs_eval w eng src fn True e =
      (r1, e\<lparr>je_heap := h1, je_tick := Suc (je_tick e), je_stack_top := s\<rparr>)"
    unfolding comp(1) by (cases e) simp
  define e1 where "e1 = e\<lparr>je_heap := h1, je_tick := Suc (je_tick e), je_stack_top := s\<rparr>"
  note e1 = c1 [folded e1_def] e1_def
  show ?thesis
  proof (cases r1)
    case None
    have "(None, e1) = apsnd (\<lambda>x. x\<lparr>je_stack_top := s\<rparr>)
        (run_script w eng (ScriptEnd None h1) (e\<lparr>je_tick := Suc (je_tick e), je_stack_top := s\<rparr>))"
      by (cases e) (simp add: e1(2))
    then have "evaluates w eng src fn e None e1" unfolding evaluates_def comp(2) None option.case by blast
    with assms(2,6) e1(1) show ?thesis by (simp add: eval_miss_def None)
  next
    case (Some f)
    define c1 where "c1 = cache_compiled eng hash f h1 (w_now_ms w (je_tick e1)) c"
    have "je_heap e1 = h1" by (simp add: e1(2))
    then have "eval_miss w eng src fn hash c e = (case cqjs_eval_function w eng f (ask e1) of (r, e2) \<Rightarrow> (r, c1, e2))"
      by (simp add: eval_miss_def e1(1) Some Let_def c1_def)
    with assms(6) have e2: "cqjs_eval_function w eng f (ask e1) = (r, e')" and c': "c' = c1"
      by (simp_all split: prod.splits)
    have "(ask e1)\<lparr>je_tick := 0, je_stack_top := MainThread, je_heap := je_heap e\<rparr> = e\<lparr>je_tick := 0, je_stack_top := MainThread\<rparr>"
      by (cases e) (simp add: ask_def e1(2))
    moreover have "en_eval_function eng f (je_heap (ask e1)) = en_eval eng src fn False (je_heap e)"
      unfolding comp(2) by (simp add: Some ask_def e1(2))
    ultimately have "evaluates w eng src fn e r e'" using e2 by (intro evaluates_function)
    moreover have "cache_ok eng (w_sha256 w) S c1"
      using comp(1) cache_compiled_ok [OF assms(2-3) assms(4) assms(5)] by (simp add: c1_def Some)
    ultimately show ?thesis unfolding c' ..
  qed
qed

lemma eval_hit_transparent:
  assumes "bytecode_law eng" and "compiled_from eng (w_sha256 w) S (bc_compute_hash (w_sha256 w) (bytes_of src)) b"
    and "src \<in> S" and "inj_on (\<lambda>s. bc_compute_hash (w_sha256 w) (bytes_of s)) S"
    and "eval_hit w eng src fn b e = (r, e')"
  shows "\<exists>fn0. evaluates w eng src fn0 e r e'"
proof -
  obtain fn0 h0 f h1 where f: "en_eval eng src fn0 True h0 = ScriptEnd (Some f) h1" "en_write_object eng f h1 = Some b"
    using assms(2,3) inj_onD [OF assms(4)] unfolding compiled_from_def by blast
  note law = assms(1) [unfolded bytecode_law_def, rule_format, OF f, of "je_heap e"]
  obtain obj h2 where o: "en_read_object eng b (je_heap e) = (obj, h2)" by (rule prod.exhaust)
  show ?thesis
  proof (cases obj)
    case (Some g)
    with law o have "en_eval_function eng g h2 = en_eval eng src fn0 False (je_heap e)" by simp
    then have "evaluates w eng src fn0 e r e'"
      using assms(5) Some o by (intro evaluates_function [of eng g "e\<lparr>je_heap := h2\<rparr>"]) (simp_all add: eval_hit_def)
    then show ?thesis ..
  next
    case None
    obtain exc h3 where x: "en_exception eng h2 = (exc, h3)" by (rule prod.exhaust)
    with law o None have "en_free eng exc h3 = je_heap e" by simp
    then have "drop_exception eng (e\<lparr>je_heap := h2\<rparr>) = e" by (simp add: drop_exception_def on_heap_def x)
    then have "evaluates w eng src fn e r e'"
      using assms(5) None o by (intro evaluates_eval [of e]) (simp_all add: eval_hit_def)
    then show ?thesis ..
  qed
qed

section \<open>Properties\<close>

text \<open>
  Property C7.  The event loop of an environment answers every request.  Whatever the scripts, the engine, the fetch
  threads and the main thread do, any number of turns of the loop return (the clock moves on and only finitely
  many requests arrive), and the requests taken are, in order, a prefix of those queued at the start followed by
  those submitted meanwhile; each of them gets exactly one response of type result or error with its id, in
  order, and the only other output is events that carry the environment's id.  The invariants of the timers, the
  fetches, the dispatch tracker and the queue hold afterwards, no completed fetch waits without a wake-up, and
  an engine that knew of the running thread's stack knows of it again.
\<close>

theorem event_loop_answers:
  assumes "env_inv e" and "clock_advances w" and "arrivals_end w"
  shows "\<exists>handled cache' e' new out. env_event_loop k w eng (cache, e) = Some (handled, cache', e') \<and> env_inv e' \<and>
    je_submitted e' = je_submitted e @ new \<and>
    rq_contents (je_requests e) @ new = handled @ rq_contents (je_requests e') \<and>
    je_out e' = je_out e @ out \<and> list_all2 answers handled (filter (\<lambda>r. \<not> event_of (je_env_id e) r) out) \<and>
    (je_stack_top e = je_thread e \<longrightarrow> je_stack_top e' = je_thread e) \<and>
    (je_running e \<and> 0 < k \<longrightarrow> awake (je_fetch_mgr e'))"
proof -
  obtain handled cache' e' where l: "env_event_loop k w eng (cache, e) = Some (handled, cache', e')" "env_inv e'"
      "serves w handled handled e e'" "je_running e \<longrightarrow> 0 < k \<longrightarrow> awake (je_fetch_mgr e')"
    using event_loop [OF assms, of k eng cache] by blast
  from l(3) obtain new out where "je_submitted e' = je_submitted e @ new"
      "rq_contents (je_requests e) @ new = handled @ rq_contents (je_requests e')"
      "je_out e' = je_out e @ out" "list_all2 answers handled (filter (\<lambda>r. \<not> event_of (je_env_id e) r) out)"
    by (auto simp: serves_def replies_def)
  moreover have "je_stack_top e = je_thread e \<longrightarrow> je_stack_top e' = je_thread e" using l(3) by (simp add: serves_def)
  ultimately show ?thesis using l(1,2,4) by blast
qed

text \<open>
  One turn of the event loop leaves no request unanswered and never sleeps long: it takes every request
  that was queued when it started, so that the queue is empty when the jobs are processed, and the
  timeout it gives to \<^verbatim>\<open>poll\<close> is between 0 and 100 milliseconds and at most the time to the next timer.
\<close>

theorem loop_turn_drains_queue:
  assumes "env_inv e" and "clock_advances w" and "arrivals_end w"
    and "tm_next_timeout_ms (env_clock w) (je_timer_mgr e, je_clock e) = (next_timer, n)"
  shows "\<exists>timeout handled later cache' e1 e'. env_loop_turn w eng (cache, e) = Some (timeout, handled, cache', e') \<and>
    handled = rq_contents (je_requests e) @ later \<and>
    env_drain w eng [] (cache, env_drain_pipes (e\<lparr>je_clock := n\<rparr>)) = Some (handled, cache', e1) \<and>
    rq_contents (je_requests e1) = [] \<and> env_process_jobs w eng e1 = Some e' \<and>
    0 \<le> timeout \<and> timeout \<le> 100 \<and> (0 \<le> next_timer \<longrightarrow> timeout \<le> next_timer)"
proof -
  let ?e = "env_drain_pipes (e\<lparr>je_clock := n\<rparr>)"
  have inv: "env_inv ?e"
    using assms(1) by (simp add: env_inv_def env_drain_pipes_def tm_inv_def fm_inv_def entry_ok_def)
  from drain_all [OF this assms(2,3), of eng "[]" cache] obtain handled cache' e1 where
    d: "env_drain w eng [] (cache, ?e) = Some (handled, cache', e1)" "env_inv e1" "serves w handled handled ?e e1"
      "rq_contents (je_requests e1) = []" by auto
  obtain e2 where j: "env_process_jobs w eng e1 = Some e2" by (rule process_jobs [OF d(2) assms(2)])
  from d(3,4) have "\<exists>later. handled = rq_contents (je_requests e) @ later"
    by (auto simp: serves_def env_drain_pipes_def)
  with assms(4) d(1,4) j show ?thesis by (auto simp: env_loop_turn_def env_poll_timeout_def)
qed

lemma eval_cached_transparent:
  assumes "compile_law eng" and "bytecode_law eng" and "cache_ok eng (w_sha256 w) S c" and "src \<in> S"
    and "inj_on (\<lambda>s. bc_compute_hash (w_sha256 w) (bytes_of s)) S" and "\<forall>k. w_now_ms w k < INT64_MAX"
  shows "\<exists>fn0 r c' e1. eval_cached w eng src fn (Some c) e = (r, Some c', e1) \<and> evaluates w eng src fn0 e r e1 \<and>
    cache_ok eng (w_sha256 w) S c' \<and> (fn0 = fn \<or> bc_contents c (bc_compute_hash (w_sha256 w) (bytes_of src)) \<noteq> None)"
proof -
  define hash where "hash = bc_compute_hash (w_sha256 w) (bytes_of src)"
  obtain found c1 where l: "bc_lookup c hash (w_now_ms w (je_tick e)) = (found, c1)" by (rule prod.exhaust)
  then have lb: "bc_lookup_bytes c hash (w_now_ms w (je_tick e)) = (map_option be_bytecode found, c1)"
    by (simp add: bc_lookup_bytes_def)
  from bc.lookup_stored [OF _ _ _ lb, of "compiled_from eng (w_sha256 w) S"] assms(3,6)
  have c1: "cache_ok eng (w_sha256 w) S c1" "\<And>b. map_option be_bytecode found = Some b \<Longrightarrow> compiled_from eng (w_sha256 w) S hash b" by auto
  have found: "map_option be_bytecode found = bc_contents c hash"
    using bc.lookup_law [OF _ _ lb] assms(3,6) by simp
  have ask: "evaluates w eng src fn0 e r e1" if "evaluates w eng src fn0 (ask e) r e1" for fn0 r e1
    using that by (simp add: evaluates_def ask_def)
  show ?thesis
  proof (cases found)
    case None
    obtain r c2 e1 where m: "eval_miss w eng src fn hash c1 (ask e) = (r, c2, e1)" by (rule prod_cases3)
    then have "eval_cached w eng src fn (Some c) e = (r, Some c2, e1)"
      by (simp add: eval_cached_def l [unfolded hash_def] None hash_def)
    moreover have "evaluates w eng src fn (ask e) r e1 \<and> cache_ok eng (w_sha256 w) S c2"
      using assms(6) by (intro eval_miss_transparent [OF assms(1) c1(1) assms(4) _ hash_def m]) simp
    ultimately show ?thesis using ask unfolding hash_def by blast
  next
    case (Some entry)
    obtain r e1 where h: "eval_hit w eng src fn (be_bytecode entry) (ask e) = (r, e1)" by (rule prod.exhaust)
    then have "eval_cached w eng src fn (Some c) e = (r, Some c1, e1)"
      by (simp add: eval_cached_def l [unfolded hash_def] Some)
    moreover have "compiled_from eng (w_sha256 w) S (bc_compute_hash (w_sha256 w) (bytes_of src)) (be_bytecode entry)"
      using c1(2) Some by (simp add: hash_def)
    with eval_hit_transparent [OF assms(2) _ assms(4,5) h] have "\<exists>fn0. evaluates w eng src fn0 (ask e) r e1" by blast
    moreover have "bc_contents c hash \<noteq> None" unfolding found [symmetric] Some by simp
    ultimately show ?thesis using ask c1(1) unfolding hash_def by blast
  qed
qed

text \<open>
  Property C12.  The bytecode cache is transparent.  While it holds nothing but bytes written for compilations of sources whose
  hashes differ, handling an eval request through it runs exactly the script that evaluating the source runs,
  on a hit, on a miss and when the cached bytes cannot be read, and responds with its outcome; the cache keeps its
  invariants.  The script may be the one for another file name only on a hit: the hash covers the source alone, and
  the cached code keeps the file name it was first compiled with.
\<close>

theorem eval_cache_transparent:
  assumes "compile_law eng" and "bytecode_law eng" and "cache_ok eng (w_sha256 w) S c" and "src \<in> S"
    and "inj_on (\<lambda>s. bc_compute_hash (w_sha256 w) (bytes_of s)) S" and "\<forall>k. w_now_ms w k < INT64_MAX"
    and "rq_code req = Some src"
  shows "\<exists>fn r c' e1. evaluates w eng src fn e r e1 \<and> cache_ok eng (w_sha256 w) S c' \<and>
    (fn = (case rq_filename req of Some f \<Rightarrow> f | None \<Rightarrow> ''<eval>'') \<or>
     bc_contents c (bc_compute_hash (w_sha256 w) (bytes_of src)) \<noteq> None) \<and>
    env_handle_eval w eng req (Some c) e =
      map_option (Pair (Some c')) (env_process_jobs w eng (env_respond eng ''eval error'' (rq_request_id req) r e1))"
proof -
  define fn where "fn = (case rq_filename req of Some f \<Rightarrow> f | None \<Rightarrow> ''<eval>'')"
  from eval_cached_transparent [OF assms(1-6), of fn e] obtain fn0 r c' e1 where
    ev: "eval_cached w eng src fn (Some c) e = (r, Some c', e1)" and rest: "evaluates w eng src fn0 e r e1" "cache_ok eng (w_sha256 w) S c'"
      "fn0 = fn \<or> bc_contents c (bc_compute_hash (w_sha256 w) (bytes_of src)) \<noteq> None" by blast
  have "env_handle_eval w eng req (Some c) e =
      map_option (Pair (Some c')) (env_process_jobs w eng (env_respond eng ''eval error'' (rq_request_id req) r e1))"
    using ev by (simp add: env_handle_eval_def assms(7) fn_def)
  with rest show ?thesis unfolding fn_def by blast
qed

section \<open>Witnesses\<close>

text \<open>An engine whose values are strings: every script sends one event and returns its own source.\<close>

definition ex_script :: "string \<Rightarrow> unit \<Rightarrow> (string, unit) script" where
  "ex_script src h = HostCall (Call_cqjs_send [''ran'', src]) h (\<lambda>a h. ScriptEnd (Some src) h)"

definition ex_env_api :: "string js_api" where
  "ex_env_api = \<lparr>js_cstring_len = Some, js_array_buffer = \<lambda>_. None, js_int32 = \<lambda>_. 0, js_int64 = \<lambda>_. 0,
     js_is_object = \<lambda>_. False, js_is_undefined = \<lambda>_. False, js_is_null = \<lambda>_. False,
     js_get_property = \<lambda>_ _. [], js_own_names = \<lambda>_. None\<rparr>"

definition ex_engine :: "(string, unit) engine" where
  "ex_engine = \<lparr>en_eval = \<lambda>src fn co h. if co then ScriptEnd (Some src) h else ex_script src h,
     en_eval_function = ex_script, en_call = ex_script, en_job = \<lambda>h. None, en_settle = \<lambda>f arg h. h,
     en_new_promise = \<lambda>h. (([], [], []), h), en_exception = \<lambda>h. ([], h),
     en_write_object = \<lambda>v h. Some (bytes_of v), en_read_object = \<lambda>b h. (Some (chars_of b), h),
     en_parse_json = \<lambda>s h. (None, h), en_api = \<lambda>h. ex_env_api, en_dup = \<lambda>v h. h, en_free = \<lambda>v h. h,
     en_tm_ptr = \<lambda>h. True, en_fm_ptr = \<lambda>h. True, en_new_runtime = \<lambda>t. True, en_new_context = \<lambda>m s t. Some ()\<rparr>"

definition ex_world :: host_world where
  "ex_world = \<lparr>w_clock_ns = (\<lambda>k. k), w_now_ms = (\<lambda>k. 0), w_thread_ok = even, w_calloc_ok = (\<lambda>k. True), w_malloc_ok = (\<lambda>k. True),
     w_curl = (\<lambda>opts. None), w_workers = (\<lambda>k. []), w_arrivals = (\<lambda>k. []), w_fopen = (\<lambda>p. None),
     w_sha256 = Some (\<lambda>c. take 32 (c @ replicate 32 0))\<rparr>"

definition ex_request :: env_request where
  "ex_request = \<lparr>rq_request_id = Some ''7'', rq_type = ''eval'', rq_code = Some ''x'', rq_filename = None, rq_path = None\<rparr>"

definition ex_js_env :: "(string, unit) js_env" where
  "ex_js_env = env_submit_request ex_request \<lparr>je_env_id = ''a'', je_heap = (), je_thread = LoopThread, je_stack_top = LoopThread, je_timer_mgr = tm_init,
     je_clock = 0, je_fetch_mgr = fm_init, je_dispatch = dt_init, je_bridge = True, je_globals = [], je_requests = rq_init,
     je_pipe = [], je_running = True, je_memory_limit_mb = 0, je_stack_size_mb = 0, je_tick = 0, je_out = [],
     je_submitted = []\<rparr>"

lemma fm_inv_init: "fm_inv fm_init"
  by (simp add: fm_inv_def fm_init_def)

lemma ex_env_facts: "env_inv ex_js_env" "clock_advances ex_world" "arrivals_end ex_world"
  "rq_contents (je_requests ex_js_env) = [ex_request]"
proof -
  show "env_inv ex_js_env" using rq.push_inv [OF rq_inv_init]
    by (simp add: env_inv_def ex_js_env_def env_submit_request_def tm_inv_init fm_inv_init dt_inv_init)
  show "clock_advances ex_world" unfolding clock_advances_def ex_world_def
    by (simp, metis Suc_le_eq)
  show "arrivals_end ex_world" by (simp add: arrivals_end_def ex_world_def)
  show "rq_contents (je_requests ex_js_env) = [ex_request]" using rq.push_contents [OF rq_inv_init]
    by (simp add: ex_js_env_def env_submit_request_def)
qed

theorem event_loop_answers_witness:
  "env_inv ex_js_env \<and> clock_advances ex_world \<and> arrivals_end ex_world \<and>
   (\<exists>handled cache' e' new. env_event_loop 2 ex_world ex_engine (None, ex_js_env) = Some (handled, cache', e') \<and>
      [ex_request] @ new = handled @ rq_contents (je_requests e') \<and> je_stack_top e' = LoopThread)"
proof -
  have "je_stack_top ex_js_env = je_thread ex_js_env" "je_thread ex_js_env = LoopThread"
    by (simp_all add: ex_js_env_def env_submit_request_def)
  with event_loop_answers [OF ex_env_facts(1-3), of 2 ex_engine None] ex_env_facts show ?thesis by auto
qed

theorem loop_turn_drains_queue_witness:
  "\<exists>timeout handled cache' e'. env_loop_turn ex_world ex_engine (None, ex_js_env) = Some (timeout, handled, cache', e') \<and>
     ex_request \<in> set handled \<and> timeout \<le> 100"
proof -
  obtain t n where "tm_next_timeout_ms (env_clock ex_world) (je_timer_mgr ex_js_env, je_clock ex_js_env) = (t, n)"
    by (rule prod.exhaust)
  from loop_turn_drains_queue [OF ex_env_facts(1-3) this, of ex_engine None] ex_env_facts(4) show ?thesis by auto
qed

theorem eval_cache_transparent_witness:
  "\<exists>fn r c' e1. evaluates ex_world ex_engine ''x'' fn ex_js_env r e1 \<and>
     env_handle_eval ex_world ex_engine ex_request (Some (bc_init 4)) ex_js_env =
       map_option (Pair (Some c')) (env_process_jobs ex_world ex_engine (env_respond ex_engine ''eval error'' (Some ''7'') r e1))"
proof -
  have laws: "compile_law ex_engine" "bytecode_law ex_engine"
    by (simp_all add: compile_law_def bytecode_law_def ex_engine_def)
  have inv: "bc_inv (bc_init 4)" by (rule bc_inv_init) simp_all
  have ok: "cache_ok ex_engine (w_sha256 ex_world) {''x''} (bc_init 4)" using inv by (simp add: bc.all_stored_def bc_abs_init)
  have now: "\<forall>k. w_now_ms ex_world k < INT64_MAX" by (simp add: ex_world_def INT64_MAX_def)
  have "rq_code ex_request = Some ''x''" "rq_request_id ex_request = Some ''7''" by (simp_all add: ex_request_def)
  with eval_cache_transparent [OF laws ok _ _ now, of "''x''" ex_request ex_js_env] show ?thesis by auto
qed

end
