(* ===== verification/Worker_Pool.thy ===== *)
theory Worker_Pool
  imports Prelude "HOL-Library.Multiset"
begin

text \<open>
  What the server relies on in its environments.  A worker holds pending requests; submitting adds one, and while it runs
  for a while it sends responses that answer exactly the requests that left its queue.  The client lemmas of the
  locale keep account of a list of workers, of which one is given a request, runs, is removed or all run to their end:
  nothing is lost and nothing is answered twice.  Accounts are multisets of request ids, since clients may use an id
  more than once or none at all.
\<close>

section \<open>The contract of a worker\<close>

locale request_worker =
  fixes inv :: "'e \<Rightarrow> bool"
    and pending :: "'e \<Rightarrow> 'i multiset"
    and submit :: "'r \<Rightarrow> 'e \<Rightarrow> 'e"
    and id_of :: "'r \<Rightarrow> 'i"
    and runs :: "'e \<Rightarrow> 'o list \<Rightarrow> 'e \<Rightarrow> bool"
    and answered :: "'o list \<Rightarrow> 'i multiset"
  assumes submit_inv: "inv e \<Longrightarrow> inv (submit r e)"
    and submit_pending: "inv e \<Longrightarrow> pending (submit r e) = add_mset (id_of r) (pending e)"
    and runs_balance: "runs e out e' \<Longrightarrow> answered out + pending e' = pending e"
    and answered_append: "answered (a @ b) = answered a + answered b"
begin

definition total :: "'e list \<Rightarrow> 'i multiset" where
  "total es = sum_list (map pending es)"

lemma answered_Nil [simp]: "answered [] = {#}"
  using answered_append [of "[]" "[]"] by simp

lemma total_simps [simp]: "total [] = {#}" "total (e # es) = pending e + total es" "total (es @ fs) = total es + total fs"
  by (simp_all add: total_def)

lemma total_update: "k < length es \<Longrightarrow> total (es[k := e]) + pending (es ! k) = total es + pending e"
  by (induction es arbitrary: k) (auto split: nat.split)

lemma total_submit:
  assumes "k < length es" and "inv (es ! k)"
  shows "total (es[k := submit r (es ! k)]) = add_mset (id_of r) (total es)"
  using total_update [OF assms(1), of "submit r (es ! k)"] submit_pending [OF assms(2)] by simp

lemma total_runs:
  assumes "k < length es" and "runs (es ! k) out e"
  shows "answered out + total (es[k := e]) = total es"
proof -
  have "(answered out + total (es[k := e])) + pending (es ! k) = answered out + (total es + pending e)"
    using total_update [OF assms(1), of e] by (simp only: add.assoc)
  also have "\<dots> = total es + pending (es ! k)"
    using runs_balance [OF assms(2)] by (metis add.left_commute)
  finally show ?thesis by simp
qed

lemma total_remove:
  "distinct (map g es) \<Longrightarrow> e \<in> set es \<Longrightarrow> total (filter (\<lambda>x. g x \<noteq> g e) es) + pending e = total es"
proof (induction es)
  case (Cons x es)
  show ?case
  proof (cases "x = e")
    case True
    with Cons.prems have "filter (\<lambda>y. g y \<noteq> g e) es = es" by (auto simp: filter_id_conv rev_image_eqI)
    with True show ?thesis by simp
  next
    case False
    with Cons.prems have "g x \<noteq> g e" "e \<in> set es" by (auto simp: rev_image_eqI)
    with Cons show ?thesis by (simp add: add.assoc)
  qed
qed simp

text \<open>A removed worker ran to its end: what it did not answer is what it still holds.\<close>

lemma total_retire:
  assumes "distinct (map g es)" and "e \<in> set es" and "runs e out e'"
  shows "answered out + total (filter (\<lambda>x. g x \<noteq> g e) es) + pending e' = total es"
  using total_remove [OF assms(1,2)] runs_balance [OF assms(3)] by (metis add.assoc add.commute)

lemma total_retire_all:
  assumes "list_all2 (\<lambda>e (out, e'). runs e out e') es ps"
  shows "answered (concat (map fst ps)) + total (map snd ps) = total es"
  using assms
proof (induction rule: list_all2_induct)
  case (Cons e es p ps)
  then show ?case using runs_balance [of e "fst p" "snd p"]
    by (cases p) (simp add: answered_append, metis add.assoc add.left_commute)
qed simp

end

end
