(* ===== verification/Event_Thread.thy ===== *)
theory Event_Thread
  imports Environment Worker_Pool
begin

text \<open>
  The thread of an environment in small steps.  \<open>Environment\<close> describes \<^verbatim>\<open>env_event_loop\<close> of \<^verbatim>\<open>src/env_manager.c\<close> by one
  function for a whole turn; here the thread has a program counter, and a step touches the request queue, which it shares with
  the main thread, at most once: it tests \<^verbatim>\<open>running\<close>, waits, takes one request and evaluates it, or runs one round
  of jobs and looks whether a request waits.  Between two steps any other thread may run.  A turn is a
  sequence of such steps.  Stopping the thread, as \<^verbatim>\<open>env_destroy\<close> does, lets it take steps until it leaves the loop.
\<close>

section \<open>Steps\<close>

text \<open>
  \<open>Jobs k b\<close> is inside \<^verbatim>\<open>env_process_jobs\<close> with \<open>k\<close> of its 100 rounds left; \<open>b\<close> says that a request handler called it, to
  which it returns, and not the event loop itself.
\<close>

datatype loop_pc = LoopHead | Polling | Draining | Jobs nat bool | Stopped

definition jobs_return :: "bool \<Rightarrow> loop_pc" where
  "jobs_return in_handler = (if in_handler then Draining else LoopHead)"

text \<open>One round of \<^verbatim>\<open>env_process_jobs\<close>, and whether there is another one.\<close>

definition env_jobs_round ::
    "host_world \<Rightarrow> ('v, 'h) engine \<Rightarrow> ('v, 'h) js_env \<Rightarrow> (bool \<times> ('v, 'h) js_env) option" where
  "env_jobs_round w eng e =
     (case env_run_job w eng e of (executed, e1) \<Rightarrow>
      case env_timer_pass w eng e1 of
        None \<Rightarrow> None
      | Some (fired, e2) \<Rightarrow>
          (case env_fetch_pass w eng e2 of
             None \<Rightarrow> None
           | Some (settled, e3) \<Rightarrow>
               if executed \<le> 0 \<and> fired = [] \<and> settled = [] then Some (False, e3)
               else let e4 = env_arrivals w e3 in Some (rq_head (je_requests e4) = None, e4)))"

text \<open>
  The handlers up to their call of \<^verbatim>\<open>env_process_jobs\<close>; the first component says whether they get that far.
\<close>

definition env_evaluate ::
    "host_world \<Rightarrow> ('v, 'h) engine \<Rightarrow> env_request \<Rightarrow> bytecode_cache option \<Rightarrow> ('v, 'h) js_env \<Rightarrow>
     bool \<times> bytecode_cache option \<times> ('v, 'h) js_env" where
  "env_evaluate w eng req cache e =
     (let i = rq_request_id req in
      if rq_type req = ''eval'' then
        (case rq_code req of
           None \<Rightarrow> (False, cache, send (error_response i (''eval: missing '' @ apos ''code'')) e)
         | Some src \<Rightarrow>
             (case eval_cached w eng src (case rq_filename req of Some f \<Rightarrow> f | None \<Rightarrow> ''<eval>'') cache e of
                (result, cache', e1) \<Rightarrow> (True, cache', env_respond eng ''eval error'' i result e1)))
      else if rq_type req = ''eval_file'' then
        (case rq_path req of
           None \<Rightarrow> (False, cache, send (error_response i (''eval_file: missing '' @ apos ''path'')) e)
         | Some path \<Rightarrow>
             (case cqjs_read_file (w_malloc_ok w) (w_fopen w) path of
                None \<Rightarrow> (False, cache, send (error_response i (snprintf 512 (''eval_file: cannot read '' @ apos path))) e)
              | Some file_content \<Rightarrow>
                  (case cqjs_eval w eng file_content path False e of
                     (result, e1) \<Rightarrow> (True, cache, env_respond eng ''eval_file error'' i result e1))))
      else (False, cache, send (error_response i (snprintf 128 (''unknown request type for env: '' @ rq_type req))) e))"

type_synonym ('v, 'h) loop_state = "loop_pc \<times> bytecode_cache option \<times> ('v, 'h) js_env"

fun loop_step ::
    "host_world \<Rightarrow> ('v, 'h) engine \<Rightarrow> ('v, 'h) loop_state \<Rightarrow> (env_request list \<times> ('v, 'h) loop_state) option" where
  "loop_step w eng (LoopHead, cache, e) = Some ([], if je_running e then Polling else Stopped, cache, e)"
| "loop_step w eng (Polling, cache, e) =
     (case tm_next_timeout_ms (env_clock w) (je_timer_mgr e, je_clock e) of
        (next_timer, n) \<Rightarrow> Some ([], Draining, cache, env_drain_pipes (e\<lparr>je_clock := n\<rparr>)))"
| "loop_step w eng (Draining, cache, e) =
     (let e1 = env_arrivals w e in
      case rq_pop (je_requests e1) of
        (None, q) \<Rightarrow> Some ([], Jobs 100 False, cache, e1)
      | (Some req, q) \<Rightarrow>
          (case env_evaluate w eng req cache (e1\<lparr>je_requests := q\<rparr>) of
             (jobs, cache', e2) \<Rightarrow> Some ([req], if jobs then Jobs 100 True else Draining, cache', e2)))"
| "loop_step w eng (Jobs 0 b, cache, e) = Some ([], jobs_return b, cache, e)"
| "loop_step w eng (Jobs (Suc k) b, cache, e) =
     map_option (\<lambda>(again, e'). ([], if again then Jobs k b else jobs_return b, cache, e')) (env_jobs_round w eng e)"
| "loop_step w eng (Stopped, cache, e) = Some ([], Stopped, cache, e)"

fun loop_steps ::
    "nat \<Rightarrow> host_world \<Rightarrow> ('v, 'h) engine \<Rightarrow> ('v, 'h) loop_state \<Rightarrow> (env_request list \<times> ('v, 'h) loop_state) option" where
  "loop_steps 0 w eng s = Some ([], s)"
| "loop_steps (Suc n) w eng s =
     (case loop_step w eng s of
        None \<Rightarrow> None
      | Some (hs, s') \<Rightarrow> map_option (\<lambda>(hs', s''). (hs @ hs', s'')) (loop_steps n w eng s'))"

text \<open>Waiting for the thread: it takes steps until it has left the loop.\<close>

partial_function (option) loop_join ::
    "host_world \<Rightarrow> ('v, 'h) engine \<Rightarrow> env_request list \<Rightarrow> ('v, 'h) loop_state \<Rightarrow>
     (env_request list \<times> bytecode_cache option \<times> ('v, 'h) js_env) option" where
  "loop_join w eng handled s =
     (if fst s = Stopped then Some (handled, snd s)
      else Option.bind (loop_step w eng s) (\<lambda>(hs, s'). loop_join w eng (handled @ hs) s'))"

section \<open>Steps and turns\<close>

lemma handle_request_evaluate:
  "env_handle_request w eng req cache e =
     (case env_evaluate w eng req cache e of (jobs, cache', e1) \<Rightarrow>
        if jobs then map_option (Pair cache') (env_process_jobs w eng e1) else Some (cache', e1))"
  by (auto simp: env_handle_request_def env_evaluate_def env_handle_eval_def env_handle_eval_file_def Let_def
      split: option.split prod.split)

lemma env_jobs_loop_round:
  "env_jobs_loop (Suc k) w eng e =
     (case env_jobs_round w eng e of
        None \<Rightarrow> None
      | Some (again, e') \<Rightarrow> if again then env_jobs_loop k w eng e' else Some e')"
  by (auto simp: env_jobs_round_def Let_def split: option.split prod.split)

lemma loop_steps_append:
  "loop_steps m w eng s = Some (hs, s') \<Longrightarrow> loop_steps n w eng s' = Some (hs', s'') \<Longrightarrow>
   loop_steps (m + n) w eng s = Some (hs @ hs', s'')"
proof (induction m arbitrary: s hs)
  case (Suc m)
  then obtain hs1 s1 hs2 where "loop_step w eng s = Some (hs1, s1)" "loop_steps m w eng s1 = Some (hs2, s')" "hs = hs1 @ hs2"
    by (auto split: option.splits)
  with Suc.IH [of s1 hs2] Suc.prems(2) show ?case by simp
qed simp

lemma loop_steps_one: "loop_step w eng s = Some (hs, s') \<Longrightarrow> loop_steps 1 w eng s = Some (hs, s')"
  by simp

lemma jobs_steps:
  "env_jobs_loop k w eng e = Some e' \<Longrightarrow> \<exists>n. loop_steps n w eng (Jobs k b, cache, e) = Some ([], jobs_return b, cache, e')"
proof (induction k arbitrary: e)
  case 0
  then show ?case by (intro exI [of _ 1]) simp
next
  case (Suc k)
  then obtain again e1 where r: "env_jobs_round w eng e = Some (again, e1)"
    by (auto simp: env_jobs_loop_round simp del: env_jobs_loop.simps split: option.splits)
  show ?case
  proof (cases again)
    case True
    with Suc r have "\<exists>n. loop_steps n w eng (Jobs k b, cache, e1) = Some ([], jobs_return b, cache, e')"
      by (simp add: env_jobs_loop_round del: env_jobs_loop.simps)
    then obtain n where n: "loop_steps n w eng (Jobs k b, cache, e1) = Some ([], jobs_return b, cache, e')" ..
    with r True show ?thesis by (intro exI [of _ "Suc n"]) simp
  next
    case False
    with Suc.prems r have "e' = e1" by (simp add: env_jobs_loop_round del: env_jobs_loop.simps)
    with r False show ?thesis by (intro exI [of _ 1]) simp
  qed
qed

lemma drain_steps:
  assumes ret: "env_drain w eng handled s = Some (handled', cache', e')"
  shows "\<exists>n served. handled' = handled @ served \<and> loop_steps n w eng (Draining, s) = Some (served, Jobs 100 False, cache', e')"
proof -
  have "\<exists>n served. fst r = handled @ served \<and> loop_steps n w eng (Draining, s) = Some (served, Jobs 100 False, snd r)"
    if "env_drain w eng handled s = Some r" for r
  proof (rule env_drain.raw_induct [where P = "\<lambda>w eng handled s r. \<exists>n served. fst r = handled @ served \<and>
        loop_steps n w eng (Draining, s) = Some (served, Jobs 100 False, snd r)", OF _ that], goal_cases)
    case (1 drain w eng handled s r)
    note IH = 1(1) and eq = 1(2)
    obtain cache e where s: "s = (cache, e)" by (rule prod.exhaust)
    obtain popped q where p: "rq_pop (je_requests (env_arrivals w e)) = (popped, q)" by (rule prod.exhaust)
    show ?case
    proof (cases popped)
      case None
      with eq p s show ?thesis by (intro exI [of _ 1] exI [of _ "[]"]) (auto simp: Let_def)
    next
      case (Some req)
      define e1 where "e1 = (env_arrivals w e)\<lparr>je_requests := q\<rparr>"
      obtain jobs cache1 e2 where ev: "env_evaluate w eng req cache e1 = (jobs, cache1, e2)" by (rule prod_cases3)
      from eq p s Some obtain cache2 e3 where h: "env_handle_request w eng req cache e1 = Some (cache2, e3)"
        "drain w eng (handled @ [req]) (cache2, e3) = Some r"
        by (auto simp: Let_def e1_def bind_eq_Some_conv)
      have one: "loop_steps 1 w eng (Draining, s) = Some ([req], if jobs then Jobs 100 True else Draining, cache1, e2)"
        using p s Some ev by (simp add: Let_def e1_def)
      have "\<exists>m. loop_steps m w eng (if jobs then Jobs 100 True else Draining, cache1, e2) = Some ([], Draining, cache2, e3)"
      proof (cases jobs)
        case True
        with h(1) ev have "cache2 = cache1" "env_jobs_loop 100 w eng e2 = Some e3"
          by (auto simp: handle_request_evaluate env_process_jobs_def)
        with True jobs_steps [of 100 w eng e2 e3 True cache1] show ?thesis by (simp add: jobs_return_def)
      next
        case False
        with h(1) ev show ?thesis by (intro exI [of _ 0]) (simp add: handle_request_evaluate)
      qed
      then obtain m where m: "loop_steps m w eng (if jobs then Jobs 100 True else Draining, cache1, e2) = Some ([], Draining, cache2, e3)" ..
      from IH [OF h(2)] obtain n served where n: "fst r = (handled @ [req]) @ served"
        "loop_steps n w eng (Draining, cache2, e3) = Some (served, Jobs 100 False, snd r)" by blast
      from loop_steps_append [OF loop_steps_append [OF one m] n(2)] n(1) show ?thesis
        by (intro exI [of _ "1 + m + n"] exI [of _ "req # served"]) simp
    qed
  qed
  from this [OF ret] show ?thesis by simp
qed

lemma turn_steps:
  assumes "je_running e" and "env_loop_turn w eng (cache, e) = Some (timeout, handled, s')"
  shows "\<exists>n. loop_steps n w eng (LoopHead, cache, e) = Some (handled, LoopHead, s')"
proof -
  obtain next_timer n where t: "tm_next_timeout_ms (env_clock w) (je_timer_mgr e, je_clock e) = (next_timer, n)"
    by (rule prod.exhaust)
  let ?e = "env_drain_pipes (e\<lparr>je_clock := n\<rparr>)"
  from assms(2) t obtain cache1 e1 e2 where d: "env_drain w eng [] (cache, ?e) = Some (handled, cache1, e1)"
    and j: "env_jobs_loop 100 w eng e1 = Some e2" and s': "s' = (cache1, e2)"
    by (auto simp: env_loop_turn_def env_process_jobs_def split: option.splits)
  have p: "loop_steps 2 w eng (LoopHead, cache, e) = Some ([], Draining, cache, ?e)"
    using assms(1) t by (simp add: numeral_2_eq_2)
  from drain_steps [OF d] obtain m where
    m: "loop_steps m w eng (Draining, cache, ?e) = Some (handled, Jobs 100 False, cache1, e1)" by auto
  from jobs_steps [OF j, of False cache1] obtain k where
    k: "loop_steps k w eng (Jobs 100 False, cache1, e1) = Some ([], LoopHead, cache1, e2)" by (auto simp: jobs_return_def)
  from loop_steps_append [OF loop_steps_append [OF p m] k] show ?thesis
    unfolding s' by (intro exI [of _ "2 + m + k"]) simp
qed

section \<open>What a step does\<close>

lemma evaluate_serves:
  assumes "env_inv e"
  obtains jobs cache' e' where "env_evaluate w eng req cache e = (jobs, cache', e')" "env_inv e'" "serves w [] [req] e e'"
proof -
  obtain jobs cache' e' where ev: "env_evaluate w eng req cache e = (jobs, cache', e')" by (rule prod_cases3)
  have resp: "env_inv (env_respond eng m (rq_request_id req) r e1) \<and> serves w [] [req] e (env_respond eng m (rq_request_id req) r e1)"
    if "script_ok w e e1" for m r e1
  proof -
    have e1: "env_inv e1" "serves w [] [] e e1"
      using that assms by (auto simp: script_ok_def intro: script_ok_inv [OF that] serves_frame)
    from respond_serves [OF e1(1) refl, where eng = eng and msg = m and result = r and w = w and req = req] serves_trans [OF e1(2)]
    show ?thesis by fastforce
  qed
  have err: "env_inv (send (error_response (rq_request_id req) m) e) \<and>
      serves w [] [req] e (send (error_response (rq_request_id req) m) e)" for m
    by (rule send_serves) (simp_all add: assms)
  have script: "eval_cached w eng src fn cache e = (r, c, e1) \<Longrightarrow> script_ok w e e1"
      "cqjs_eval w eng src fn False e = (r, e1) \<Longrightarrow> script_ok w e e1" for src fn r c e1
    using eval_cached_ok [of w e eng src fn cache] cqjs_ok(1) [of w e eng src fn False] by (metis snd_conv)+
  note good = err resp [OF script(1)] resp [OF script(2)]
  have "env_inv e' \<and> serves w [] [req] e e'"
    using ev by (auto simp: env_evaluate_def Let_def split: option.splits if_splits prod.splits
        intro: good [THEN conjunct1] good [THEN conjunct2])
  with ev show thesis by (intro that) auto
qed

lemma jobs_round_serves:
  assumes "env_inv e" and "clock_advances w"
  obtains again e' where "env_jobs_round w eng e = Some (again, e')" "env_inv e'" "serves w [] [] e e'" "awake (je_fetch_mgr e')"
proof -
  obtain executed e1 fired e2 settled e3 where r: "env_run_job w eng e = (executed, e1)"
    "env_timer_pass w eng e1 = Some (fired, e2)" "env_fetch_pass w eng e2 = Some (settled, e3)"
    "env_inv e3" "serves w [] [] e e3" "awake (je_fetch_mgr e3)"
    by (rule jobs_round [OF assms])
  define e4 where "e4 = env_arrivals w e3"
  have a: "env_inv e4" "serves w [] [] e e4" "awake (je_fetch_mgr e4)"
    using arrivals_serve [OF r(4), of w] serves_trans [OF r(5), of "[]" "[]"] r(6) by (auto simp: e4_def)
  show thesis
  proof (cases "executed \<le> 0 \<and> fired = [] \<and> settled = []")
    case True
    with r show thesis by (intro that) (auto simp: env_jobs_round_def)
  next
    case False
    with r a show thesis
      by (intro that [of "rq_head (je_requests e4) = None" e4]) (auto simp: env_jobs_round_def e4_def [symmetric] Let_def)
  qed
qed

text \<open>Every step is defined; a step that takes a request answers it, and no other step answers anything.\<close>

lemma loop_step_serves:
  assumes "env_inv e" and "clock_advances w"
  obtains hs pc' cache' e' where "loop_step w eng (pc, cache, e) = Some (hs, pc', cache', e')" "env_inv e'" "serves w hs hs e e'"
proof (cases pc)
  case Polling
  obtain next_timer n where t: "tm_next_timeout_ms (env_clock w) (je_timer_mgr e, je_clock e) = (next_timer, n)"
    by (rule prod.exhaust)
  let ?e = "env_drain_pipes (e\<lparr>je_clock := n\<rparr>)"
  have "env_inv ?e"
    using assms(1) by (simp add: env_inv_def env_drain_pipes_def tm_inv_def fm_inv_def entry_ok_def)
  moreover have "serves w [] [] e ?e" by (simp add: serves_def env_drain_pipes_def replies_def)
  ultimately show thesis using Polling t by (intro that) simp_all
next
  case Draining
  define e1 where "e1 = env_arrivals w e"
  have a: "env_inv e1" "serves w [] [] e e1" using arrivals_serve [OF assms(1), of w] by (simp_all add: e1_def)
  then have q: "rq_inv (je_requests e1)" by (simp add: env_inv_def)
  show thesis
  proof (cases "rq_contents (je_requests e1)")
    case Nil
    then have "rq_pop (je_requests e1) = (None, je_requests e1)" using q by (simp add: rq.pop_empty)
    then show thesis using a Draining by (intro that) (simp_all add: e1_def Let_def)
  next
    case (Cons req rest)
    with rq.pop_contents [OF q this] obtain q' where p: "rq_pop (je_requests e1) = (Some req, q')" "rq_contents q' = rest"
      by (metis prod.collapse)
    have "rq_inv q'" using rq.pop_inv [OF q] p by simp
    then have "env_inv (e1\<lparr>je_requests := q'\<rparr>)" using a(1) by (simp add: env_inv_def)
    then obtain jobs cache' e' where h: "env_evaluate w eng req cache (e1\<lparr>je_requests := q'\<rparr>) = (jobs, cache', e')" "env_inv e'"
        "serves w [] [req] (e1\<lparr>je_requests := q'\<rparr>) e'" by (rule evaluate_serves)
    have "serves w [req] [] e1 (e1\<lparr>je_requests := q'\<rparr>)" using Cons p(2) by (simp add: serves_def replies_def)
    from serves_trans [OF serves_trans [OF a(2) this] h(3)] have "serves w [req] [req] e e'" by simp
    with h(1,2) p(1) Draining show thesis by (intro that) (simp_all add: e1_def Let_def)
  qed
next
  case (Jobs k b)
  show thesis
  proof (cases k)
    case 0
    with Jobs assms(1) show thesis by (intro that [of "[]" "jobs_return b" cache e]) simp_all
  next
    case (Suc k')
    obtain again e' where "env_jobs_round w eng e = Some (again, e')" "env_inv e'" "serves w [] [] e e'"
      by (rule jobs_round_serves [OF assms])
    with Jobs Suc show thesis by (intro that) simp_all
  qed
qed (use assms(1) in \<open>auto intro: that\<close>)

section \<open>Stopping the thread\<close>

text \<open>
  A thread that is stopped finishes its turn: it answers every request in its queue when it still has the request loop
  before it or is in it, and none otherwise.
\<close>

fun drains :: "loop_pc \<Rightarrow> bool" where
  "drains LoopHead = False"
| "drains Polling = True"
| "drains Draining = True"
| "drains (Jobs k b) = b"
| "drains Stopped = False"

text \<open>A bound on the steps to the end of the loop, by the requests queued.\<close>

fun steps_left :: "loop_pc \<Rightarrow> nat \<Rightarrow> nat" where
  "steps_left Stopped q = 0"
| "steps_left LoopHead q = 1"
| "steps_left (Jobs k b) q = (if b then 104 + 103 * q + k else 2 + k)"
| "steps_left Draining q = 103 + 103 * q"
| "steps_left Polling q = 104 + 103 * q"

lemma serves_no_arrivals:
  assumes "serves w hs as e e'" and "\<forall>k. w_arrivals w k = []"
  shows "rq_contents (je_requests e) = hs @ rq_contents (je_requests e')" and "je_submitted e' = je_submitted e"
  using assms by (auto simp: serves_def)

lemma loop_step_decreases:
  assumes "loop_step w eng (pc, cache, e) = Some (hs, pc', cache', e')" and "env_inv e" and "\<forall>k. w_arrivals w k = []"
    and "serves w hs hs e e'" and "pc = LoopHead \<longrightarrow> \<not> je_running e" and "pc \<noteq> Stopped"
  shows "steps_left pc' (length (rq_contents (je_requests e'))) < steps_left pc (length (rq_contents (je_requests e)))"
    and "if drains pc then drains pc' \<or> rq_contents (je_requests e') = [] else \<not> drains pc' \<and> hs = []"
proof -
  have q: "rq_contents (je_requests e) = hs @ rq_contents (je_requests e')"
    using assms(4,3) by (rule serves_no_arrivals)
  have inv: "rq_inv (je_requests (env_arrivals w e))" using arrivals_serve [OF assms(2), of w] by (simp add: env_inv_def)
  have same: "rq_contents (je_requests (env_arrivals w e)) = rq_contents (je_requests e)"
    using serves_no_arrivals(1) [of w "[]" "[]" e "env_arrivals w e"] arrivals_serve [OF assms(2), of w] assms(3) by simp
  have pop: "rq_pop (je_requests (env_arrivals w e)) = (None, r) \<Longrightarrow> rq_contents (je_requests e) = []" for r
    using rq.pop_contents [OF inv] unfolding same by (cases "rq_contents (je_requests e)") auto
  note facts = assms(1,5,6) q pop same
  show "steps_left pc' (length (rq_contents (je_requests e'))) < steps_left pc (length (rq_contents (je_requests e)))"
    using facts by (cases "(w, eng, pc, cache, e)" rule: loop_step.cases)
      (auto simp: Let_def jobs_return_def split: prod.splits option.splits if_splits)
  show "if drains pc then drains pc' \<or> rq_contents (je_requests e') = [] else \<not> drains pc' \<and> hs = []"
    using facts by (cases "(w, eng, pc, cache, e)" rule: loop_step.cases)
      (auto simp: Let_def jobs_return_def split: prod.splits option.splits if_splits)
qed

lemma join_spec:
  assumes "env_inv e" and "clock_advances w" and "\<forall>k. w_arrivals w k = []" and "\<not> je_running e"
  shows "\<exists>hs cache' e'. loop_join w eng handled (pc, cache, e) = Some (handled @ hs, cache', e') \<and> env_inv e' \<and>
    serves w hs hs e e' \<and> (if drains pc then rq_contents (je_requests e') = [] else hs = [])"
  using assms(1,4)
proof (induction "steps_left pc (length (rq_contents (je_requests e)))" arbitrary: pc cache e handled rule: less_induct)
  case less
  show ?case
  proof (cases "pc = Stopped")
    case True
    with less.prems show ?thesis by (intro exI [of _ "[]"]) (simp add: loop_join.simps)
  next
    case False
    obtain hs1 pc1 cache1 e1 where s: "loop_step w eng (pc, cache, e) = Some (hs1, pc1, cache1, e1)" "env_inv e1"
      "serves w hs1 hs1 e e1" by (rule loop_step_serves [OF less.prems(1) assms(2)])
    note d = loop_step_decreases [OF s(1) less.prems(1) assms(3) s(3) impI [OF less.prems(2)] False]
    have "\<not> je_running e1" using less.prems(2) s(3) by (simp add: serves_def)
    from less.hyps [OF d(1) s(2) this, of "handled @ hs1" cache1] obtain hs2 cache2 e2 where
      r: "loop_join w eng (handled @ hs1) (pc1, cache1, e1) = Some ((handled @ hs1) @ hs2, cache2, e2)" "env_inv e2"
        "serves w hs2 hs2 e1 e2" "if drains pc1 then rq_contents (je_requests e2) = [] else hs2 = []" by blast
    have q2: "rq_contents (je_requests e1) = hs2 @ rq_contents (je_requests e2)"
      using r(3) assms(3) by (rule serves_no_arrivals)
    have "loop_join w eng handled (pc, cache, e) = Some (handled @ hs1 @ hs2, cache2, e2)"
      using False s(1) r(1) by (simp add: loop_join.simps [of w eng handled "(pc, cache, e)"])
    moreover have "serves w (hs1 @ hs2) (hs1 @ hs2) e e2" using s(3) r(3) by (rule serves_trans)
    moreover have "if drains pc then rq_contents (je_requests e2) = [] else hs1 @ hs2 = []"
      using d(2) r(4) q2 by (auto split: if_splits)
    ultimately show ?thesis using r(2) by blast
  qed
qed

text \<open>A running thread never leaves its loop, and without new requests it comes back to its head with an empty queue.\<close>

lemma loop_step_goes_on:
  assumes "loop_step w eng (pc, cache, e) = Some (hs, pc', cache', e')" and "pc \<noteq> Stopped" and "pc = LoopHead \<longrightarrow> je_running e"
  shows "pc' \<noteq> Stopped"
  using assms by (cases "(w, eng, pc, cache, e)" rule: loop_step.cases)
    (auto simp: Let_def jobs_return_def split: prod.splits option.splits if_splits)

lemma reaches_head:
  assumes "env_inv e" and "clock_advances w" and "\<forall>k. w_arrivals w k = []" and "pc \<noteq> Stopped"
  shows "\<exists>n hs cache' e'. loop_steps n w eng (pc, cache, e) = Some (hs, LoopHead, cache', e') \<and> env_inv e' \<and> serves w hs hs e e'"
  using assms(1,4)
proof (induction "steps_left pc (length (rq_contents (je_requests e)))" arbitrary: pc cache e rule: less_induct)
  case less
  show ?case
  proof (cases "pc = LoopHead")
    case True
    with less.prems(1) show ?thesis by (intro exI [of _ 0] exI [of _ "[]"]) simp
  next
    case False
    obtain hs1 pc1 cache1 e1 where s: "loop_step w eng (pc, cache, e) = Some (hs1, pc1, cache1, e1)" "env_inv e1"
      "serves w hs1 hs1 e e1" by (rule loop_step_serves [OF less.prems(1) assms(2)])
    have d: "steps_left pc1 (length (rq_contents (je_requests e1))) < steps_left pc (length (rq_contents (je_requests e)))"
      using False by (intro loop_step_decreases(1) [OF s(1) less.prems(1) assms(3) s(3) _ less.prems(2)]) simp
    have "pc1 \<noteq> Stopped" using False by (intro loop_step_goes_on [OF s(1) less.prems(2)]) simp
    from less.hyps [OF d s(2) this, of cache1] obtain n hs2 cache2 e2 where
      r: "loop_steps n w eng (pc1, cache1, e1) = Some (hs2, LoopHead, cache2, e2)" "env_inv e2" "serves w hs2 hs2 e1 e2" by blast
    from loop_steps_append [OF loop_steps_one [OF s(1)] r(1)] serves_trans [OF s(3) r(3)] r(2) show ?thesis by blast
  qed
qed

lemma reaches_empty:
  assumes "env_inv e" and "clock_advances w" and "\<forall>k. w_arrivals w k = []" and "pc \<noteq> Stopped" and "je_running e"
  shows "\<exists>n hs cache' e'. loop_steps n w eng (pc, cache, e) = Some (hs, LoopHead, cache', e') \<and> rq_contents (je_requests e') = []"
proof -
  from reaches_head [OF assms(1-4), of eng cache] obtain n hs cache1 e1 where
    h: "loop_steps n w eng (pc, cache, e) = Some (hs, LoopHead, cache1, e1)" "env_inv e1" "serves w hs hs e e1" by blast
  have run: "je_running e1" using h(3) assms(5) by (simp add: serves_def)
  have "arrivals_end w" using assms(3) by (simp add: arrivals_end_def)
  from loop_turn [OF h(2) assms(2) this, of eng cache1] assms(3) obtain timeout handled cache' e' where
    t: "env_loop_turn w eng (cache1, e1) = Some (timeout, handled, cache', e')" "rq_contents (je_requests e') = []" by blast
  from turn_steps [OF run t(1)] obtain m where "loop_steps m w eng (LoopHead, cache1, e1) = Some (handled, LoopHead, cache', e')" by blast
  from loop_steps_append [OF h(1) this] t(2) show ?thesis by blast
qed

text \<open>An environment that uses the cache keeps using it.\<close>

lemma eval_cached_Some:
  "fst (snd (eval_cached w eng src fn (Some c) e)) \<noteq> None"
  by (auto simp: eval_cached_def Let_def split: prod.split option.split)

lemma loop_step_cache:
  assumes "loop_step w eng (pc, Some c, e) = Some (hs, pc', cache', e')"
  shows "cache' \<noteq> None"
proof -
  have "fst (snd (env_evaluate w eng req (Some c) e)) \<noteq> None" for req e
    using eval_cached_Some [of w eng _ _ c e]
    by (auto simp: env_evaluate_def Let_def split: option.splits prod.splits) (metis fst_conv snd_conv option.distinct(1))+
  then have ev: "env_evaluate w eng req (Some c) e = (jobs, cache1, e1) \<Longrightarrow> cache1 \<noteq> None" for req e jobs cache1 e1
    by (metis fst_conv snd_conv)
  show ?thesis using assms by (cases "(w, eng, pc, Some c, e)" rule: loop_step.cases)
    (auto simp: Let_def split: prod.splits option.splits dest: ev)
qed

section \<open>The environment as a worker\<close>

text \<open>The ids of the requests that a list of responses answers: of all responses but events.\<close>

definition replied :: "response list \<Rightarrow> string option multiset" where
  "replied rs = mset (map r_id (filter (\<lambda>r. r_type r \<noteq> ''event'') rs))"

definition env_pending :: "('v, 'h) js_env \<Rightarrow> string option multiset" where
  "env_pending e = mset (map rq_request_id (rq_contents (je_requests e)))"

text \<open>The thread ran for a while: it took some requests from the front of its queue and answered them, and sent events.\<close>

definition env_runs :: "('v, 'h) js_env \<Rightarrow> response list \<Rightarrow> ('v, 'h) js_env \<Rightarrow> bool" where
  "env_runs e out e' \<longleftrightarrow> je_out e' = je_out e @ out \<and> je_env_id e' = je_env_id e \<and>
     (\<exists>hs. rq_contents (je_requests e) = hs @ rq_contents (je_requests e') \<and> list_all2 answers hs (replies (je_env_id e) out))"

lemma replied_append [simp]: "replied (a @ b) = replied a + replied b"
  by (simp add: replied_def)

lemma replied_Nil [simp]: "replied [] = {#}"
  by (simp add: replied_def)

lemma replied_events: "list_all (event_of i) out \<Longrightarrow> replied out = {#}"
  by (auto simp: replied_def list_all_iff filter_empty_conv dest: event_of_head)

lemma replied_answers:
  "list_all2 answers hs (replies i out) \<Longrightarrow> replied out = mset (map rq_request_id hs)"
proof (induction out arbitrary: hs)
  case (Cons r out)
  show ?case
  proof (cases "event_of i r")
    case True
    with Cons show ?thesis by (auto simp: replies_def replied_def dest: event_of_head)
  next
    case False
    with Cons.prems obtain h hs' where h: "hs = h # hs'" "answers h r" "list_all2 answers hs' (replies i out)"
      by (auto simp: replies_def list_all2_Cons2)
    with Cons.IH [OF h(3)] answers_head [OF h(2)] show ?thesis by (auto simp: replied_def)
  qed
qed (simp add: replies_def replied_def)

lemma serves_runs:
  assumes "serves w hs hs e e'" and "\<forall>k. w_arrivals w k = []"
  obtains out where "env_runs e out e'"
proof -
  from assms(1) obtain out where "je_out e' = je_out e @ out" "list_all2 answers hs (replies (je_env_id e) out)"
    by (auto simp: serves_def)
  moreover have "je_env_id e' = je_env_id e" using assms(1) by (simp add: serves_def)
  ultimately show thesis using serves_no_arrivals(1) [OF assms] by (intro that) (auto simp: env_runs_def)
qed

interpretation wk: request_worker env_inv env_pending env_submit_request rq_request_id env_runs replied
proof
  fix e :: "('v, 'h) js_env" and r
  assume inv: "env_inv e"
  then show "env_inv (env_submit_request r e)" by (simp add: env_inv_def env_submit_request_def rq.push_inv)
  show "env_pending (env_submit_request r e) = add_mset (rq_request_id r) (env_pending e)"
    using inv by (simp add: env_inv_def env_pending_def env_submit_request_def rq.push_contents)
next
  fix e e' :: "('v, 'h) js_env" and out
  assume "env_runs e out e'"
  then show "replied out + env_pending e' = env_pending e"
    by (auto simp: env_runs_def env_pending_def dest!: replied_answers)
qed simp

end
