(* ===== verification/Env_Manager.thy ===== *)
theory Env_Manager
  imports Event_Thread
begin

text \<open>
  The environment manager of \<^verbatim>\<open>src/env_manager.c\<close>: creating, finding and destroying environments.  The array of
  environments is the list of its first \<^verbatim>\<open>count\<close> elements, which are never null, beside its capacity.  The manager's
  mutex makes each operation one step.  \<open>em_cache_set\<close> says whether \<^verbatim>\<open>env_create\<close> has stored the cache in
  the file's static pointer.
\<close>

section \<open>State and operations\<close>

definition MAX_ENVIRONMENTS :: nat where
  "MAX_ENVIRONMENTS = 64"

record ('v, 'h) env_manager =
  em_environments :: "('v, 'h) js_env list"
  em_capacity :: nat
  em_cache_set :: bool

definition env_manager_init :: "('v, 'h) env_manager" where
  "env_manager_init = \<lparr>em_environments = [], em_capacity = 16, em_cache_set = False\<rparr>"

text \<open>The search loop of \<^verbatim>\<open>env_find\<close> and \<^verbatim>\<open>env_destroy\<close>: the position of the first environment with the id.\<close>

fun env_index :: "('v, 'h) js_env list \<Rightarrow> string \<Rightarrow> nat option" where
  "env_index [] env_id = None"
| "env_index (e # es) env_id = (if je_env_id e = env_id then Some 0 else map_option Suc (env_index es env_id))"

definition env_find :: "('v, 'h) env_manager \<Rightarrow> string \<Rightarrow> ('v, 'h) js_env option" where
  "env_find mgr env_id = map_option ((!) (em_environments mgr)) (env_index (em_environments mgr) env_id)"

text \<open>The limits handed to the engine, in bytes as a \<^verbatim>\<open>size_t\<close>.\<close>

definition size_of_mb :: "int \<Rightarrow> int" where
  "size_of_mb mb = (mb * 1024 * 1024) mod 2 ^ 64"

definition new_env_heap :: "('v, 'h) engine \<Rightarrow> nat \<Rightarrow> int \<Rightarrow> int \<Rightarrow> 'h option" where
  "new_env_heap eng t memory_limit_mb stack_size_mb =
     (if \<not> en_new_runtime eng t then None
      else en_new_context eng
        (if 0 < memory_limit_mb then Some (size_of_mb memory_limit_mb) else None)
        (if 0 < stack_size_mb then size_of_mb stack_size_mb else 8 * 1024 * 1024) t)"

text \<open>The environment with its managers, tracker and native functions, before the initial code runs on the main thread.\<close>

definition new_env :: "nat \<Rightarrow> string \<Rightarrow> int \<Rightarrow> int \<Rightarrow> 'h \<Rightarrow> ('v, 'h) js_env" where
  "new_env t env_id memory_limit_mb stack_size_mb h =
     \<lparr>je_env_id = env_id, je_heap = h, je_thread = MainThread, je_stack_top = MainThread,
      je_timer_mgr = tm_init, je_clock = 0, je_fetch_mgr = fm_init, je_dispatch = dt_init, je_bridge = True,
      je_globals = set_fn ''__cqjs_send'' ''js_env_cqjs_send'' 2
        (snd (polyfill_inject_all True [] :: 'v polyfill_managers option \<times> js_object)),
      je_requests = rq_init, je_pipe = [], je_running = False, je_memory_limit_mb = memory_limit_mb,
      je_stack_size_mb = stack_size_mb, je_tick = t, je_out = [], je_submitted = []\<rparr>"

text \<open>No request can arrive before the environment is in the manager.\<close>

definition run_init_code ::
    "host_world \<Rightarrow> ('v, 'h) engine \<Rightarrow> string option \<Rightarrow> ('v, 'h) js_env \<Rightarrow> ('v, 'h) js_env option" where
  "run_init_code w eng init_code e =
     (case init_code of
        Some (c # cs) \<Rightarrow>
          (case cqjs_eval w eng (c # cs) ''<init>'' False e of (result, e1) \<Rightarrow>
             env_process_jobs (w\<lparr>w_arrivals := (\<lambda>_. [])\<rparr>) eng
               (case result of None \<Rightarrow> drop_exception eng e1 | Some v \<Rightarrow> on_heap (en_free eng v) e1))
      | _ \<Rightarrow> Some e)"

text \<open>What is released when an environment goes: the polyfill managers, the tracker and the queued requests.\<close>

definition env_cleanup :: "host_world \<Rightarrow> ('v, 'h) engine \<Rightarrow> ('v, 'h) js_env \<Rightarrow> ('v, 'h) js_env" where
  "env_cleanup w eng e =
     (polyfill_close (env_timer_env w eng) (env_fetch_env w eng)
        (Some \<lparr>timer_mgr = je_timer_mgr e, fetch_mgr = je_fetch_mgr e\<rparr>) e)
     \<lparr>je_dispatch := dt_free (je_dispatch e), je_requests := rq_free (je_requests e)\<rparr>"

text \<open>
  \<^verbatim>\<open>env_create\<close>: the environment created, or \<open>None\<close> for a null pointer, what its initial code sent, and the manager.
  The outer \<open>None\<close> is initial code whose jobs do not end.  \<open>t\<close> numbers the questions put to the world.
\<close>

definition env_create ::
    "host_world \<Rightarrow> ('v, 'h) engine \<Rightarrow> nat \<Rightarrow> string \<Rightarrow> string option \<Rightarrow> int \<Rightarrow> int \<Rightarrow> ('v, 'h) env_manager \<Rightarrow>
     (('v, 'h) js_env option \<times> response list \<times> ('v, 'h) env_manager) option" where
  "env_create w eng t env_id init_code memory_limit_mb stack_size_mb mgr =
     (if MAX_ENVIRONMENTS \<le> length (em_environments mgr) then Some (None, [], mgr)
      else if env_find mgr env_id \<noteq> None then Some (None, [], mgr)
      else
        let mgr1 = mgr\<lparr>em_cache_set := True\<rparr> in
        if \<not> w_calloc_ok w t then Some (None, [], mgr1)
        else
          case new_env_heap eng t memory_limit_mb stack_size_mb of
            None \<Rightarrow> Some (None, [], mgr1)
          | Some h \<Rightarrow>
              (case run_init_code w eng init_code (new_env (Suc t) env_id memory_limit_mb stack_size_mb h) of
                 None \<Rightarrow> None
               | Some e \<Rightarrow>
                   let e1 = e\<lparr>je_requests := rq_init, je_pipe := [], je_running := True\<rparr> in
                   if \<not> w_thread_ok w (je_tick e1) then
                     Some (None, je_out (env_cleanup w eng e1), mgr1)
                   else
                     let cap = (if em_capacity mgr1 \<le> length (em_environments mgr1)
                                then em_capacity mgr1 * 2 else em_capacity mgr1);
                         e2 = (ask e1)\<lparr>je_thread := LoopThread\<rparr>
                     in Some (Some e2, je_out e2,
                          mgr1\<lparr>em_environments := em_environments mgr1 @ [e2], em_capacity := cap\<rparr>)))"

text \<open>
  Stopping the thread of an environment: \<^verbatim>\<open>running\<close> is cleared, the pipe written and the thread joined, which goes on from
  where it is, \<open>pc\<close>, until it leaves its loop.  The main thread waits, so that no request arrives meanwhile.
\<close>

definition env_stop ::
    "host_world \<Rightarrow> ('v, 'h) engine \<Rightarrow> loop_pc \<Rightarrow> bytecode_cache option \<Rightarrow> ('v, 'h) js_env \<Rightarrow>
     (env_request list \<times> bytecode_cache option \<times> ('v, 'h) js_env) option" where
  "env_stop w eng pc cache e =
     loop_join (w\<lparr>w_arrivals := (\<lambda>_. [])\<rparr>) eng [] (pc, cache, e\<lparr>je_running := False, je_pipe := je_pipe e @ ''q''\<rparr>)"

text \<open>
  \<^verbatim>\<open>env_destroy\<close>: the return code, the environment as its thread left it and as the cleanup leaves it, the cache and the manager.
\<close>

definition env_destroy ::
    "host_world \<Rightarrow> ('v, 'h) engine \<Rightarrow> loop_pc \<Rightarrow> string \<Rightarrow> bytecode_cache option \<Rightarrow> ('v, 'h) env_manager \<Rightarrow>
     (int \<times> (('v, 'h) js_env \<times> ('v, 'h) js_env) option \<times> bytecode_cache option \<times> ('v, 'h) env_manager) option" where
  "env_destroy w eng pc env_id cache mgr =
     (case env_index (em_environments mgr) env_id of
        None \<Rightarrow> Some (- 1, None, cache, mgr)
      | Some found \<Rightarrow>
          (let e = em_environments mgr ! found;
               mgr1 = mgr\<lparr>em_environments := remove_at found (em_environments mgr)\<rparr>
           in case env_stop w eng pc cache e of
                None \<Rightarrow> None
              | Some (handled, cache', e1) \<Rightarrow> Some (0, Some (e1, env_cleanup w eng e1), cache', mgr1)))"

text \<open>
  \<^verbatim>\<open>env_manager_free\<close> stops and frees every environment in turn; \<open>pcs\<close> says of each where its thread is.
\<close>

fun stop_all ::
    "host_world \<Rightarrow> ('v, 'h) engine \<Rightarrow> (string \<Rightarrow> loop_pc) \<Rightarrow> bytecode_cache option \<Rightarrow> ('v, 'h) js_env list \<Rightarrow>
     ((('v, 'h) js_env \<times> ('v, 'h) js_env) list \<times> bytecode_cache option) option" where
  "stop_all w eng pcs cache [] = Some ([], cache)"
| "stop_all w eng pcs cache (e # es) =
     (case env_stop w eng (pcs (je_env_id e)) cache e of
        None \<Rightarrow> None
      | Some (handled, cache', e1) \<Rightarrow>
          map_option (apfst (Cons (e1, env_cleanup w eng e1))) (stop_all w eng pcs cache' es))"

definition env_manager_free ::
    "host_world \<Rightarrow> ('v, 'h) engine \<Rightarrow> (string \<Rightarrow> loop_pc) \<Rightarrow> bytecode_cache option \<Rightarrow> ('v, 'h) env_manager \<Rightarrow>
     ((('v, 'h) js_env \<times> ('v, 'h) js_env) list \<times> bytecode_cache option \<times> ('v, 'h) env_manager) option" where
  "env_manager_free w eng pcs cache mgr =
     map_option (\<lambda>(es, cache'). (es, cache', mgr\<lparr>em_environments := []\<rparr>))
       (stop_all w eng pcs cache (em_environments mgr))"

section \<open>Invariant\<close>

abbreviation env_ids :: "('v, 'h) env_manager \<Rightarrow> string list" where
  "env_ids mgr \<equiv> map je_env_id (em_environments mgr)"

definition mgr_inv :: "('v, 'h) env_manager \<Rightarrow> bool" where
  "mgr_inv mgr \<longleftrightarrow>
     distinct (env_ids mgr) \<and> length (em_environments mgr) \<le> MAX_ENVIRONMENTS \<and>
     length (em_environments mgr) \<le> em_capacity mgr \<and> 0 < em_capacity mgr \<and>
     (\<forall>e \<in> set (em_environments mgr). env_inv e \<and> je_running e \<and> je_thread e = LoopThread)"

lemma mgr_inv_init: "mgr_inv env_manager_init"
  by (simp add: mgr_inv_def env_manager_init_def)

lemma env_index_Some: "env_index es i = Some k \<Longrightarrow> k < length es \<and> je_env_id (es ! k) = i"
  by (induction es arbitrary: k) (auto split: if_splits)

lemma env_index_None [simp]: "env_index es i = None \<longleftrightarrow> i \<notin> je_env_id ` set es"
  by (induction es) auto

lemma env_find_None: "env_find mgr i = None \<longleftrightarrow> i \<notin> set (env_ids mgr)"
  by (simp add: env_find_def)

lemma env_find_Some: "env_find mgr i = Some e \<Longrightarrow> e \<in> set (em_environments mgr) \<and> je_env_id e = i"
  using env_index_Some [of "em_environments mgr" i] by (auto simp: env_find_def)

text \<open>The arrivals of the world play no role before the environment is shared.\<close>

lemma script_ok_arrivals: "script_ok (w\<lparr>w_arrivals := f\<rparr>) e e' \<longleftrightarrow> script_ok w e e'"
  by (simp add: script_ok_def)

lemma new_env_inv: "env_inv (new_env t i m s h)"
  by (simp add: new_env_def env_inv_def tm_inv_init fm_inv_init dt_inv_init rq_inv_init)

lemma run_init_code_spec:
  assumes "clock_advances w" and "env_inv e"
  obtains e' where "run_init_code w eng init_code e = Some e'" "env_inv e'" "serves (w\<lparr>w_arrivals := (\<lambda>_. [])\<rparr>) [] [] e e'"
proof (cases "init_code = None \<or> init_code = Some []")
  case True
  then have "run_init_code w eng init_code e = Some e" by (auto simp: run_init_code_def)
  moreover have "serves (w\<lparr>w_arrivals := (\<lambda>_. [])\<rparr>) [] [] e e" by (rule serves_refl)
  ultimately show thesis using assms(2) by (intro that)
next
  case False
  then obtain c cs where i: "init_code = Some (c # cs)" by (metis list.exhaust option.exhaust)
  let ?w = "w\<lparr>w_arrivals := (\<lambda>_. [])\<rparr>"
  obtain r e1 where ev: "cqjs_eval w eng (c # cs) ''<init>'' False e = (r, e1)" by (rule prod.exhaust)
  define e2 where "e2 = (case r of None \<Rightarrow> drop_exception eng e1 | Some v \<Rightarrow> on_heap (en_free eng v) e1)"
  have "script_ok w e e1" using cqjs_ok(1) [of w e eng "c # cs" "''<init>''" False] by (simp add: ev)
  also have "script_ok w e1 e2" by (simp add: e2_def split: option.split)
  finally have ok: "script_ok w e e2" .
  then have inv: "env_inv e2" using assms(2) by (rule script_ok_inv)
  have "clock_advances ?w" using assms(1) by (simp add: clock_advances_def)
  with inv obtain e' where e': "env_process_jobs ?w eng e2 = Some e'" "env_inv e'" "serves ?w [] [] e2 e'"
    by (rule process_jobs)
  have "serves ?w [] [] e e2" using ok by (intro serves_frame) (simp add: script_ok_def)
  from serves_trans [OF this e'(3)] have "serves ?w [] [] e e'" by simp
  with e' show thesis by (intro that) (simp_all add: run_init_code_def i ev e2_def)
qed

text \<open>The environment that \<^verbatim>\<open>env_create\<close> has ready when it starts the thread.\<close>

lemma ready_env:
  assumes "clock_advances w"
  obtains e where "run_init_code w eng init_code (new_env t i m s h) = Some e" "env_inv e" "je_env_id e = i"
    "list_all (event_of i) (je_out e)" "je_submitted e = []" "je_stack_top e = MainThread"
proof -
  let ?w = "w\<lparr>w_arrivals := (\<lambda>_. [])\<rparr>"
  let ?n = "new_env t i m s h"
  obtain e where e: "run_init_code w eng init_code ?n = Some e" "env_inv e" "serves ?w [] [] ?n e"
    by (rule run_init_code_spec [OF assms new_env_inv])
  have "je_env_id e = i" "je_stack_top e = MainThread" "je_submitted e = []"
    using e(3) by (auto simp: serves_def new_env_def)
  moreover have "list_all (event_of i) (je_out e)"
    using e(3) by (auto simp: serves_def new_env_def replies_def filter_empty_conv list_all_iff)
  ultimately show thesis using e(1,2) by (intro that)
qed

lemma mgr_inv_add:
  assumes "mgr_inv mgr" and "length (em_environments mgr) < MAX_ENVIRONMENTS" and "je_env_id e \<notin> set (env_ids mgr)"
    and "env_inv e" and "je_running e" and "je_thread e = LoopThread"
  shows "mgr_inv (mgr\<lparr>em_environments := em_environments mgr @ [e],
    em_capacity := (if em_capacity mgr \<le> length (em_environments mgr) then em_capacity mgr * 2 else em_capacity mgr),
    em_cache_set := b\<rparr>)"
  using assms by (auto simp: mgr_inv_def)

lemma mgr_inv_remove:
  assumes "mgr_inv mgr" and "k < length (em_environments mgr)"
  shows "mgr_inv (mgr\<lparr>em_environments := remove_at k (em_environments mgr)\<rparr>)"
  using assms set_remove_at [OF assms(2)] distinct_map_remove_at [of je_env_id "em_environments mgr" k]
  by (auto simp: mgr_inv_def length_remove_at)

lemma remove_at_filter:
  assumes "distinct (map f xs)" and "k < length xs"
  shows "remove_at k xs = filter (\<lambda>x. f x \<noteq> f (xs ! k)) xs"
proof -
  obtain a x b where s: "xs = a @ x # b" "remove_at k xs = a @ b" "xs ! k = x"
    using remove_at_split [OF assms(2)] by metis
  from assms(1) have "\<forall>y \<in> set a. f y \<noteq> f x" "\<forall>y \<in> set b. f y \<noteq> f x"
    unfolding s(1) by (force simp: rev_image_eqI)+
  then show ?thesis unfolding s(2,3) by (simp add: s(1))
qed

text \<open>What stopping leaves: the requests handled were answered, and the others are those the thread would not take any more.\<close>

definition winds_up :: "loop_pc \<Rightarrow> env_request list \<Rightarrow> ('v, 'h) js_env \<Rightarrow> response list \<Rightarrow> ('v, 'h) js_env \<Rightarrow> bool" where
  "winds_up pc handled e out e' \<longleftrightarrow>
     env_inv e' \<and> je_env_id e' = je_env_id e \<and> je_running e' = False \<and> je_out e' = je_out e @ out \<and>
     rq_contents (je_requests e) = handled @ rq_contents (je_requests e') \<and>
     list_all2 answers handled (replies (je_env_id e) out) \<and>
     (if drains pc then rq_contents (je_requests e') = [] else handled = [])"

lemma winds_up_runs: "winds_up pc handled e out e' \<Longrightarrow> env_runs e out e'"
  by (auto simp: winds_up_def env_runs_def)

lemma winds_up_out: "winds_up pc handled e out e' \<Longrightarrow> env_runs e (drop (length (je_out e)) (je_out e')) e'"
  using winds_up_runs [of pc handled e out e'] by (simp add: winds_up_def)

lemma stop_spec:
  assumes "env_inv e" and "clock_advances w"
  obtains handled cache' out e' where "env_stop w eng pc cache e = Some (handled, cache', e')" "winds_up pc handled e out e'"
proof -
  let ?w = "w\<lparr>w_arrivals := (\<lambda>_. [])\<rparr>" and ?e = "e\<lparr>je_running := False, je_pipe := je_pipe e @ ''q''\<rparr>"
  have "env_inv ?e" using assms(1) by (simp add: env_inv_def)
  moreover have "clock_advances ?w" using assms(2) by (simp add: clock_advances_def)
  ultimately obtain handled cache' e' where j: "loop_join ?w eng [] (pc, cache, ?e) = Some (handled, cache', e')" "env_inv e'"
      "serves ?w handled handled ?e e'" "if drains pc then rq_contents (je_requests e') = [] else handled = []"
    using join_spec [of ?e ?w eng "[]" pc cache] by auto
  from j(3) obtain out where "je_out e' = je_out e @ out" "list_all2 answers handled (replies (je_env_id e) out)"
      "je_env_id e' = je_env_id e" "je_running e' = False"
    by (auto simp: serves_def)
  with j serves_no_arrivals(1) [OF j(3)] show thesis
    by (intro that [of handled cache' e' out]) (simp_all add: env_stop_def winds_up_def)
qed

lemma free_timers_out:
  fixes x :: "('v, 'h) js_env" and ts :: "'v timer_entry list"
  shows "je_out (fold (\<lambda>t. on_heap (en_free eng (te_callback t))) ts x) = je_out x"
  by (induction ts arbitrary: x) (simp_all add: on_heap_def)

lemma free_fetches_out:
  fixes x :: "('v, 'h) js_env" and fs :: "'v fetch_entry list"
  shows "je_out (fold (\<lambda>f x. on_heap (en_free eng (fe_reject f)) (on_heap (en_free eng (fe_resolve f)) x)) fs x) = je_out x"
  by (induction fs arbitrary: x) (simp_all add: on_heap_def)

lemma cleanup_out: "je_out (env_cleanup w eng e) = je_out e"
  by (simp add: env_cleanup_def polyfill_close_def fm_free_def tm_free_def env_fetch_env_def env_timer_env_def timer_refs_def
      free_timers_out free_fetches_out)

text \<open>What the environment looks like when everything \<^verbatim>\<open>env_create\<close> asks for is granted: \<open>e0\<close> is what the initial code leaves.\<close>

definition created ::
    "host_world \<Rightarrow> ('v, 'h) engine \<Rightarrow> nat \<Rightarrow> string \<Rightarrow> string option \<Rightarrow> int \<Rightarrow> int \<Rightarrow> ('v, 'h) env_manager \<Rightarrow> ('v, 'h) js_env \<Rightarrow> bool" where
  "created w eng t i init m s mgr e0 \<longleftrightarrow>
     length (em_environments mgr) < MAX_ENVIRONMENTS \<and> i \<notin> set (env_ids mgr) \<and> w_calloc_ok w t \<and>
     (\<exists>h. new_env_heap eng t m s = Some h \<and> run_init_code w eng init (new_env (Suc t) i m s h) = Some e0) \<and>
     w_thread_ok w (je_tick e0)"

lemma create_spec:
  assumes "mgr_inv mgr" and "clock_advances w"
  shows "\<exists>r out mgr'. env_create w eng t i init m s mgr = Some (r, out, mgr') \<and> mgr_inv mgr' \<and> list_all (event_of i) out \<and>
    (case r of
       None \<Rightarrow> em_environments mgr' = em_environments mgr
     | Some e \<Rightarrow> em_environments mgr' = em_environments mgr @ [e] \<and> i \<notin> set (env_ids mgr) \<and>
         length (em_environments mgr) < MAX_ENVIRONMENTS \<and> je_env_id e = i \<and> je_out e = out \<and>
         rq_contents (je_requests e) = [] \<and> je_submitted e = [] \<and> je_stack_top e = MainThread \<and>
         w_calloc_ok w t \<and> new_env_heap eng t m s \<noteq> None \<and>
         (\<exists>e0. created w eng t i init m s mgr e0 \<and> je_heap e = je_heap e0 \<and> je_timer_mgr e = je_timer_mgr e0 \<and>
            je_fetch_mgr e = je_fetch_mgr e0 \<and> je_dispatch e = je_dispatch e0 \<and> out = je_out e0)) \<and>
    (r = None \<longrightarrow> (\<forall>e0. \<not> created w eng t i init m s mgr e0))"
proof (cases "MAX_ENVIRONMENTS \<le> length (em_environments mgr) \<or> i \<in> set (env_ids mgr) \<or> \<not> w_calloc_ok w t \<or>
    new_env_heap eng t m s = None")
  case True
  have "mgr_inv (mgr\<lparr>em_cache_set := True\<rparr>)" using assms(1) by (simp add: mgr_inv_def)
  with True assms(1) show ?thesis by (auto simp: env_create_def env_find_None Let_def created_def)
next
  case False
  then obtain h where h: "new_env_heap eng t m s = Some h" by auto
  obtain e where e: "run_init_code w eng init (new_env (Suc t) i m s h) = Some e" "env_inv e" "je_env_id e = i"
    "list_all (event_of i) (je_out e)" "je_submitted e = []" "je_stack_top e = MainThread"
    by (rule ready_env [OF assms(2)])
  let ?e1 = "e\<lparr>je_requests := rq_init, je_pipe := [], je_running := True\<rparr>"
  let ?e2 = "(ask ?e1)\<lparr>je_thread := LoopThread\<rparr>"
  have inv: "env_inv ?e2" using e(2) by (simp add: env_inv_def ask_def rq_inv_init)
  show ?thesis
  proof (cases "w_thread_ok w (je_tick e)")
    case True
    have "env_create w eng t i init m s mgr = Some (Some ?e2, je_out ?e2, mgr\<lparr>em_environments := em_environments mgr @ [?e2],
        em_capacity := (if em_capacity mgr \<le> length (em_environments mgr) then em_capacity mgr * 2 else em_capacity mgr),
        em_cache_set := True\<rparr>)"
      using False h e(1) True by (simp add: env_create_def env_find_None Let_def)
    moreover have "mgr_inv (mgr\<lparr>em_environments := em_environments mgr @ [?e2],
        em_capacity := (if em_capacity mgr \<le> length (em_environments mgr) then em_capacity mgr * 2 else em_capacity mgr),
        em_cache_set := True\<rparr>)"
      using False inv e(3) by (intro mgr_inv_add [OF assms(1)]) (auto simp: ask_def)
    moreover have "created w eng t i init m s mgr e" using False h e(1) True by (simp add: created_def)
    ultimately show ?thesis using False h e by (auto simp: ask_def)
  next
    case no_thread: False
    have "je_out (env_cleanup w eng ?e1) = je_out e" by (rule cleanup_out [THEN trans]) simp
    then have "env_create w eng t i init m s mgr = Some (None, je_out e, mgr\<lparr>em_cache_set := True\<rparr>)"
      using False h e(1) no_thread by (simp add: env_create_def env_find_None Let_def)
    moreover have "mgr_inv (mgr\<lparr>em_cache_set := True\<rparr>)" using assms(1) by (simp add: mgr_inv_def)
    moreover have "\<forall>e0. \<not> created w eng t i init m s mgr e0" using h e(1) no_thread by (simp add: created_def)
    ultimately show ?thesis using e(4) by simp
  qed
qed

lemma destroy_spec:
  assumes "mgr_inv mgr" and "clock_advances w"
  shows "if i \<in> set (env_ids mgr) then
      \<exists>e e' handled out cache' mgr'. env_destroy w eng pc i cache mgr = Some (0, Some (e', env_cleanup w eng e'), cache', mgr') \<and>
        e \<in> set (em_environments mgr) \<and> je_env_id e = i \<and> mgr_inv mgr' \<and>
        em_environments mgr' = filter (\<lambda>x. je_env_id x \<noteq> i) (em_environments mgr) \<and> winds_up pc handled e out e'
    else env_destroy w eng pc i cache mgr = Some (- 1, None, cache, mgr)"
proof (cases "env_index (em_environments mgr) i")
  case None
  with env_index_None [of "em_environments mgr" i] show ?thesis by (simp add: env_destroy_def None del: env_index_None)
next
  case (Some k)
  let ?e = "em_environments mgr ! k"
  from env_index_Some [OF Some] have k: "k < length (em_environments mgr)" "je_env_id ?e = i" by simp_all
  then have mem: "?e \<in> set (em_environments mgr)" "i \<in> set (env_ids mgr)" by (auto intro: rev_image_eqI)
  then have "env_inv ?e" using assms(1) by (simp add: mgr_inv_def)
  then obtain handled cache' out e' where
    s: "env_stop w eng pc cache ?e = Some (handled, cache', e')" "winds_up pc handled ?e out e'"
    by (rule stop_spec [OF _ assms(2)])
  define mgr' where "mgr' = mgr\<lparr>em_environments := remove_at k (em_environments mgr)\<rparr>"
  have "env_destroy w eng pc i cache mgr = Some (0, Some (e', env_cleanup w eng e'), cache', mgr')"
    by (simp add: env_destroy_def Some s(1) Let_def mgr'_def)
  moreover have "mgr_inv mgr'" unfolding mgr'_def using assms(1) k(1) by (rule mgr_inv_remove)
  moreover have "em_environments mgr' = filter (\<lambda>x. je_env_id x \<noteq> i) (em_environments mgr)"
    using remove_at_filter [of je_env_id "em_environments mgr" k] assms(1) k by (simp add: mgr_inv_def mgr'_def)
  ultimately show ?thesis using mem k(2) s(2) by auto
qed

lemma stop_all_spec:
  assumes "\<forall>e \<in> set es. env_inv e" and "clock_advances w"
  shows "\<exists>ps cache'. stop_all w eng pcs cache es = Some (ps, cache') \<and>
    list_all2 (\<lambda>e p. \<exists>handled out. winds_up (pcs (je_env_id e)) handled e out (fst p)) es ps"
  using assms(1)
proof (induction es arbitrary: cache)
  case (Cons e es)
  then have "env_inv e" by simp
  then obtain handled cache1 out e' where s: "env_stop w eng (pcs (je_env_id e)) cache e = Some (handled, cache1, e')"
      "winds_up (pcs (je_env_id e)) handled e out e'" by (rule stop_spec [OF _ assms(2)])
  from Cons.IH [of cache1] Cons.prems obtain ps cache' where
    r: "stop_all w eng pcs cache1 es = Some (ps, cache')"
      "list_all2 (\<lambda>e p. \<exists>handled out. winds_up (pcs (je_env_id e)) handled e out (fst p)) es ps"
    by auto
  with s show ?case by auto
qed simp

section \<open>Properties\<close>

text \<open>
  Property C13.  Creating an environment.  \<^verbatim>\<open>env_create\<close> returns, whatever the initial code does, and it succeeds exactly when
  fewer than 64 environments exist, the id is not taken, memory, the engine's runtime and its context can be had, and, after the
  initial code and its jobs have run, a thread can be started.  When it fails, the environments are as they were.  When it succeeds, it adds one
  environment with the id at the end, running, with an empty request queue, all its components in their invariants, and with the
  heap, timers, fetches and dispatched requests that the initial code left.  The initial code can send
  nothing but events with the id.  Ids stay distinct and their number at most 64.  The
  engine of a new environment still knows of the main thread's stack when the environment's own thread starts.
\<close>

theorem env_create_outcomes:
  assumes "mgr_inv mgr" and "clock_advances w"
  shows "\<exists>r out mgr'. env_create w eng t env_id init_code m s mgr = Some (r, out, mgr') \<and> mgr_inv mgr' \<and>
    list_all (event_of env_id) out \<and>
    (64 \<le> length (em_environments mgr) \<or> env_id \<in> set (env_ids mgr) \<longrightarrow> r = None \<and> out = []) \<and>
    (r \<noteq> None \<longleftrightarrow> length (em_environments mgr) < 64 \<and> env_id \<notin> set (env_ids mgr) \<and> w_calloc_ok w t \<and>
       (\<exists>h e0. new_env_heap eng t m s = Some h \<and>
          run_init_code w eng init_code (new_env (Suc t) env_id m s h) = Some e0 \<and> w_thread_ok w (je_tick e0))) \<and>
    (r = None \<longrightarrow> em_environments mgr' = em_environments mgr) \<and>
    (\<forall>e. r = Some e \<longrightarrow> em_environments mgr' = em_environments mgr @ [e] \<and> je_env_id e = env_id \<and> env_inv e \<and>
       je_running e \<and> rq_contents (je_requests e) = [] \<and> je_thread e = LoopThread \<and> je_stack_top e = MainThread \<and>
       (\<exists>h e0. new_env_heap eng t m s = Some h \<and>
          run_init_code w eng init_code (new_env (Suc t) env_id m s h) = Some e0 \<and>
          je_heap e = je_heap e0 \<and> je_timer_mgr e = je_timer_mgr e0 \<and> je_fetch_mgr e = je_fetch_mgr e0 \<and>
          je_dispatch e = je_dispatch e0 \<and> out = je_out e0))"
proof -
  from create_spec [OF assms, of eng t env_id init_code m s] obtain r out mgr' where
    c: "env_create w eng t env_id init_code m s mgr = Some (r, out, mgr')" "mgr_inv mgr'" "list_all (event_of env_id) out"
      "case r of None \<Rightarrow> em_environments mgr' = em_environments mgr
       | Some e \<Rightarrow> em_environments mgr' = em_environments mgr @ [e] \<and> env_id \<notin> set (env_ids mgr) \<and>
         length (em_environments mgr) < MAX_ENVIRONMENTS \<and> je_env_id e = env_id \<and> je_out e = out \<and>
         rq_contents (je_requests e) = [] \<and> je_submitted e = [] \<and> je_stack_top e = MainThread \<and>
         w_calloc_ok w t \<and> new_env_heap eng t m s \<noteq> None \<and>
         (\<exists>e0. created w eng t env_id init_code m s mgr e0 \<and> je_heap e = je_heap e0 \<and> je_timer_mgr e = je_timer_mgr e0 \<and>
            je_fetch_mgr e = je_fetch_mgr e0 \<and> je_dispatch e = je_dispatch e0 \<and> out = je_out e0)"
      "r = None \<longrightarrow> (\<forall>e0. \<not> created w eng t env_id init_code m s mgr e0)" by blast
  have early: "r = None \<and> out = []" if "64 \<le> length (em_environments mgr) \<or> env_id \<in> set (env_ids mgr)"
  proof -
    have "env_create w eng t env_id init_code m s mgr = Some (None, [], mgr)"
      using that by (auto simp: env_create_def MAX_ENVIRONMENTS_def env_find_None)
    with c(1) show ?thesis by simp
  qed
  have iff: "r \<noteq> None \<longleftrightarrow> (\<exists>e0. created w eng t env_id init_code m s mgr e0)"
    using c(4,5) by (cases r) auto
  then have iff': "r \<noteq> None \<longleftrightarrow> length (em_environments mgr) < 64 \<and> env_id \<notin> set (env_ids mgr) \<and> w_calloc_ok w t \<and>
       (\<exists>h e0. new_env_heap eng t m s = Some h \<and>
          run_init_code w eng init_code (new_env (Suc t) env_id m s h) = Some e0 \<and> w_thread_ok w (je_tick e0))"
    unfolding created_def MAX_ENVIRONMENTS_def by blast
  have some: "em_environments mgr' = em_environments mgr @ [e] \<and> je_env_id e = env_id \<and> env_inv e \<and>
       je_running e \<and> rq_contents (je_requests e) = [] \<and> je_thread e = LoopThread \<and> je_stack_top e = MainThread \<and>
       (\<exists>h e0. new_env_heap eng t m s = Some h \<and>
          run_init_code w eng init_code (new_env (Suc t) env_id m s h) = Some e0 \<and>
          je_heap e = je_heap e0 \<and> je_timer_mgr e = je_timer_mgr e0 \<and> je_fetch_mgr e = je_fetch_mgr e0 \<and>
          je_dispatch e = je_dispatch e0 \<and> out = je_out e0)" if e: "r = Some e" for e
  proof -
    have "env_inv e \<and> je_running e \<and> je_thread e = LoopThread" using c(2,4) e by (simp add: mgr_inv_def)
    with c(4) show ?thesis unfolding e option.case created_def by blast
  qed
  have none: "em_environments mgr' = em_environments mgr" if "r = None" using c(4) that by simp
  show ?thesis
    by (intro exI [of _ r] exI [of _ out] exI [of _ mgr'] conjI c(1-3) iff' allI impI early none some; (assumption | simp only:))
qed

text \<open>
  Property C14.  Destroying an environment.  \<^verbatim>\<open>env_destroy\<close> returns, wherever the environment's thread is in its loop and whatever its
  scripts do; an unknown id gives -1 and changes nothing, a known one gives 0 and removes exactly the environment with the
  id, keeping the order of the others.  The thread finishes its turn: when the request loop is still before it or it is in it, it
  answers every request in the queue, in order, and otherwise none, and then the requests queued are freed
  without a response.  The cleanup leaves no request and no tracker entry allocated.
\<close>

theorem env_destroy_outcomes:
  assumes "mgr_inv mgr" and "clock_advances w"
  shows "if env_id \<in> set (env_ids mgr) then
      \<exists>e e' handled out cache' mgr'. env_destroy w eng pc env_id cache mgr = Some (0, Some (e', env_cleanup w eng e'), cache', mgr') \<and>
        rq_nodes (je_requests (env_cleanup w eng e')) = Map.empty \<and> dt_entries (je_dispatch (env_cleanup w eng e')) = [] \<and>
        mgr_inv mgr' \<and> em_environments mgr' = filter (\<lambda>x. je_env_id x \<noteq> env_id) (em_environments mgr) \<and>
        e \<in> set (em_environments mgr) \<and> je_env_id e = env_id \<and> je_running e' = False \<and>
        rq_contents (je_requests e) = handled @ rq_contents (je_requests e') \<and>
        (if drains pc then rq_contents (je_requests e') = [] else handled = []) \<and>
        je_out e' = je_out e @ out \<and> list_all2 answers handled (filter (\<lambda>r. \<not> event_of env_id r) out)
    else env_destroy w eng pc env_id cache mgr = Some (- 1, None, cache, mgr)"
proof (cases "env_id \<in> set (env_ids mgr)")
  case True
  from destroy_spec [OF assms, of env_id eng pc cache, unfolded if_P [OF True]] obtain e e' handled out cache' mgr' where
    d: "env_destroy w eng pc env_id cache mgr = Some (0, Some (e', env_cleanup w eng e'), cache', mgr')"
      "e \<in> set (em_environments mgr)" "je_env_id e = env_id" "mgr_inv mgr'"
      "em_environments mgr' = filter (\<lambda>x. je_env_id x \<noteq> env_id) (em_environments mgr)" "winds_up pc handled e out e'"
    by blast
  have "rq_nodes (je_requests (env_cleanup w eng e')) = Map.empty" "dt_entries (je_dispatch (env_cleanup w eng e')) = []"
    using d(6) rq_free_all [of "je_requests e'"] by (simp_all add: winds_up_def env_inv_def env_cleanup_def dt_free_def)
  moreover have "list_all2 answers handled (filter (\<lambda>r. \<not> event_of env_id r) out)"
    using d(3,6) by (simp add: winds_up_def replies_def)
  ultimately show ?thesis using True d unfolding winds_up_def by (simp only: if_True) blast
next
  case False
  with destroy_spec [OF assms, of env_id eng pc cache] show ?thesis by simp
qed

section \<open>Witnesses\<close>

text \<open>Initial code that sends an event, after which the thread can be started.\<close>

lemma ex_init_eval:
  assumes "je_tick e = 1" and "je_bridge e" and "je_env_id e = ''a''"
  shows "cqjs_eval ex_world ex_engine ''init'' fn False e =
    (Some ''init'', (send (event_response ''a'' ''ran'' ''init'') (ask e))\<lparr>je_heap := ()\<rparr>)"
proof -
  have c: "c_str ''init'' = ''init''" "c_str ''ran'' = ''ran''" by code_simp+
  have "js_cstring (en_api ex_engine h) x = Some (c_str x)" for h x
    by (simp add: js_cstring_def ex_engine_def ex_env_api_def)
  moreover have "en_eval ex_engine ''init'' fn False () = ex_script ''init'' ()" by (simp add: ex_engine_def)
  ultimately show ?thesis using assms c
    by (simp add: cqjs_eval_def on_big_stack_def ex_world_def ex_script_def js_env_cqjs_send_def ask_def send_def)
qed

lemma idle_jobs:
  assumes "en_job eng (je_heap e) = None" and "tm_head (je_timer_mgr e) = []" and "fm_head (je_fetch_mgr e) = []"
  shows "\<exists>e'. env_process_jobs w eng e = Some e' \<and> je_tick e' = je_tick e \<and> je_out e' = je_out e"
proof -
  obtain e2 where t: "env_timer_pass w eng e = Some ([], e2)" "je_tick e2 = je_tick e" "je_out e2 = je_out e" "je_fetch_mgr e2 = je_fetch_mgr e"
    using assms(2) by (simp add: env_timer_pass_def tm_process_pending_def with_timers_def tm_scan.simps)
  obtain e3 where f: "env_fetch_pass w eng e2 = Some ([], e3)" "je_tick e3 = je_tick e2" "je_out e3 = je_out e2"
    using assms(3) t(4) by (simp add: env_fetch_pass_def fm_process_pending_def Let_def)
  have "env_process_jobs w eng e = env_jobs_loop (Suc 99) w eng e" by (simp add: env_process_jobs_def)
  also have "\<dots> = Some e3"
    unfolding env_jobs_loop.simps using assms(1) t(1) f(1) by (simp add: env_run_job_def)
  finally show ?thesis using t f by simp
qed

lemma ex_init_code:
  "\<exists>e0. run_init_code ex_world ex_engine (Some ''init'') (new_env (Suc 0) ''a'' 0 0 ()) = Some e0 \<and> je_tick e0 = 2 \<and>
     je_out e0 = [event_response ''a'' ''ran'' ''init'']"
proof -
  let ?n = "new_env (Suc 0) ''a'' 0 0 () :: (string, unit) js_env"
  define e1 where "e1 = (send (event_response ''a'' ''ran'' ''init'') (ask ?n))\<lparr>je_heap := ()\<rparr>"
  have ev: "cqjs_eval ex_world ex_engine ''init'' ''<init>'' False ?n = (Some ''init'', e1)"
    unfolding e1_def by (rule ex_init_eval) (simp_all add: new_env_def)
  let ?e2 = "on_heap (en_free ex_engine ''init'') e1"
  have e2: "en_job ex_engine (je_heap ?e2) = None" "tm_head (je_timer_mgr ?e2) = []" "fm_head (je_fetch_mgr ?e2) = []"
    "je_tick ?e2 = 2" "je_out ?e2 = [event_response ''a'' ''ran'' ''init'']"
    by (simp_all add: e1_def on_heap_def send_def ask_def new_env_def ex_engine_def tm_init_def fm_init_def)
  from idle_jobs [OF e2(1-3), of "ex_world\<lparr>w_arrivals := \<lambda>_. []\<rparr>"] ev e2(4,5) show ?thesis
    by (auto simp: run_init_code_def)
qed

theorem env_create_outcomes_witness:
  "\<exists>e out mgr'. env_create ex_world ex_engine 0 ''a'' (Some ''init'') 0 0 env_manager_init = Some (Some e, out, mgr') \<and>
     mgr_inv mgr' \<and> em_environments mgr' = [e] \<and> je_env_id e = ''a'' \<and> je_running e \<and> out = [event_response ''a'' ''ran'' ''init'']"
proof -
  have g: "new_env_heap ex_engine 0 0 0 = Some ()" "w_calloc_ok ex_world 0" "em_environments env_manager_init = []"
    by (simp_all add: new_env_heap_def ex_engine_def ex_world_def env_manager_init_def)
  obtain e0 where e0: "run_init_code ex_world ex_engine (Some ''init'') (new_env (Suc 0) ''a'' 0 0 ()) = Some e0"
    "je_out e0 = [event_response ''a'' ''ran'' ''init'']" "w_thread_ok ex_world (je_tick e0)"
    using ex_init_code by (auto simp: ex_world_def)
  with env_create_outcomes [OF mgr_inv_init ex_env_facts(2), of ex_engine 0 "''a''" "Some ''init''" 0 0] g show ?thesis by auto
qed

definition ex_mgr :: "(string, unit) env_manager" where
  "ex_mgr = env_manager_init\<lparr>em_environments := [ex_js_env]\<rparr>"

lemma ex_mgr_inv: "mgr_inv ex_mgr" "''a'' \<in> set (env_ids ex_mgr)"
  using ex_env_facts(1)
  by (simp_all add: ex_mgr_def mgr_inv_def env_manager_init_def MAX_ENVIRONMENTS_def ex_js_env_def env_submit_request_def)

text \<open>A thread at the head of its loop leaves its queue unanswered, one that waits in \<^verbatim>\<open>poll\<close> empties it.\<close>

theorem env_destroy_outcomes_witness:
  "(\<exists>e' cache' mgr'. env_destroy ex_world ex_engine LoopHead ''a'' None ex_mgr =
      Some (0, Some (e', env_cleanup ex_world ex_engine e'), cache', mgr') \<and>
      em_environments mgr' = [] \<and> rq_contents (je_requests e') = [ex_request]) \<and>
   (\<exists>e' cache' mgr'. env_destroy ex_world ex_engine Polling ''a'' None ex_mgr =
      Some (0, Some (e', env_cleanup ex_world ex_engine e'), cache', mgr') \<and>
      em_environments mgr' = [] \<and> rq_contents (je_requests e') = [])"
proof -
  have f: "filter (\<lambda>x. je_env_id x \<noteq> ''a'') (em_environments ex_mgr) = []" "em_environments ex_mgr = [ex_js_env]"
    by (simp_all add: ex_mgr_def ex_js_env_def env_submit_request_def)
  note d = env_destroy_outcomes [OF ex_mgr_inv(1) ex_env_facts(2), of "''a''" ex_engine _ None, unfolded if_P [OF ex_mgr_inv(2)], unfolded f]
  from d [of LoopHead] d [of Polling] ex_env_facts(4) show ?thesis by auto
qed

end
