(* ===== verification/Stdin_Reader.thy ===== *)
theory Stdin_Reader
  imports Fifo Json_Response
begin

text \<open>
  The standard-input reader of \<^verbatim>\<open>src/main.c\<close>: the queue of lines shared with the main thread
  (\<open>stdin_reader\<close>, with its push and pop) and the reader thread, one iteration of whose loop is
  \<open>stdin_thread_step\<close>.  An interleaving of the two threads is a list of \<open>stdin_event\<close>s; the
  mutex makes push and pop atomic.  The input is the whole stream that standard input delivers
  up to its end.  The array is the list of its live elements (\<^verbatim>\<open>count\<close> is its length) beside
  its capacity; the unchecked allocations are taken to succeed.
\<close>

section \<open>The queue of lines\<close>

record stdin_reader =
  sr_lines :: "string list"
  sr_capacity :: nat
  sr_pipe :: string
  sr_eof :: bool

definition stdin_reader_init :: stdin_reader where
  "stdin_reader_init = \<lparr>sr_lines = [], sr_capacity = 16, sr_pipe = [], sr_eof = False\<rparr>"

definition stdin_reader_push :: "string \<Rightarrow> stdin_reader \<Rightarrow> stdin_reader" where
  "stdin_reader_push line sr =
     (let cap = (if sr_capacity sr \<le> length (sr_lines sr) then sr_capacity sr * 2 else sr_capacity sr)
      in sr\<lparr>sr_capacity := cap, sr_lines := sr_lines sr @ [line], sr_pipe := sr_pipe sr @ ''s''\<rparr>)"

definition stdin_reader_pop :: "stdin_reader \<Rightarrow> string option \<times> stdin_reader" where
  "stdin_reader_pop sr =
     (if sr_lines sr \<noteq> [] then (Some (sr_lines sr ! 0), sr\<lparr>sr_lines := remove_at 0 (sr_lines sr)\<rparr>)
      else (None, sr))"

section \<open>The reader thread\<close>

abbreviation LF :: char where
  "LF \<equiv> CHR 0x0A"

abbreviation CR :: char where
  "CR \<equiv> CHR 0x0D"

text \<open>
  \<^verbatim>\<open>fgets(chunk, n, stdin)\<close>: at most \<open>n - 1\<close> bytes, up to and including the first newline;
  \<open>None\<close> at the end of the input.
\<close>

definition fgets :: "nat \<Rightarrow> string \<Rightarrow> (string \<times> string) option" where
  "fgets n s =
     (if s = [] then None
      else let line = takeWhile (\<lambda>c. c \<noteq> LF) s;
               chunk = take (n - 1) (if LF \<in> set s then line @ [LF] else line)
           in Some (chunk, drop (length chunk) s))"

text \<open>The thread's local variables: the unread input, the line buffer, its capacity.\<close>

record line_reader =
  rd_input :: string
  rd_buf :: string
  rd_cap :: nat
  rd_exited :: bool

definition is_eol :: "char \<Rightarrow> bool" where
  "is_eol c \<longleftrightarrow> c = LF \<or> c = CR"

text \<open>The loop that strips the trailing newline characters.\<close>

definition strip_eol :: "string \<Rightarrow> string" where
  "strip_eol s = rev (dropWhile is_eol (rev s))"

text \<open>
  What the loop body does with a chunk: \<^verbatim>\<open>strlen\<close> cuts it at a NUL, the buffer grows by
  doubling, an incomplete line stays in the buffer, and a complete one leaves it.
\<close>

definition reader_chunk :: "string \<Rightarrow> line_reader \<Rightarrow> (string option \<times> line_reader) option" where
  "reader_chunk chunk rd =
     (case grow_cap (length (rd_buf rd) + length (c_str chunk) + 1) (rd_cap rd) of
        None \<Rightarrow> None
      | Some cap \<Rightarrow>
          (let buf = rd_buf rd @ c_str chunk; line = strip_eol buf in
           if buf = [] \<or> \<not> is_eol (last buf) then Some (None, rd\<lparr>rd_buf := buf, rd_cap := cap\<rparr>)
           else if line = [] then Some (None, rd\<lparr>rd_buf := [], rd_cap := cap\<rparr>)
           else Some (Some line, rd\<lparr>rd_buf := [], rd_cap := cap\<rparr>)))"

definition stdin_thread_step ::
    "line_reader \<times> stdin_reader \<Rightarrow> (line_reader \<times> stdin_reader) option" where
  "stdin_thread_step = (\<lambda>(rd, sr).
     if rd_exited rd then Some (rd, sr)
     else case fgets 65536 (rd_input rd) of
        None \<Rightarrow> Some (rd\<lparr>rd_exited := True\<rparr>, sr\<lparr>sr_eof := True, sr_pipe := sr_pipe sr @ ''e''\<rparr>)
      | Some (chunk, rest) \<Rightarrow>
          (case reader_chunk chunk (rd\<lparr>rd_input := rest\<rparr>) of
             None \<Rightarrow> None
           | Some (None, rd') \<Rightarrow> Some (rd', sr)
           | Some (Some line, rd') \<Rightarrow> Some (rd', stdin_reader_push line sr)))"

definition reader_start :: "string \<Rightarrow> line_reader" where
  "reader_start s = \<lparr>rd_input = s, rd_buf = [], rd_cap = 65536, rd_exited = False\<rparr>"

text \<open>An interleaving of the reader's iterations with the main thread's pops.\<close>

datatype stdin_event = ThreadStep | MainPop

fun stdin_run ::
    "stdin_event list \<Rightarrow> line_reader \<times> stdin_reader \<Rightarrow>
     (string list \<times> line_reader \<times> stdin_reader) option" where
  "stdin_run [] st = Some ([], st)"
| "stdin_run (ThreadStep # es) st =
     (case stdin_thread_step st of None \<Rightarrow> None | Some st' \<Rightarrow> stdin_run es st')"
| "stdin_run (MainPop # es) (rd, sr) =
     (case stdin_reader_pop sr of
        (None, sr') \<Rightarrow> stdin_run es (rd, sr')
      | (Some l, sr') \<Rightarrow> map_option (\<lambda>(ls, st). (l # ls, st)) (stdin_run es (rd, sr')))"

section \<open>Specification\<close>

text \<open>What \<^verbatim>\<open>fgets\<close> returns is a non-empty piece of the input, which holds a newline at its end only.\<close>

lemma fgets_Some:
  assumes "s \<noteq> []" and "1 < n"
  obtains chunk rest where "fgets n s = Some (chunk, rest)" "s = chunk @ rest" "chunk \<noteq> []"
    "LF \<notin> set chunk \<or> (\<exists>l. chunk = l @ [LF] \<and> LF \<notin> set l)"
proof -
  define line where "line = takeWhile (\<lambda>c. c \<noteq> LF) s"
  define full where "full = (if LF \<in> set s then line @ [LF] else line)"
  define chunk where "chunk = take (n - 1) full"
  have line: "LF \<notin> set line" by (auto simp: line_def dest: set_takeWhileD)
  have "\<exists>r. s = full @ r"
  proof (cases "LF \<in> set s")
    case True
    then have "dropWhile (\<lambda>c. c \<noteq> LF) s \<noteq> []" by (simp add: dropWhile_eq_Nil_conv)
    then obtain r where "dropWhile (\<lambda>c. c \<noteq> LF) s = LF # r"
      using hd_dropWhile [of "\<lambda>c. c \<noteq> LF" s] by (cases "dropWhile (\<lambda>c. c \<noteq> LF) s") auto
    then have "s = full @ r" using takeWhile_dropWhile_id [of "\<lambda>c. c \<noteq> LF" s] True
      by (simp add: full_def line_def)
    then show ?thesis by blast
  next
    case False
    then have "line = s" unfolding line_def by (intro takeWhile_eq_all_conv [THEN iffD2]) auto
    with False have "s = full @ []" by (simp add: full_def)
    then show ?thesis by blast
  qed
  then obtain r where r: "s = full @ r" by blast
  have ne: "full \<noteq> []" using assms(1) by (cases s) (auto simp: full_def line_def)
  show ?thesis
  proof
    show "fgets n s = Some (chunk, drop (length chunk) s)"
      using assms(1) by (simp add: fgets_def chunk_def full_def line_def Let_def)
    have "s = chunk @ drop (n - 1) full @ r" using r by (simp add: chunk_def)
    then show "s = chunk @ drop (length chunk) s" by (metis append_eq_conv_conj)
    show "chunk \<noteq> []" using ne assms(2) by (simp add: chunk_def)
    show "LF \<notin> set chunk \<or> (\<exists>l. chunk = l @ [LF] \<and> LF \<notin> set l)"
    proof (cases "n - 1 \<le> length line")
      case True
      then have "chunk = take (n - 1) line" by (simp add: chunk_def full_def)
      with line have "LF \<notin> set chunk" using in_set_takeD by fastforce
      then show ?thesis ..
    next
      case False
      then have "chunk = full" by (simp add: chunk_def full_def)
      with line show ?thesis by (simp add: full_def)
    qed
  qed
qed

text \<open>
  The lines that the reader cuts an arbitrary stream into, NUL bytes and stray carriage returns included: \<open>buf\<close> is what it
  has put together so far.
\<close>

function reader_lines :: "string \<Rightarrow> string \<Rightarrow> string list" where
  "reader_lines buf s =
     (case fgets 65536 s of
        None \<Rightarrow> []
      | Some (chunk, rest) \<Rightarrow>
          (let b = buf @ c_str chunk in
           if b = [] \<or> \<not> is_eol (last b) then reader_lines b rest
           else (if strip_eol b = [] then [] else [strip_eol b]) @ reader_lines [] rest))"
  by pat_completeness auto

lemma fgets_shorter: "fgets 65536 s = Some (chunk, rest) \<Longrightarrow> length rest < length s"
  by (cases "s = []", simp add: fgets_def, rule fgets_Some [of s 65536]) auto

termination reader_lines
  by (relation "measure (\<lambda>(buf, s). length s)") (auto dest: fgets_shorter)

declare reader_lines.simps [simp del]

lemma reader_lines_end [simp]: "reader_lines buf [] = []"
  by (subst reader_lines.simps) (simp add: fgets_def)

text \<open>
  The lines of a stream in the plain sense: every newline-terminated line without the carriage returns at its end,
  unless nothing is left of it.
\<close>

definition strip_cr :: "string \<Rightarrow> string" where
  "strip_cr l = rev (dropWhile (\<lambda>c. c = CR) (rev l))"

definition input_lines :: "string \<Rightarrow> string \<Rightarrow> string list" where
  "input_lines acc s = filter (\<lambda>l. l \<noteq> []) (map strip_cr (fst (split_lines acc s)))"

text \<open>Carriage returns occur at the end of lines only.\<close>

fun cr_at_eol :: "string \<Rightarrow> bool" where
  "cr_at_eol [] = True"
| "cr_at_eol (c # s) \<longleftrightarrow> (c = CR \<longrightarrow> s \<noteq> [] \<and> hd s \<in> {CR, LF}) \<and> cr_at_eol s"

definition sr_inv :: "stdin_reader \<Rightarrow> bool" where
  "sr_inv sr \<longleftrightarrow> length (sr_lines sr) \<le> sr_capacity sr \<and> 0 < sr_capacity sr"

interpretation sq: fifo_queue sr_inv sr_lines stdin_reader_push stdin_reader_pop
  by unfold_locales (auto simp: sr_inv_def stdin_reader_push_def stdin_reader_pop_def Let_def length_remove_at)

section \<open>Lemmas\<close>

lemma split_lines_run: "LF \<notin> set xs \<Longrightarrow> split_lines acc (xs @ s) = split_lines (acc @ xs) s"
  by (induction xs arbitrary: acc) auto

lemma input_lines_run: "LF \<notin> set xs \<Longrightarrow> input_lines acc (xs @ s) = input_lines (acc @ xs) s"
  by (simp add: input_lines_def split_lines_run)

lemma input_lines_Nil [simp]: "input_lines acc [] = []"
  by (simp add: input_lines_def)

lemma input_lines_LF:
  "input_lines acc (LF # s) = (if strip_cr acc = [] then [] else [strip_cr acc]) @ input_lines [] s"
  by (simp add: input_lines_def split: prod.splits)

lemma strip_cr_CRs: "strip_cr (s @ replicate k CR) = strip_cr s"
  by (induction k) (simp_all add: strip_cr_def replicate_app_Cons_same)

lemma strip_eol_cr: "LF \<notin> set l \<Longrightarrow> strip_eol l = strip_cr l"
  unfolding strip_eol_def strip_cr_def
  by (intro arg_cong [where f = rev] dropWhile_cong) (auto simp: is_eol_def)

lemma strip_eol_snoc: "is_eol c \<Longrightarrow> strip_eol (s @ [c]) = strip_eol s"
  by (simp add: strip_eol_def)

lemma cr_at_eol_append: "cr_at_eol (xs @ s) \<Longrightarrow> cr_at_eol s"
  by (induction xs) auto

lemma cr_run: "cr_at_eol (CR # s) \<Longrightarrow> \<exists>k s'. s = replicate k CR @ LF # s'"
proof (induction s)
  case Nil
  then show ?case by simp
next
  case (Cons c s)
  show ?case
  proof (cases "c = LF")
    case True
    then have "c # s = replicate 0 CR @ LF # s" by simp
    then show ?thesis by blast
  next
    case False
    with Cons.prems have "c = CR" by simp
    with Cons obtain k s' where "s = replicate k CR @ LF # s'" by auto
    with \<open>c = CR\<close> have "c # s = replicate (Suc k) CR @ LF # s'" by simp
    then show ?thesis by blast
  qed
qed

lemma input_lines_CR:
  assumes "cr_at_eol (CR # s)"
  shows "input_lines (acc @ [CR]) s = (if strip_cr acc = [] then [] else [strip_cr acc]) @ input_lines [] s"
proof -
  from cr_run [OF assms] obtain k s' where s: "s = replicate k CR @ LF # s'" by blast
  have *: "LF \<notin> set (replicate k CR)" by simp
  have "strip_cr (acc @ CR # replicate k CR) = strip_cr acc"
    using strip_cr_CRs [of acc "Suc k"] by simp
  then show ?thesis
    using strip_cr_CRs [of "[]" k] by (simp add: s input_lines_run [OF *] input_lines_LF strip_cr_def)
qed

text \<open>What the reader's loop keeps.\<close>

abbreviation unread :: "line_reader \<Rightarrow> string list" where
  "unread rd \<equiv> reader_lines (rd_buf rd) (rd_input rd)"

lemma reader_chunk_spec:
  assumes "0 < rd_cap rd"
  obtains cap where "0 < cap" "reader_chunk chunk rd =
    (let b = rd_buf rd @ c_str chunk in
     Some (if b = [] \<or> \<not> is_eol (last b) \<or> strip_eol b = [] then None else Some (strip_eol b),
       rd\<lparr>rd_buf := (if b = [] \<or> \<not> is_eol (last b) then b else []), rd_cap := cap\<rparr>))"
proof -
  obtain cap where "grow_cap (length (rd_buf rd) + length (c_str chunk) + 1) (rd_cap rd) = Some cap" "0 < cap"
    using grow_cap_Some [OF assms, of "length (rd_buf rd) + length (c_str chunk) + 1"] assms by auto
  then show thesis by (intro that [of cap]) (auto simp: reader_chunk_def Let_def)
qed

lemma thread_step_spec:
  assumes "0 < rd_cap rd" and "sr_inv sr"
  shows "\<exists>rd' sr'. stdin_thread_step (rd, sr) = Some (rd', sr') \<and> 0 < rd_cap rd' \<and> sr_inv sr' \<and>
    sr_lines sr' @ unread rd' = sr_lines sr @ unread rd \<and>
    (rd_exited rd' \<longrightarrow> sr_eof sr' \<and> rd_input rd' = [] \<or> rd_exited rd) \<and>
    (rd_exited rd \<longrightarrow> rd' = rd \<and> sr' = sr) \<and>
    (\<not> rd_exited rd \<longrightarrow> rd_exited rd' \<or> length (rd_input rd') < length (rd_input rd)) \<and>
    (sr_eof sr' \<longrightarrow> rd_exited rd' \<or> sr_eof sr)"
proof (cases "rd_exited rd \<or> rd_input rd = []")
  case True
  with assms show ?thesis by (auto simp: stdin_thread_step_def fgets_def sr_inv_def)
next
  case False
  then have "rd_input rd \<noteq> []" by simp
  then obtain chunk rest where f: "fgets 65536 (rd_input rd) = Some (chunk, rest)" by (rule fgets_Some [where n = 65536]) simp_all
  have len: "length rest < length (rd_input rd)" using f by (rule fgets_shorter)
  let ?b = "rd_buf rd @ c_str chunk"
  obtain cap where c: "0 < cap" "reader_chunk chunk (rd\<lparr>rd_input := rest\<rparr>) =
    (let b = ?b in
     Some (if b = [] \<or> \<not> is_eol (last b) \<or> strip_eol b = [] then None else Some (strip_eol b),
       rd\<lparr>rd_input := rest, rd_buf := (if b = [] \<or> \<not> is_eol (last b) then b else []), rd_cap := cap\<rparr>))"
    using reader_chunk_spec [of "rd\<lparr>rd_input := rest\<rparr>" chunk] assms(1) by auto
  have un: "unread rd = (if ?b = [] \<or> \<not> is_eol (last ?b) then reader_lines ?b rest
      else (if strip_eol ?b = [] then [] else [strip_eol ?b]) @ reader_lines [] rest)"
    by (subst reader_lines.simps) (simp add: f Let_def)
  have eof: "sr_eof (stdin_reader_push l sr) = sr_eof sr" for l by (simp add: stdin_reader_push_def Let_def)
  consider "?b = [] \<or> \<not> is_eol (last ?b)" | "?b \<noteq> []" "is_eol (last ?b)" "strip_eol ?b = []"
    | "?b \<noteq> []" "is_eol (last ?b)" "strip_eol ?b \<noteq> []" by blast
  then show ?thesis
    by cases (use False f c len un assms(2) eof in \<open>auto simp: stdin_thread_step_def Let_def sq.push_inv sq.push_contents\<close>)
qed

definition stdin_inv :: "line_reader \<times> stdin_reader \<Rightarrow> bool" where
  "stdin_inv = (\<lambda>(rd, sr). 0 < rd_cap rd \<and> sr_inv sr \<and> (rd_exited rd \<longleftrightarrow> sr_eof sr) \<and>
     (rd_exited rd \<longrightarrow> rd_input rd = []))"

lemma stdin_inv_start: "stdin_inv (reader_start s, stdin_reader_init)"
  by (simp add: stdin_inv_def sr_inv_def reader_start_def stdin_reader_init_def)

lemma thread_step_inv:
  assumes "stdin_inv (rd, sr)"
  obtains rd' sr' where "stdin_thread_step (rd, sr) = Some (rd', sr')" "stdin_inv (rd', sr')"
    "sr_lines sr' @ unread rd' = sr_lines sr @ unread rd"
    "rd_exited rd' \<or> length (rd_input rd') < length (rd_input rd)" "rd_exited rd \<longrightarrow> rd_exited rd'"
proof -
  from assms have "0 < rd_cap rd" "sr_inv sr" by (simp_all add: stdin_inv_def)
  from thread_step_spec [OF this] obtain rd' sr' where
    *: "stdin_thread_step (rd, sr) = Some (rd', sr')" "0 < rd_cap rd'" "sr_inv sr'"
      "sr_lines sr' @ unread rd' = sr_lines sr @ unread rd"
      "rd_exited rd' \<longrightarrow> sr_eof sr' \<and> rd_input rd' = [] \<or> rd_exited rd"
      "rd_exited rd \<longrightarrow> rd' = rd \<and> sr' = sr"
      "\<not> rd_exited rd \<longrightarrow> rd_exited rd' \<or> length (rd_input rd') < length (rd_input rd)"
      "sr_eof sr' \<longrightarrow> rd_exited rd' \<or> sr_eof sr" by blast
  from assms * have "stdin_inv (rd', sr')" by (auto simp: stdin_inv_def)
  with * that show thesis by metis
qed

lemma pop_step_inv:
  assumes "stdin_inv (rd, sr)"
  obtains (empty) "stdin_reader_pop sr = (None, sr)" "sr_lines sr = []"
    | (line) l sr' where "stdin_reader_pop sr = (Some l, sr')" "stdin_inv (rd, sr')" "sr_lines sr = l # sr_lines sr'"
proof (cases "sr_lines sr")
  case Nil
  with assms empty show thesis by (simp add: stdin_inv_def sq.pop_empty)
next
  case (Cons l ls)
  have eof: "sr_eof (snd (stdin_reader_pop sr)) = sr_eof sr" by (simp add: stdin_reader_pop_def)
  from assms have "sr_inv sr" by (simp add: stdin_inv_def)
  with sq.pop_contents [of sr l ls] sq.pop_inv [of sr] Cons assms eof line show thesis
    by (cases "stdin_reader_pop sr") (simp add: stdin_inv_def)
qed

abbreviation thread_steps :: "stdin_event list \<Rightarrow> nat" where
  "thread_steps es \<equiv> length (filter (\<lambda>e. e = ThreadStep) es)"

lemma stdin_run_spec:
  assumes "stdin_inv (rd, sr)"
  shows "\<exists>out rd' sr'. stdin_run es (rd, sr) = Some (out, rd', sr') \<and> stdin_inv (rd', sr') \<and>
    out @ sr_lines sr' @ unread rd' = sr_lines sr @ unread rd \<and>
    (rd_exited rd \<or> length (rd_input rd) < thread_steps es \<longrightarrow> rd_exited rd')"
  using assms
proof (induction es arbitrary: rd sr)
  case Nil
  then show ?case by simp
next
  case (Cons e es)
  show ?case
  proof (cases e)
    case ThreadStep
    obtain rd1 sr1 where s: "stdin_thread_step (rd, sr) = Some (rd1, sr1)" "stdin_inv (rd1, sr1)"
      "sr_lines sr1 @ unread rd1 = sr_lines sr @ unread rd"
      "rd_exited rd1 \<or> length (rd_input rd1) < length (rd_input rd)" "rd_exited rd \<longrightarrow> rd_exited rd1"
      by (rule thread_step_inv [OF Cons.prems])
    from Cons.IH [OF s(2)] s show ?thesis by (auto simp: ThreadStep)
  next
    case MainPop
    from Cons.prems show ?thesis
    proof (cases rule: pop_step_inv)
      case empty
      with Cons.IH [OF Cons.prems] show ?thesis by (simp add: MainPop)
    next
      case (line l sr1)
      from Cons.IH [OF line(2)] line show ?thesis by (auto simp: MainPop)
    qed
  qed
qed

section \<open>Clean input\<close>

text \<open>
  Where the input holds no NUL byte and its carriage returns stand at line ends, the lines the reader cuts are its lines
  in the plain sense, of whatever length.
\<close>

lemma reader_lines_clean:
  assumes "NUL \<notin> set s" and "cr_at_eol s" and "LF \<notin> set buf"
  shows "reader_lines buf s = input_lines buf s"
  using assms
proof (induction buf s rule: reader_lines.induct)
  case (1 buf s)
  show ?case
  proof (cases "s = []")
    case False
    then obtain chunk rest where f: "fgets 65536 s = Some (chunk, rest)" "s = chunk @ rest" "chunk \<noteq> []"
      "LF \<notin> set chunk \<or> (\<exists>l. chunk = l @ [LF] \<and> LF \<notin> set l)"
      using fgets_Some [of s 65536] by auto
    have c: "c_str chunk = chunk" using "1.prems"(1) f(2) by (auto simp: c_str_def takeWhile_eq_all_conv)
    have rest: "NUL \<notin> set rest" "cr_at_eol rest" using "1.prems"(1,2) f(2) cr_at_eol_append [of chunk rest] by auto
    note IH = "1.IH" [OF f(1) refl refl]
    have eq: "reader_lines buf s = (if \<not> is_eol (last chunk) then reader_lines (buf @ chunk) rest
        else (if strip_eol (buf @ chunk) = [] then [] else [strip_eol (buf @ chunk)]) @ reader_lines [] rest)"
      using f(3) by (subst reader_lines.simps) (simp add: f(1) c Let_def)
    have done': "reader_lines [] rest = input_lines [] rest" if "is_eol (last chunk)"
      using IH(2) f(3) c that rest by simp
    consider (lf) l where "chunk = l @ [LF]" "LF \<notin> set l" | (cr) l where "chunk = l @ [CR]" "LF \<notin> set l"
      | (part) "LF \<notin> set chunk" "\<not> is_eol (last chunk)"
      using f(3,4) by (cases chunk rule: rev_cases) (auto simp: is_eol_def)
    then show ?thesis
    proof cases
      case lf
      then have "input_lines buf s = (if strip_cr (buf @ l) = [] then [] else [strip_cr (buf @ l)]) @ input_lines [] rest"
        by (simp add: f(2) input_lines_run input_lines_LF)
      then show ?thesis using lf strip_eol_snoc [of LF "buf @ l"] strip_eol_cr [of "buf @ l"] "1.prems"(3) done' by (simp add: eq is_eol_def)
    next
      case cr
      from "1.prems"(2) f(2) cr(1) have "cr_at_eol (CR # rest)" using cr_at_eol_append [of l "CR # rest"] by simp
      then have "input_lines buf s = (if strip_cr (buf @ l) = [] then [] else [strip_cr (buf @ l)]) @ input_lines [] rest"
        using cr input_lines_run [of chunk buf rest] input_lines_CR [of rest "buf @ l"] by (simp add: f(2))
      then show ?thesis using cr strip_eol_snoc [of CR "buf @ l"] strip_eol_cr [of "buf @ l"] "1.prems"(3) done' by (simp add: eq is_eol_def)
    next
      case part
      then have "input_lines buf s = input_lines (buf @ chunk) rest" by (simp add: f(2) input_lines_run)
      then show ?thesis using IH(1) part f(3) c rest "1.prems"(3) by (simp add: eq)
    qed
  qed simp
qed

section \<open>Properties\<close>

text \<open>
  Property C17.  What standard input delivers reaches the main thread, once and in order, however
  the two threads interleave.  For every input no step gets stuck; at every moment the lines popped so far, the lines queued and
  those that the reader will still cut from the rest of its input are the lines it cuts the whole input into, in order; the end of
  the input is signalled exactly when the reader has exited, no later than after as many of its
  iterations as the input has bytes plus one, and then every line has been popped or is queued.  For an input without NUL bytes whose
  carriage returns stand at line ends, these lines are exactly the newline-terminated non-empty lines of the input.  There lines
  of any length are covered: the 64 KiB chunks of \<^verbatim>\<open>fgets\<close> are put together again.  With a NUL byte or a carriage return inside a line
  they are not: the reader drops the rest of a chunk after a NUL, its line feed included, and ends a line at a carriage return that
  falls on the end of a chunk.
\<close>

theorem stdin_lines_delivered:
  "(\<exists>out rd sr. stdin_run es (reader_start s, stdin_reader_init) = Some (out, rd, sr) \<and>
    out @ sr_lines sr @ reader_lines (rd_buf rd) (rd_input rd) = reader_lines [] s \<and>
    (rd_exited rd \<longleftrightarrow> sr_eof sr) \<and>
    (length s < length (filter (\<lambda>e. e = ThreadStep) es) \<longrightarrow> sr_eof sr) \<and>
    (sr_eof sr \<longrightarrow> out @ sr_lines sr = reader_lines [] s)) \<and>
   (NUL \<notin> set s \<longrightarrow> cr_at_eol s \<longrightarrow> reader_lines [] s = input_lines [] s)"
proof -
  obtain out rd sr where r: "stdin_run es (reader_start s, stdin_reader_init) = Some (out, rd, sr)"
      "stdin_inv (rd, sr)" "out @ sr_lines sr @ unread rd = reader_lines [] s"
      "length s < thread_steps es \<longrightarrow> rd_exited rd"
    using stdin_run_spec [OF stdin_inv_start, of es s]
    by (auto simp: reader_start_def stdin_reader_init_def)
  moreover from r(2,3) have "sr_eof sr \<longrightarrow> out @ sr_lines sr = reader_lines [] s"
    by (auto simp: stdin_inv_def)
  ultimately show ?thesis using reader_lines_clean [of s "[]"] by (auto simp: stdin_inv_def)
qed

text \<open>An input with a carriage return at a line end and an unfinished line, and one with a NUL, whose two lines become one.\<close>

theorem stdin_lines_delivered_witness:
  "input_lines [] [CHR ''a'', CR, LF, LF, CHR ''b'', LF, CHR ''c''] = [''a'', ''b''] \<and>
   (\<exists>out rd sr. stdin_run [ThreadStep, ThreadStep, MainPop, ThreadStep, ThreadStep, ThreadStep, ThreadStep, ThreadStep, ThreadStep]
      (reader_start [CHR ''a'', CR, LF, LF, CHR ''b'', LF, CHR ''c''], stdin_reader_init) = Some (out, rd, sr) \<and>
    sr_eof sr \<and> out @ sr_lines sr = [''a'', ''b'']) \<and>
   (\<exists>out rd sr. stdin_run (replicate 6 ThreadStep) (reader_start [CHR ''a'', NUL, LF, CHR ''b'', LF], stdin_reader_init) =
      Some (out, rd, sr) \<and> sr_eof sr \<and> out @ sr_lines sr = [''ab''])"
proof (intro conjI)
  show *: "input_lines [] [CHR ''a'', CR, LF, LF, CHR ''b'', LF, CHR ''c''] = [''a'', ''b'']" by code_simp
  show "\<exists>out rd sr. stdin_run [ThreadStep, ThreadStep, MainPop, ThreadStep, ThreadStep, ThreadStep, ThreadStep, ThreadStep, ThreadStep]
      (reader_start [CHR ''a'', CR, LF, LF, CHR ''b'', LF, CHR ''c''], stdin_reader_init) = Some (out, rd, sr) \<and>
    sr_eof sr \<and> out @ sr_lines sr = [''a'', ''b'']"
    using stdin_lines_delivered [where s = "[CHR ''a'', CR, LF, LF, CHR ''b'', LF, CHR ''c'']"
        and es = "[ThreadStep, ThreadStep, MainPop, ThreadStep, ThreadStep, ThreadStep, ThreadStep, ThreadStep, ThreadStep]"] *
    by (auto simp: is_eol_def)
  have "reader_lines [] [CHR ''a'', NUL, LF, CHR ''b'', LF] = [''ab'']"
    by (simp add: reader_lines.simps fgets_def c_str_def strip_eol_def is_eol_def Let_def)
  then show "\<exists>out rd sr. stdin_run (replicate 6 ThreadStep) (reader_start [CHR ''a'', NUL, LF, CHR ''b'', LF], stdin_reader_init) =
      Some (out, rd, sr) \<and> sr_eof sr \<and> out @ sr_lines sr = [''ab'']"
    using stdin_lines_delivered [where s = "[CHR ''a'', NUL, LF, CHR ''b'', LF]" and es = "replicate 6 ThreadStep"] by auto
qed

end
