(* ===== verification/Server.thy ===== *)
theory Server
  imports Env_Manager Stdin_Reader
begin

text \<open>
  The request handler of \<^verbatim>\<open>src/main.c\<close>.  A request is one line of JSON; the context that parses it is a
  parameter, a \<open>json_reader\<close>.  \<open>handle_request\<close> follows \<^verbatim>\<open>handle_request\<close>, one definition per type of request; its
  effect is on the \<open>server\<close>: the environment manager, the bytecode cache and the responses sent so far.  \<open>sv_dropped\<close>
  lists the requests that were freed without a response and \<open>sv_pc\<close> says where in its loop the thread of each environment is;
  the program keeps neither.
\<close>

section \<open>State\<close>

text \<open>\<open>jr_error line\<close> is the message of the exception that parsing the line throws.\<close>

record 'j json_reader =
  jr_parse :: "string \<Rightarrow> 'j option"
  jr_error :: "string \<Rightarrow> string option"
  jr_api :: "'j js_api"

datatype server_status = Serving | Exited | Overflowed

record ('v, 'h) server =
  sv_mgr :: "('v, 'h) env_manager"
  sv_cache :: bytecode_cache
  sv_out :: "response list"
  sv_tick :: nat
  sv_status :: server_status
  sv_dropped :: "env_request list"
  sv_pc :: "string \<Rightarrow> loop_pc"

definition server_init :: "('v, 'h) server" where
  "server_init = \<lparr>sv_mgr = env_manager_init, sv_cache = bc_init 256, sv_out = [], sv_tick = 0, sv_status = Serving, sv_dropped = [],
     sv_pc = (\<lambda>_. LoopHead)\<rparr>"

definition reply :: "response \<Rightarrow> ('v, 'h) server \<Rightarrow> ('v, 'h) server" where
  "reply r sv = sv\<lparr>sv_out := sv_out sv @ [r]\<rparr>"

section \<open>Reading a request\<close>

definition json_get_string :: "'j js_api \<Rightarrow> 'j \<Rightarrow> string \<Rightarrow> string option" where
  "json_get_string api obj key =
     (let val = js_get_property api obj key in
      if js_is_undefined api val \<or> js_is_null api val then None else js_cstring api val)"

definition json_get_int64 :: "'j js_api \<Rightarrow> 'j \<Rightarrow> string \<Rightarrow> int \<Rightarrow> int" where
  "json_get_int64 api obj key def =
     (let val = js_get_property api obj key in
      if js_is_undefined api val \<or> js_is_null api val then def else js_int64 api val)"

section \<open>Creating, destroying and listing environments\<close>

definition env_result :: "string option \<Rightarrow> string \<Rightarrow> string option \<Rightarrow> response" where
  "env_result i env_id msg =
     \<lparr>r_id = i, r_type = ''result'', r_env_id = Some env_id, r_value = None, r_value_is_raw = False,
      r_message = msg, r_name = None, r_data = None, r_data_is_raw = False\<rparr>"

definition handle_create_env ::
    "host_world \<Rightarrow> ('v, 'h) engine \<Rightarrow> 'j js_api \<Rightarrow> 'j \<Rightarrow> string option \<Rightarrow> ('v, 'h) server \<Rightarrow> ('v, 'h) server option" where
  "handle_create_env w eng api req i sv =
     (case json_get_string api req ''env_id'' of
        None \<Rightarrow> Some (reply (error_response i (''create_env: missing '' @ apos ''env_id'')) sv)
      | Some env_id \<Rightarrow>
          (case env_create w eng (sv_tick sv) env_id (json_get_string api req ''init_code'')
                  (json_get_int64 api req ''memory_limit'' 0) (json_get_int64 api req ''stack_size'' 0) (sv_mgr sv) of
             None \<Rightarrow> None
           | Some (r, out, mgr) \<Rightarrow>
               (let sv1 = sv\<lparr>sv_mgr := mgr, sv_out := sv_out sv @ out, sv_tick := Suc (sv_tick sv),
                      sv_pc := (if r = None then sv_pc sv else (sv_pc sv)(env_id := LoopHead))\<rparr> in
                Some (reply (case r of
                    Some e \<Rightarrow> env_result i env_id None
                  | None \<Rightarrow> error_response i (snprintf 256 (''create_env: failed to create environment '' @ apos env_id))) sv1))))"

text \<open>What the environment's thread sent while it was stopped comes before the response.\<close>

definition handle_destroy_env ::
    "host_world \<Rightarrow> ('v, 'h) engine \<Rightarrow> 'j js_api \<Rightarrow> 'j \<Rightarrow> string option \<Rightarrow> ('v, 'h) server \<Rightarrow> ('v, 'h) server option" where
  "handle_destroy_env w eng api req i sv =
     (case json_get_string api req ''env_id'' of
        None \<Rightarrow> Some (reply (error_response i (''destroy_env: missing '' @ apos ''env_id'')) sv)
      | Some env_id \<Rightarrow>
          (case env_destroy w eng (sv_pc sv env_id) env_id (Some (sv_cache sv)) (sv_mgr sv) of
             None \<Rightarrow> None
           | Some (rc, r, cache, mgr) \<Rightarrow>
               (let sv1 = sv\<lparr>sv_mgr := mgr, sv_cache := (case cache of Some c \<Rightarrow> c | None \<Rightarrow> sv_cache sv)\<rparr>;
                    sv2 = (case (env_find (sv_mgr sv) env_id, r) of
                             (Some e, Some (e', _)) \<Rightarrow>
                               sv1\<lparr>sv_out := sv_out sv @ drop (length (je_out e)) (je_out e'),
                                   sv_dropped := sv_dropped sv @ rq_contents (je_requests e')\<rparr>
                           | _ \<Rightarrow> sv1)
                in Some (reply (if rc = 0 then env_result i env_id (Some ''destroyed'')
                     else error_response i (snprintf 256 (''destroy_env: environment '' @ apos env_id @ '' not found''))) sv2))))"

text \<open>The buffer is sized by the lengths of the ids and filled with their JSON text.\<close>

definition list_envs_cap :: "string list \<Rightarrow> nat" where
  "list_envs_cap ids = 256 + sum_list (map (\<lambda>i. length i + 8) ids)"

fun list_envs_loop :: "(nat \<Rightarrow> bool) \<Rightarrow> nat \<Rightarrow> string list \<Rightarrow> string" where
  "list_envs_loop malloc_ok i [] = ''''"
| "list_envs_loop malloc_ok i (eid # ids) =
     (if 0 < i then '','' else '''') @ json_escape_string malloc_ok (Some eid) @ list_envs_loop malloc_ok (Suc i) ids"

definition list_envs_text :: "(nat \<Rightarrow> bool) \<Rightarrow> string list \<Rightarrow> string" where
  "list_envs_text malloc_ok ids = ''['' @ list_envs_loop malloc_ok 0 ids @ '']''"

definition list_result :: "string option \<Rightarrow> string \<Rightarrow> response" where
  "list_result i arr =
     \<lparr>r_id = i, r_type = ''result'', r_env_id = None, r_value = Some arr, r_value_is_raw = True,
      r_message = None, r_name = None, r_data = None, r_data_is_raw = False\<rparr>"

definition handle_list_envs :: "host_world \<Rightarrow> string option \<Rightarrow> ('v, 'h) server \<Rightarrow> ('v, 'h) server option" where
  "handle_list_envs w i sv =
     (let arr = list_envs_text (w_malloc_ok w) (env_ids (sv_mgr sv)) in
      if list_envs_cap (env_ids (sv_mgr sv)) < length arr + 1 then Some (sv\<lparr>sv_status := Overflowed\<rparr>)
      else Some (reply (list_result i arr) sv))"

section \<open>Submitting work to an environment\<close>

definition submit_to :: "string \<Rightarrow> env_request \<Rightarrow> ('v, 'h) env_manager \<Rightarrow> ('v, 'h) env_manager option" where
  "submit_to env_id ereq mgr =
     (case env_index (em_environments mgr) env_id of
        None \<Rightarrow> None
      | Some k \<Rightarrow> Some (mgr\<lparr>em_environments := (em_environments mgr)[k := env_submit_request ereq (em_environments mgr ! k)]\<rparr>))"

definition handle_eval ::
    "'j js_api \<Rightarrow> 'j \<Rightarrow> string option \<Rightarrow> ('v, 'h) server \<Rightarrow> ('v, 'h) server option" where
  "handle_eval api req i sv =
     (case json_get_string api req ''env_id'' of
        None \<Rightarrow> Some (reply (error_response i (''eval: missing '' @ apos ''env_id'')) sv)
      | Some env_id \<Rightarrow>
          (case json_get_string api req ''code'' of
             None \<Rightarrow> Some (reply (error_response i (''eval: missing '' @ apos ''code'')) sv)
           | Some src \<Rightarrow>
               (case submit_to env_id
                       \<lparr>rq_request_id = i, rq_type = ''eval'', rq_code = Some src,
                        rq_filename = Some (case json_get_string api req ''filename'' of Some f \<Rightarrow> f | None \<Rightarrow> ''<eval>''),
                        rq_path = None\<rparr> (sv_mgr sv) of
                  None \<Rightarrow> Some (reply (error_response i (snprintf 256 (''eval: environment '' @ apos env_id @ '' not found''))) sv)
                | Some mgr \<Rightarrow> Some (sv\<lparr>sv_mgr := mgr\<rparr>))))"

definition handle_eval_file ::
    "'j js_api \<Rightarrow> 'j \<Rightarrow> string option \<Rightarrow> ('v, 'h) server \<Rightarrow> ('v, 'h) server option" where
  "handle_eval_file api req i sv =
     (case json_get_string api req ''env_id'' of
        None \<Rightarrow> Some (reply (error_response i (''eval_file: missing '' @ apos ''env_id'')) sv)
      | Some env_id \<Rightarrow>
          (case json_get_string api req ''path'' of
             None \<Rightarrow> Some (reply (error_response i (''eval_file: missing '' @ apos ''path'')) sv)
           | Some path \<Rightarrow>
               (case submit_to env_id
                       \<lparr>rq_request_id = i, rq_type = ''eval_file'', rq_code = None, rq_filename = None, rq_path = Some path\<rparr>
                       (sv_mgr sv) of
                  None \<Rightarrow> Some (reply (error_response i (snprintf 256 (''eval_file: environment '' @ apos env_id @ '' not found''))) sv)
                | Some mgr \<Rightarrow> Some (sv\<lparr>sv_mgr := mgr\<rparr>))))"

section \<open>The handler\<close>

definition handle_typed ::
    "host_world \<Rightarrow> ('v, 'h) engine \<Rightarrow> 'j js_api \<Rightarrow> 'j \<Rightarrow> string option \<Rightarrow> string \<Rightarrow> ('v, 'h) server \<Rightarrow>
     ('v, 'h) server option" where
  "handle_typed w eng api req i ty sv =
     (if ty = ''create_env'' then handle_create_env w eng api req i sv
      else if ty = ''destroy_env'' then handle_destroy_env w eng api req i sv
      else if ty = ''list_envs'' then handle_list_envs w i sv
      else if ty = ''eval'' then handle_eval api req i sv
      else if ty = ''eval_file'' then handle_eval_file api req i sv
      else if ty = ''exit'' then Some ((reply (result_response i None) sv)\<lparr>sv_status := Exited\<rparr>)
      else Some (reply (error_response i (snprintf 128 (''unknown request type: '' @ ty))) sv))"

definition handle_request ::
    "host_world \<Rightarrow> ('v, 'h) engine \<Rightarrow> 'j json_reader \<Rightarrow> string \<Rightarrow> ('v, 'h) server \<Rightarrow> ('v, 'h) server option" where
  "handle_request w eng jr line sv =
     (case jr_parse jr line of
        None \<Rightarrow> Some (reply (error_response None (case jr_error jr line of Some m \<Rightarrow> m | None \<Rightarrow> ''invalid JSON'')) sv)
      | Some req \<Rightarrow>
          (let i = json_get_string (jr_api jr) req ''id'' in
           case json_get_string (jr_api jr) req ''type'' of
             None \<Rightarrow> Some (reply (error_response i (''missing '' @ apos ''type'' @ '' field'')) sv)
           | Some ty \<Rightarrow> handle_typed w eng (jr_api jr) req i ty sv))"

section \<open>Well-formed responses\<close>

text \<open>
  The protocol has five kinds of response: errors, results of an evaluation, results about an environment, the list of environments and
  events.  Each has its own fields and no others; only events and lists hold raw text, and a list is an array on one line.
\<close>

definition error_wf :: "response \<Rightarrow> bool" where
  "error_wf r \<longleftrightarrow> r_type r = ''error'' \<and> r_message r \<noteq> None \<and> r_env_id r = None \<and> r_value r = None \<and> r_name r = None \<and> r_data r = None"

definition result_wf :: "response \<Rightarrow> bool" where
  "result_wf r \<longleftrightarrow> r_type r = ''result'' \<and> r_name r = None \<and> r_data r = None \<and>
     (r_env_id r = None \<and> r_message r = None \<and>
        (r_value_is_raw r \<longrightarrow> (\<exists>items. r_value r = Some (''['' @ items @ '']'') \<and> LF \<notin> set items)) \<or>
      r_env_id r \<noteq> None \<and> r_value r = None \<and> r_message r \<in> {None, Some ''destroyed''})"

definition event_wf :: "response \<Rightarrow> bool" where
  "event_wf r \<longleftrightarrow> r_type r = ''event'' \<and> r_id r = None \<and> r_env_id r \<noteq> None \<and> r_name r \<noteq> None \<and> r_data r \<noteq> None \<and>
     r_data_is_raw r \<and> r_value r = None \<and> r_message r = None"

definition response_wf :: "response \<Rightarrow> bool" where
  "response_wf r \<longleftrightarrow> error_wf r \<or> result_wf r \<or> event_wf r"

lemma env_response_heads [simp]:
  "r_id (env_result i e msg) = i" "r_type (env_result i e msg) = ''result''"
  "r_id (list_result i arr) = i" "r_type (list_result i arr) = ''result''"
  by (simp_all add: env_result_def list_result_def)

lemma response_wf_simps [simp]:
  "response_wf (error_response i m)" "response_wf (result_response i v)"
  "response_wf (env_result i e None)" "response_wf (env_result i e (Some ''destroyed''))"
  "LF \<notin> set items \<Longrightarrow> response_wf (list_result i (''['' @ items @ '']''))"
  by (simp_all add: response_wf_def error_wf_def result_wf_def error_response_def result_response_def env_result_def list_result_def)

lemma response_wf_event:
  assumes "event_of i r"
  shows "response_wf r"
proof -
  from assms obtain name data where "r = event_response i name data" unfolding event_of_def by blast
  then show ?thesis by (simp add: response_wf_def event_wf_def event_response_def)
qed

lemma response_wf_answer:
  assumes "answers req r"
  shows "response_wf r"
proof -
  from assms consider m where "r = error_response (rq_request_id req) m" | v where "r = result_response (rq_request_id req) v"
    by (auto simp: answers_def)
  then show ?thesis by cases simp_all
qed

lemma events_wf: "list_all (event_of i) out \<Longrightarrow> list_all response_wf out"
  by (auto simp: list_all_iff intro: response_wf_event)

lemma runs_wf:
  assumes "env_runs e out e'"
  shows "list_all response_wf out"
proof -
  from assms obtain hs where hs: "list_all2 answers hs (replies (je_env_id e) out)" by (auto simp: env_runs_def)
  have "response_wf r" if "r \<in> set out" for r
  proof (cases "event_of (je_env_id e) r")
    case False
    with that have "r \<in> set (replies (je_env_id e) out)" by (simp add: replies_def)
    with hs obtain h where "answers h r" by (metis in_set_conv_nth list_all2_conv_all_nth)
    then show ?thesis by (rule response_wf_answer)
  qed (rule response_wf_event)
  then show ?thesis by (simp add: list_all_iff)
qed

section \<open>Balance\<close>

definition world_ok :: "host_world \<Rightarrow> bool" where
  "world_ok w \<longleftrightarrow> clock_advances w \<and> (\<forall>k. w_arrivals w k = [])"

text \<open>The ids of the requests in all queues.\<close>

definition queued :: "('v, 'h) env_manager \<Rightarrow> string option multiset" where
  "queued mgr = sum_list (map env_pending (em_environments mgr))"

definition dropped :: "('v, 'h) server \<Rightarrow> string option multiset" where
  "dropped sv = mset (map rq_request_id (sv_dropped sv))"

text \<open>The ids of the requests answered, still queued, and freed unanswered.\<close>

definition balance :: "('v, 'h) server \<Rightarrow> string option multiset" where
  "balance sv = replied (sv_out sv) + queued (sv_mgr sv) + dropped sv"

lemma queued_total: "queued mgr = wk.total (em_environments mgr)"
  by (simp add: queued_def wk.total_def)

lemma world_ok_D: "world_ok w \<Longrightarrow> clock_advances w" "world_ok w \<Longrightarrow> \<forall>k. w_arrivals w k = []" "world_ok w \<Longrightarrow> arrivals_end w"
  by (auto simp: world_ok_def arrivals_end_def)

lemma replace_env:
  assumes "mgr_inv mgr" and "k < length (em_environments mgr)" and "je_env_id e = je_env_id (em_environments mgr ! k)"
    and "env_inv e" and "je_running e" and "je_thread e = LoopThread"
  shows "mgr_inv (mgr\<lparr>em_environments := (em_environments mgr)[k := e]\<rparr>)"
proof -
  have "map je_env_id ((em_environments mgr)[k := e]) = env_ids mgr"
    using assms(2,3) by (simp add: map_update list_update_same_conv)
  moreover have "set ((em_environments mgr)[k := e]) \<subseteq> insert e (set (em_environments mgr))" by (rule set_update_subset_insert)
  ultimately show ?thesis using assms unfolding mgr_inv_def by auto
qed

lemma submit_spec:
  assumes "mgr_inv mgr" and "submit_to env_id ereq mgr = Some mgr'"
  shows "mgr_inv mgr' \<and> queued mgr' = add_mset (rq_request_id ereq) (queued mgr)"
proof -
  from assms(2) obtain k where k: "env_index (em_environments mgr) env_id = Some k"
    "mgr' = mgr\<lparr>em_environments := (em_environments mgr)[k := env_submit_request ereq (em_environments mgr ! k)]\<rparr>"
    by (auto simp: submit_to_def split: option.splits)
  let ?e = "em_environments mgr ! k"
  from env_index_Some [OF k(1)] have lt: "k < length (em_environments mgr)" by simp
  then have "?e \<in> set (em_environments mgr)" by simp
  with assms(1) have e: "env_inv ?e" "je_running ?e" "je_thread ?e = LoopThread" by (auto simp: mgr_inv_def)
  have "mgr_inv mgr'" unfolding k(2) using wk.submit_inv [OF e(1)] e(2,3)
    by (intro replace_env [OF assms(1) lt]) (simp_all add: env_submit_request_def)
  with wk.total_submit [OF lt e(1), of ereq] show ?thesis by (simp add: k(2) queued_total)
qed

section \<open>Every request is accounted for\<close>

text \<open>
  One request is answered with its id, or handed with its id to the queue of an environment; together with
  what environments are stopped on the way, the ids answered, queued or dropped are one more, that of the request.
\<close>

definition accounts :: "string option \<Rightarrow> ('v, 'h) server \<Rightarrow> ('v, 'h) server \<Rightarrow> bool" where
  "accounts i sv sv' \<longleftrightarrow>
     balance sv' = add_mset i (balance sv) \<and>
     ((\<exists>pre r. sv_out sv' = sv_out sv @ pre @ [r] \<and> r_id r = i \<and> r_type r \<in> {''result'', ''error''}) \<or>
      (\<exists>env_id ereq. submit_to env_id ereq (sv_mgr sv) = Some (sv_mgr sv') \<and> rq_request_id ereq = i \<and> sv_out sv' = sv_out sv))"

definition sends :: "('v, 'h) server \<Rightarrow> ('v, 'h) server \<Rightarrow> bool" where
  "sends sv sv' \<longleftrightarrow> (\<exists>new. sv_out sv' = sv_out sv @ new \<and> list_all response_wf new)"

abbreviation accounted :: "string option \<Rightarrow> ('v, 'h) server \<Rightarrow> ('v, 'h) server \<Rightarrow> bool" where
  "accounted i sv sv' \<equiv> mgr_inv (sv_mgr sv') \<and> sends sv sv' \<and> (sv_status sv' = Overflowed \<or> accounts i sv sv')"

lemma reply_simps [simp]:
  "sv_mgr (reply r sv) = sv_mgr sv" "sv_out (reply r sv) = sv_out sv @ [r]" "sv_status (reply r sv) = sv_status sv"
  "dropped (reply r sv) = dropped sv"
  by (simp_all add: reply_def dropped_def)

lemma accounts_after:
  assumes "sv_out sv1 = sv_out sv @ pre" and "list_all response_wf pre" and "balance sv1 = balance sv"
    and "response_wf r" and "r_type r \<in> {''result'', ''error''}"
  shows "accounts (r_id r) sv (reply r sv1)" and "sends sv (reply r sv1)"
proof -
  have "replied [r] = {#r_id r#}" using assms(5) by (auto simp: replied_def)
  then show "accounts (r_id r) sv (reply r sv1)" using assms by (auto simp: accounts_def balance_def)
  show "sends sv (reply r sv1)" using assms by (auto simp: sends_def)
qed

lemma accounts_reply:
  "response_wf r \<Longrightarrow> r_type r \<in> {''result'', ''error''} \<Longrightarrow> r_id r = i \<Longrightarrow> accounts i sv (reply r sv)"
  using accounts_after(1) [of sv sv "[]" r] by auto

lemma accounted_reply:
  assumes "mgr_inv (sv_mgr sv)" and "response_wf r" and "r_type r \<in> {''result'', ''error''}" and "r_id r = i"
  shows "accounted i sv (reply r sv)"
  using accounts_after [of sv sv "[]" r] assms by simp

lemma create_accounted:
  assumes "mgr_inv (sv_mgr sv)" and "world_ok w"
  shows "\<exists>sv'. handle_create_env w eng api req i sv = Some sv' \<and> accounted i sv sv'"
proof (cases "json_get_string api req ''env_id''")
  case None
  with accounted_reply [OF assms(1)] assms(1) show ?thesis by (simp add: handle_create_env_def)
next
  case (Some env_id)
  let ?init = "json_get_string api req ''init_code''"
  let ?m = "json_get_int64 api req ''memory_limit'' 0" and ?s = "json_get_int64 api req ''stack_size'' 0"
  from create_spec [OF assms(1) world_ok_D(1) [OF assms(2)], of eng "sv_tick sv" env_id ?init ?m ?s]
  obtain r out mgr' where c: "env_create w eng (sv_tick sv) env_id ?init ?m ?s (sv_mgr sv) = Some (r, out, mgr')"
      "mgr_inv mgr'" "list_all (event_of env_id) out"
    and envs: "case r of None \<Rightarrow> em_environments mgr' = em_environments (sv_mgr sv)
       | Some e \<Rightarrow> em_environments mgr' = em_environments (sv_mgr sv) @ [e] \<and> rq_contents (je_requests e) = []"
    by (auto split: option.splits)
  define sv1 where "sv1 = sv\<lparr>sv_mgr := mgr', sv_out := sv_out sv @ out, sv_tick := Suc (sv_tick sv),
      sv_pc := (if r = None then sv_pc sv else (sv_pc sv)(env_id := LoopHead))\<rparr>"
  define resp where "resp = (case r of Some e \<Rightarrow> env_result i env_id None
     | None \<Rightarrow> error_response i (snprintf 256 (''create_env: failed to create environment '' @ apos env_id)))"
  have "queued mgr' = queued (sv_mgr sv)" using envs by (cases r) (simp_all add: queued_def env_pending_def)
  then have "balance sv1 = balance sv" using replied_events [OF c(3)] by (simp add: sv1_def balance_def dropped_def)
  moreover have "response_wf resp" "r_type resp \<in> {''result'', ''error''}" "r_id resp = i"
    by (simp_all add: resp_def split: option.split)
  ultimately have "accounts i sv (reply resp sv1)" "sends sv (reply resp sv1)"
    using accounts_after [of sv1 sv out resp] events_wf [OF c(3)] by (simp_all add: sv1_def)
  moreover have "handle_create_env w eng api req i sv = Some (reply resp sv1)"
    by (simp add: handle_create_env_def Some c(1) sv1_def resp_def Let_def)
  ultimately show ?thesis using c(2) by (simp add: sv1_def)
qed

lemma destroy_accounted:
  assumes "mgr_inv (sv_mgr sv)" and "world_ok w"
  shows "\<exists>sv'. handle_destroy_env w eng api req i sv = Some sv' \<and> accounted i sv sv'"
proof (cases "json_get_string api req ''env_id''")
  case None
  with accounted_reply [OF assms(1)] assms(1) show ?thesis by (simp add: handle_destroy_env_def)
next
  case (Some env_id)
  note spec = destroy_spec [OF assms(1) world_ok_D(1) [OF assms(2)], of env_id eng "sv_pc sv env_id" "Some (sv_cache sv)"]
  show ?thesis
  proof (cases "env_id \<in> set (env_ids (sv_mgr sv))")
    case False
    with spec have "env_destroy w eng (sv_pc sv env_id) env_id (Some (sv_cache sv)) (sv_mgr sv) = Some (- 1, None, Some (sv_cache sv), sv_mgr sv)"
      by simp
    with accounted_reply [OF assms(1)] assms(1) show ?thesis
      by (simp add: handle_destroy_env_def Some Let_def split: option.split)
  next
    case True
    from spec [unfolded if_P [OF True]] obtain e e' handled out cache' mgr' where
      d: "env_destroy w eng (sv_pc sv env_id) env_id (Some (sv_cache sv)) (sv_mgr sv) = Some (0, Some (e', env_cleanup w eng e'), cache', mgr')"
        "e \<in> set (em_environments (sv_mgr sv))" "je_env_id e = env_id" "mgr_inv mgr'"
        "em_environments mgr' = filter (\<lambda>x. je_env_id x \<noteq> env_id) (em_environments (sv_mgr sv))"
        "winds_up (sv_pc sv env_id) handled e out e'" by blast
    have o: "je_out e' = je_out e @ out" "env_runs e out e'" using d(6) winds_up_runs [OF d(6)] by (simp_all add: winds_up_def)
    have dist: "distinct (env_ids (sv_mgr sv))" using assms(1) by (simp add: mgr_inv_def)
    obtain x where x: "env_find (sv_mgr sv) env_id = Some x" using True env_find_None [of "sv_mgr sv" env_id] by auto
    have "x = e" using env_find_Some [OF x] d(2,3) dist by (auto simp: distinct_map dest: inj_onD)
    define sv1 where "sv1 = sv\<lparr>sv_mgr := mgr', sv_cache := (case cache' of Some c \<Rightarrow> c | None \<Rightarrow> sv_cache sv),
        sv_out := sv_out sv @ out, sv_dropped := sv_dropped sv @ rq_contents (je_requests e')\<rparr>"
    have h: "handle_destroy_env w eng api req i sv = Some (reply (env_result i env_id (Some ''destroyed'')) sv1)"
      using x \<open>x = e\<close> o(1) by (simp add: handle_destroy_env_def Some d(1) sv1_def Let_def)
    have "replied out + queued mgr' + env_pending e' = queued (sv_mgr sv)"
      using wk.total_retire [OF dist d(2) o(2)] d(3,5) by (simp add: queued_total)
    then have "balance sv1 = balance sv" by (simp add: sv1_def balance_def dropped_def env_pending_def add.assoc)
    then have "accounts i sv (reply (env_result i env_id (Some ''destroyed'')) sv1)"
        "sends sv (reply (env_result i env_id (Some ''destroyed'')) sv1)"
      using accounts_after [of sv1 sv out "env_result i env_id (Some ''destroyed'')"] runs_wf [OF o(2)] by (simp_all add: sv1_def)
    with h d(4) show ?thesis by (simp add: sv1_def)
  qed
qed

lemma submit_accounted:
  assumes "mgr_inv (sv_mgr sv)" and "submit_to env_id ereq (sv_mgr sv) = Some mgr'" and "rq_request_id ereq = i"
  shows "accounted i sv (sv\<lparr>sv_mgr := mgr'\<rparr>)"
  using submit_spec [OF assms(1,2)] assms by (auto simp: accounts_def balance_def sends_def dropped_def)

lemma eval_accounted:
  assumes "mgr_inv (sv_mgr sv)"
  shows "\<exists>sv'. handle_eval api req i sv = Some sv' \<and> accounted i sv sv'"
    and "\<exists>sv'. handle_eval_file api req i sv = Some sv' \<and> accounted i sv sv'"
  using assms accounted_reply [OF assms] submit_accounted [OF assms]
  by (simp_all add: handle_eval_def handle_eval_file_def split: option.split)

lemma list_envs_text_wf: "response_wf (list_result i (list_envs_text malloc_ok ids))"
proof -
  have "LF \<notin> set (list_envs_loop malloc_ok k ids)" for k
    using json_body_no_newline by (induction ids arbitrary: k) (auto simp: json_escape_string_def)
  then show ?thesis by (simp only: list_envs_text_def response_wf_simps not_False_eq_True)
qed

lemma handle_accounted:
  assumes "mgr_inv (sv_mgr sv)" and "world_ok w"
  shows "\<exists>sv'. handle_typed w eng api req i ty sv = Some sv' \<and> accounted i sv sv'"
proof -
  note reply = accounted_reply [OF assms(1)]
  have "\<exists>sv'. handle_list_envs w i sv = Some sv' \<and> accounted i sv sv'"
    using assms(1) reply [of "list_result i (list_envs_text (w_malloc_ok w) (env_ids (sv_mgr sv)))" i]
    by (simp add: handle_list_envs_def Let_def list_envs_text_wf sends_def)
  moreover have "accounted i sv ((reply (result_response i None) sv)\<lparr>sv_status := Exited\<rparr>)"
    using assms(1) accounts_reply [of "result_response i None" i sv] by (simp add: accounts_def balance_def sends_def dropped_def reply_def)
  ultimately show ?thesis
    using create_accounted [OF assms, of eng api req i] destroy_accounted [OF assms, of eng api req i]
      eval_accounted [OF assms(1), of api req i] reply assms(1)
    by (simp add: handle_typed_def)
qed

section \<open>The text of list\_envs\<close>

lemma list_envs_loop_join:
  assumes "\<forall>n. malloc_ok n"
  shows "list_envs_loop malloc_ok (Suc k) ids = concat (map (\<lambda>i. '','' @ quoted (json_body i)) ids)"
  using assms by (induction ids arbitrary: k) (simp_all add: json_escape_Some)

lemma length_list_envs_loop:
  assumes "\<forall>n. malloc_ok n"
  shows "length (list_envs_loop malloc_ok 0 ids) + (if ids \<noteq> [] then 1 else 0) =
    sum_list (map (\<lambda>i. length (json_body i) + 3) ids)"
proof (cases ids)
  case (Cons x xs)
  have "length (list_envs_loop malloc_ok (Suc 0) xs) = sum_list (map (\<lambda>i. length (json_body i) + 3) xs)"
    unfolding list_envs_loop_join [OF assms] by (induction xs) (simp_all add: quoted_def)
  with Cons assms show ?thesis by (simp add: json_escape_Some quoted_def)
qed simp

section \<open>Properties\<close>

text \<open>The id a response to the line has to carry.\<close>

definition request_id :: "'j json_reader \<Rightarrow> string \<Rightarrow> string option" where
  "request_id jr line = Option.bind (jr_parse jr line) (\<lambda>req. json_get_string (jr_api jr) req ''id'')"

lemma handle_line_accounted:
  assumes "mgr_inv (sv_mgr sv)" and "world_ok w"
  shows "\<exists>sv'. handle_request w eng jr line sv = Some sv' \<and> accounted (request_id jr line) sv sv'"
proof (cases "jr_parse jr line")
  case None
  with accounted_reply [OF assms(1)] assms(1) show ?thesis by (simp add: handle_request_def request_id_def)
next
  case (Some req)
  then have i: "request_id jr line = json_get_string (jr_api jr) req ''id''" by (simp add: request_id_def)
  show ?thesis
  proof (cases "json_get_string (jr_api jr) req ''type''")
    case None
    with Some accounted_reply [OF assms(1)] assms(1) show ?thesis by (simp add: handle_request_def i Let_def)
  next
    case (Some ty)
    with \<open>jr_parse jr line = Some req\<close> handle_accounted [OF assms, of eng "jr_api jr" req "request_id jr line" ty]
    show ?thesis by (simp add: handle_request_def i Let_def)
  qed
qed

text \<open>
  Property C10.  Every request line is answered or queued, exactly once.  For every line, well-formed or not, \<^verbatim>\<open>handle_request\<close>
  returns and keeps the invariant of the environments, and all it sends is well-formed; unless the list buffer of
  \<^verbatim>\<open>list_envs\<close> overflows, either the last response it sends is a result or an error with the id of the line, or it sends
  nothing and puts one request with that id into the queue of the environment named; and the multiset of ids
  answered, queued or dropped with a destroyed environment grows by exactly the id of the line.
\<close>

theorem handle_request_accounts:
  assumes "mgr_inv (sv_mgr sv)" and "world_ok w"
  shows "\<exists>sv' new. handle_request w eng jr line sv = Some sv' \<and> mgr_inv (sv_mgr sv') \<and>
    sv_out sv' = sv_out sv @ new \<and> list_all response_wf new \<and>
    (sv_status sv' = Overflowed \<or>
     (balance sv' = add_mset (request_id jr line) (balance sv) \<and>
      ((new \<noteq> [] \<and> r_id (last new) = request_id jr line \<and> r_type (last new) \<in> {''result'', ''error''}) \<or>
       (\<exists>env_id ereq. submit_to env_id ereq (sv_mgr sv) = Some (sv_mgr sv') \<and> rq_request_id ereq = request_id jr line \<and> new = []))))"
proof -
  from handle_line_accounted [OF assms, of eng jr line] obtain sv' where
    h: "handle_request w eng jr line sv = Some sv'" "accounted (request_id jr line) sv sv'" by blast
  then obtain new where n: "sv_out sv' = sv_out sv @ new" "list_all response_wf new" by (auto simp: sends_def)
  have "sv_status sv' = Overflowed \<or>
     (balance sv' = add_mset (request_id jr line) (balance sv) \<and>
      ((new \<noteq> [] \<and> r_id (last new) = request_id jr line \<and> r_type (last new) \<in> {''result'', ''error''}) \<or>
       (\<exists>env_id ereq. submit_to env_id ereq (sv_mgr sv) = Some (sv_mgr sv') \<and> rq_request_id ereq = request_id jr line \<and> new = [])))"
    using h(2) n(1) by (auto simp: accounts_def)
  with h n show ?thesis by blast
qed

text \<open>
  Property C16.  The buffer of \<^verbatim>\<open>list_envs\<close>.  The buffer is sized by the raw lengths of the ids although they are
  written escaped: it overflows exactly when the escapes add more than 254 bytes and 5 for each environment.  Where it does
  not, the response holds the JSON array of all ids in the order of their creation.
\<close>

theorem list_envs_overflow_iff:
  assumes "\<forall>n. w_malloc_ok w n"
  shows "\<exists>sv'. handle_list_envs w i sv = Some sv' \<and>
    (if 254 + sum_list (map (\<lambda>x. length x + 5) (env_ids (sv_mgr sv))) < sum_list (map (\<lambda>x. length (json_body x)) (env_ids (sv_mgr sv)))
     then sv' = sv\<lparr>sv_status := Overflowed\<rparr>
     else \<exists>arr. sv_out sv' = sv_out sv @ [list_result i (''['' @ arr @ '']'')] \<and>
       arr = (case env_ids (sv_mgr sv) of [] \<Rightarrow> []
              | x # xs \<Rightarrow> quoted (json_body x) @ concat (map (\<lambda>y. '','' @ quoted (json_body y)) xs)))"
proof -
  define ids where "ids = env_ids (sv_mgr sv)"
  let ?loop = "list_envs_loop (w_malloc_ok w) 0 ids"
  have len: "length ?loop + (if ids \<noteq> [] then 1 else 0) = sum_list (map (\<lambda>i. length (json_body i)) ids) + 3 * length ids"
    using length_list_envs_loop [OF assms, of ids] by (simp add: sum_list_addf sum_list_triv mult.commute)
  have cap: "list_envs_cap ids = 256 + sum_list (map length ids) + 8 * length ids"
    by (simp add: list_envs_cap_def sum_list_addf sum_list_triv mult.commute)
  have five: "sum_list (map (\<lambda>x. length x + 5) ids) = sum_list (map length ids) + 5 * length ids"
    by (simp add: sum_list_addf sum_list_triv mult.commute)
  have "list_envs_cap ids < length (''['' @ ?loop @ '']'') + 1 \<longleftrightarrow>
      254 + sum_list (map (\<lambda>x. length x + 5) ids) < sum_list (map (\<lambda>x. length (json_body x)) ids)"
    using len unfolding cap five by (cases "ids = []") auto
  moreover have "?loop = (case ids of [] \<Rightarrow> [] | x # xs \<Rightarrow> quoted (json_body x) @ concat (map (\<lambda>y. '','' @ quoted (json_body y)) xs))"
    using assms by (cases ids) (simp_all add: json_escape_Some list_envs_loop_join)
  ultimately show ?thesis
    unfolding ids_def [symmetric] handle_list_envs_def list_envs_text_def Let_def
    by (simp add: reply_def ids_def [symmetric])
qed

section \<open>Witnesses\<close>

text \<open>A reader for lines that are the bare type of a request.\<close>

definition ex_json :: "string json_reader" where
  "ex_json = \<lparr>jr_parse = \<lambda>l. if l = ''{'' then None else Some l, jr_error = \<lambda>l. None,
     jr_api = ex_env_api\<lparr>js_get_property := \<lambda>obj key. if key = ''type'' then obj else if key = ''id'' then ''7'' else []\<rparr>\<rparr>"

theorem handle_request_accounts_witness:
  "\<exists>sv' new. handle_request ex_world ex_engine ex_json ''exit'' (server_init :: (string, unit) server) = Some sv' \<and>
     sv_out sv' = new \<and> list_all response_wf new \<and> (sv_status sv' = Overflowed \<or> {#Some ''7''#} = balance sv')"
proof -
  have "mgr_inv (sv_mgr (server_init :: (string, unit) server))" by (simp add: server_init_def mgr_inv_init)
  moreover have "world_ok ex_world" using ex_env_facts(2) by (simp add: world_ok_def ex_world_def)
  moreover have "balance (server_init :: (string, unit) server) = {#}" "sv_out (server_init :: (string, unit) server) = []"
    by (simp_all add: server_init_def balance_def dropped_def queued_def env_manager_init_def)
  moreover have "request_id ex_json ''exit'' = Some ''7''"
    by (simp add: request_id_def ex_json_def json_get_string_def ex_env_api_def js_cstring_def c_str_def Let_def)
  ultimately show ?thesis
    using handle_request_accounts [of server_init ex_world ex_engine ex_json "''exit''"] by auto
qed

text \<open>An environment whose id is 300 quotation marks.\<close>

theorem list_envs_overflow_iff_witness:
  "\<exists>sv'. handle_list_envs ex_world None (server_init\<lparr>sv_mgr := ex_mgr\<lparr>em_environments :=
       [ex_js_env\<lparr>je_env_id := replicate 300 (CHR 0x22)\<rparr>]\<rparr>\<rparr>) = Some sv' \<and> sv_status sv' = Overflowed"
proof -
  let ?sv = "server_init\<lparr>sv_mgr := ex_mgr\<lparr>em_environments := [ex_js_env\<lparr>je_env_id := replicate 300 (CHR 0x22)\<rparr>]\<rparr>\<rparr>"
  have "length (json_body (replicate n (CHR 0x22))) = 2 * n" for n by (induction n) (simp_all add: json_escape_char_def)
  then have "254 + sum_list (map (\<lambda>x. length x + 5) (env_ids (sv_mgr ?sv))) < sum_list (map (\<lambda>x. length (json_body x)) (env_ids (sv_mgr ?sv)))"
    by simp
  moreover have "\<forall>n. w_malloc_ok ex_world n" by (simp add: ex_world_def)
  ultimately show ?thesis using list_envs_overflow_iff [of ex_world None ?sv] by auto
qed

end
