(* ===== verification/System.thy ===== *)
theory System
  imports Server
begin

text \<open>
  The whole program: the main loop of \<^verbatim>\<open>src/main.c\<close>, the reader thread and the environments' threads, as a step relation.
  The threads meet at the queue of lines, the queues of requests, the cache and the output; a step is one
  iteration of the reader, one turn of the main loop's body for one line (or its end of input), or one step of an environment's
  thread, which takes at most one request or runs one round of jobs.  Each step may find another world, so that the readings of
  the clock, the outcomes of system calls and what the fetch threads do are arbitrary.  \<open>sy_lines\<close> lists the lines handled so far.
\<close>

section \<open>State and steps\<close>

record ('v, 'h) system =
  sy_reader :: line_reader
  sy_stdin :: stdin_reader
  sy_server :: "('v, 'h) server"
  sy_lines :: "string list"

definition system_init :: "string \<Rightarrow> ('v, 'h) system" where
  "system_init input =
     \<lparr>sy_reader = reader_start input, sy_stdin = stdin_reader_init, sy_server = server_init, sy_lines = []\<rparr>"

text \<open>
  The start of \<^verbatim>\<open>main\<close>: the runtime and the context for parsing JSON, then the reader thread.  Where one
  of them cannot be made the program ends with exit code 1 before it has read anything.
\<close>

definition main_start :: "bool \<Rightarrow> bool \<Rightarrow> bool \<Rightarrow> string \<Rightarrow> nat + ('v, 'h) system" where
  "main_start new_runtime new_context thread_created input =
     (if \<not> new_runtime then Inl 1
      else if \<not> new_context then Inl 1
      else if \<not> thread_created then Inl 1
      else Inr (system_init input))"

text \<open>The end of \<^verbatim>\<open>main\<close>: every environment is stopped and freed, then the cache.\<close>

definition main_cleanup ::
    "host_world \<Rightarrow> ('v, 'h) engine \<Rightarrow> ('v, 'h) server \<Rightarrow> ('v, 'h) server option" where
  "main_cleanup w eng sv =
     (case env_manager_free w eng (sv_pc sv) (Some (sv_cache sv)) (sv_mgr sv) of
        None \<Rightarrow> None
      | Some (ps, cache, mgr) \<Rightarrow>
          Some (sv\<lparr>sv_mgr := mgr, sv_cache := bc_free (case cache of Some c \<Rightarrow> c | None \<Rightarrow> sv_cache sv),
            sv_out := sv_out sv @ concat (map (\<lambda>(e, p). drop (length (je_out e)) (je_out (fst p))) (zip (em_environments (sv_mgr sv)) ps)),
            sv_dropped := sv_dropped sv @ concat (map (\<lambda>p. rq_contents (je_requests (fst p))) ps),
            sv_status := Exited\<rparr>))"

text \<open>
  The main thread: it takes the next line and handles it; where there is none it leaves the loop at the end
  of the input, and otherwise waits and reads at most 64 bytes from the pipe.
\<close>

definition main_loop_step ::
    "host_world \<Rightarrow> ('v, 'h) engine \<Rightarrow> 'j json_reader \<Rightarrow> ('v, 'h) system \<Rightarrow> ('v, 'h) system option" where
  "main_loop_step w eng jr s =
     (case stdin_reader_pop (sy_stdin s) of
        (Some line, sr) \<Rightarrow>
          map_option (\<lambda>sv. s\<lparr>sy_stdin := sr, sy_server := sv, sy_lines := sy_lines s @ [line]\<rparr>)
            (handle_request w eng jr line (sy_server s))
      | (None, sr) \<Rightarrow>
          if sr_eof sr \<and> sr_lines sr = [] then
            map_option (\<lambda>sv. s\<lparr>sy_server := sv\<rparr>) (main_cleanup w eng (sy_server s))
          else Some (s\<lparr>sy_stdin := sr\<lparr>sr_pipe := drop 64 (sr_pipe sr)\<rparr>\<rparr>))"

text \<open>A step of the thread of the environment at position \<open>k\<close>.\<close>

definition env_thread_step ::
    "host_world \<Rightarrow> ('v, 'h) engine \<Rightarrow> nat \<Rightarrow> ('v, 'h) server \<Rightarrow> ('v, 'h) server option" where
  "env_thread_step w eng k sv =
     (let e = em_environments (sv_mgr sv) ! k in
      case loop_step w eng (sv_pc sv (je_env_id e), Some (sv_cache sv), e) of
        None \<Rightarrow> None
      | Some (handled, pc, cache, e') \<Rightarrow>
          Some (sv\<lparr>sv_mgr := (sv_mgr sv)\<lparr>em_environments := (em_environments (sv_mgr sv))[k := e']\<rparr>,
            sv_cache := (case cache of Some c \<Rightarrow> c | None \<Rightarrow> sv_cache sv),
            sv_out := sv_out sv @ drop (length (je_out e)) (je_out e'),
            sv_pc := (sv_pc sv)(je_env_id e := pc)\<rparr>))"

fun env_thread_steps ::
    "nat \<Rightarrow> host_world \<Rightarrow> ('v, 'h) engine \<Rightarrow> nat \<Rightarrow> ('v, 'h) server \<Rightarrow> ('v, 'h) server option" where
  "env_thread_steps 0 w eng k sv = Some sv"
| "env_thread_steps (Suc n) w eng k sv = Option.bind (env_thread_step w eng k sv) (env_thread_steps n w eng k)"

text \<open>The worlds a step may find: the digest function is the same throughout a run.\<close>

definition world_of :: "(byte list \<Rightarrow> byte list) option \<Rightarrow> host_world \<Rightarrow> bool" where
  "world_of md w \<longleftrightarrow> world_ok w \<and> w_sha256 w = md \<and> (\<forall>k. w_now_ms w k < INT64_MAX)"

inductive system_step :: "(byte list \<Rightarrow> byte list) option \<Rightarrow> ('v, 'h) engine \<Rightarrow> 'j json_reader \<Rightarrow> ('v, 'h) system \<Rightarrow> ('v, 'h) system \<Rightarrow> bool"
  for md eng jr where
  step_reader:
    "sv_status (sy_server s) = Serving \<Longrightarrow> stdin_thread_step (sy_reader s, sy_stdin s) = Some (rd, sr) \<Longrightarrow>
     system_step md eng jr s (s\<lparr>sy_reader := rd, sy_stdin := sr\<rparr>)"
| step_main:
    "sv_status (sy_server s) = Serving \<Longrightarrow> world_of md w \<Longrightarrow> main_loop_step w eng jr s = Some s' \<Longrightarrow>
     system_step md eng jr s s'"
| step_env:
    "sv_status (sy_server s) = Serving \<Longrightarrow> world_of md w \<Longrightarrow> k < length (em_environments (sv_mgr (sy_server s))) \<Longrightarrow>
     env_thread_step w eng k (sy_server s) = Some sv \<Longrightarrow> system_step md eng jr s (s\<lparr>sy_server := sv\<rparr>)"

inductive reachable :: "(byte list \<Rightarrow> byte list) option \<Rightarrow> ('v, 'h) engine \<Rightarrow> 'j json_reader \<Rightarrow> string \<Rightarrow> ('v, 'h) system \<Rightarrow> bool"
  for md eng jr input where
  reach_init: "reachable md eng jr input (system_init input)"
| reach_step: "reachable md eng jr input s \<Longrightarrow> system_step md eng jr s s' \<Longrightarrow> reachable md eng jr input s'"

lemma main_start_reachable: "main_start rt ctx thr input = Inr s \<Longrightarrow> reachable md eng jr input s"
  by (auto simp: main_start_def reach_init split: if_splits)

section \<open>Invariant\<close>

lemma world_of_ok: "world_of md w \<Longrightarrow> world_ok w"
  by (simp add: world_of_def)

definition system_inv :: "'j json_reader \<Rightarrow> string \<Rightarrow> ('v, 'h) system \<Rightarrow> bool" where
  "system_inv jr input s \<longleftrightarrow>
     stdin_inv (sy_reader s, sy_stdin s) \<and>
     sy_lines s @ sr_lines (sy_stdin s) @ unread (sy_reader s) = reader_lines [] input \<and>
     mgr_inv (sv_mgr (sy_server s)) \<and> (\<forall>i. sv_pc (sy_server s) i \<noteq> Stopped) \<and>
     list_all response_wf (sv_out (sy_server s)) \<and>
     (sv_status (sy_server s) = Overflowed \<or> balance (sy_server s) = mset (map (request_id jr) (sy_lines s)))"

lemma system_inv_init: "system_inv jr input (system_init input)"
  using stdin_inv_start [of input] mgr_inv_init
  by (simp add: system_inv_def system_init_def server_init_def balance_def queued_def dropped_def
      reader_start_def stdin_reader_init_def) (simp add: env_manager_init_def)

text \<open>A step of an environment's thread keeps the balance.\<close>

lemma env_thread_step_spec:
  assumes "mgr_inv (sv_mgr sv)" and "world_ok w" and k: "k < length (em_environments (sv_mgr sv))"
    and "\<forall>i. sv_pc sv i \<noteq> Stopped"
  shows "\<exists>sv'. env_thread_step w eng k sv = Some sv' \<and> mgr_inv (sv_mgr sv') \<and> balance sv' = balance sv \<and>
    sv_status sv' = sv_status sv \<and> sends sv sv' \<and> (\<forall>i. sv_pc sv' i \<noteq> Stopped)"
proof -
  let ?e = "em_environments (sv_mgr sv) ! k"
  let ?pc = "sv_pc sv (je_env_id ?e)"
  have "?e \<in> set (em_environments (sv_mgr sv))" using k by simp
  with assms(1) have e: "env_inv ?e" "je_running ?e" "je_thread ?e = LoopThread" by (auto simp: mgr_inv_def)
  obtain hs pc cache e' where s: "loop_step w eng (?pc, Some (sv_cache sv), ?e) = Some (hs, pc, cache, e')" "env_inv e'"
      "serves w hs hs ?e e'" by (rule loop_step_serves [OF e(1) world_ok_D(1) [OF assms(2)]])
  obtain out where o: "env_runs ?e out e'" by (rule serves_runs [OF s(3) world_ok_D(2) [OF assms(2)]])
  have f: "je_env_id e' = je_env_id ?e" "je_running e'" "je_thread e' = LoopThread" using s(3) e by (simp_all add: serves_def)
  have "pc \<noteq> Stopped" using assms(4) e(2) by (intro loop_step_goes_on [OF s(1)]) auto
  define sv' where "sv' = sv\<lparr>sv_mgr := (sv_mgr sv)\<lparr>em_environments := (em_environments (sv_mgr sv))[k := e']\<rparr>,
      sv_cache := (case cache of Some c \<Rightarrow> c | None \<Rightarrow> sv_cache sv), sv_out := sv_out sv @ out,
      sv_pc := (sv_pc sv)(je_env_id ?e := pc)\<rparr>"
  have "env_thread_step w eng k sv = Some sv'"
    using s(1) o by (simp add: env_thread_step_def sv'_def Let_def env_runs_def)
  moreover have "mgr_inv (sv_mgr sv')"
    unfolding sv'_def using replace_env [OF assms(1) k f(1) s(2) f(2,3)] by simp
  moreover have "balance sv' = balance sv"
    using wk.total_runs [OF k o] by (simp add: balance_def queued_total sv'_def dropped_def)
  moreover have "sends sv sv'" using runs_wf [OF o] by (simp add: sends_def sv'_def)
  ultimately show ?thesis using assms(4) \<open>pc \<noteq> Stopped\<close> by (simp add: sv'_def)
qed

text \<open>The steps of one thread are the steps of its loop.\<close>

lemma env_thread_steps_loop:
  assumes "k < length (em_environments (sv_mgr sv))"
    and "loop_steps n w eng (sv_pc sv (je_env_id (em_environments (sv_mgr sv) ! k)), Some (sv_cache sv), em_environments (sv_mgr sv) ! k) =
      Some (hs, pc, cache, e')"
    and "mgr_inv (sv_mgr sv)" and "world_ok w" and "\<forall>i. sv_pc sv i \<noteq> Stopped"
  shows "\<exists>sv'. env_thread_steps n w eng k sv = Some sv' \<and> em_environments (sv_mgr sv') ! k = e' \<and> sv_pc sv' (je_env_id e') = pc"
  using assms
proof (induction n arbitrary: sv hs)
  case (Suc n)
  let ?e = "em_environments (sv_mgr sv) ! k"
  from Suc.prems(2) obtain hs1 pc1 cache1 e1 hs2 where
    s: "loop_step w eng (sv_pc sv (je_env_id ?e), Some (sv_cache sv), ?e) = Some (hs1, pc1, cache1, e1)"
      "loop_steps n w eng (pc1, cache1, e1) = Some (hs2, pc, cache, e')"
    by (auto split: option.splits)
  from loop_step_cache [OF s(1)] obtain c1 where c1: "cache1 = Some c1" by blast
  have inv: "env_inv ?e" using Suc.prems(1,3) by (simp add: mgr_inv_def)
  have id: "je_env_id e1 = je_env_id ?e"
    using loop_step_serves [OF inv world_ok_D(1) [OF Suc.prems(4)], of eng "sv_pc sv (je_env_id ?e)" "Some (sv_cache sv)"] s(1)
    by (auto simp: serves_def)
  from env_thread_step_spec [OF Suc.prems(3,4,1,5), of eng] obtain sv1 where
    t: "env_thread_step w eng k sv = Some sv1" "mgr_inv (sv_mgr sv1)" "\<forall>i. sv_pc sv1 i \<noteq> Stopped" by blast
  then have "em_environments (sv_mgr sv1) = (em_environments (sv_mgr sv))[k := e1]" "sv_cache sv1 = c1"
      "sv_pc sv1 (je_env_id ?e) = pc1"
    using s(1) c1 by (auto simp: env_thread_step_def Let_def)
  with Suc.IH [of sv1 hs2] Suc.prems(1,4) s(2) t id c1 show ?case by simp
qed auto

lemma env_thread_empties:
  assumes "mgr_inv (sv_mgr sv)" and "world_ok w" and k: "k < length (em_environments (sv_mgr sv))"
    and "\<forall>i. sv_pc sv i \<noteq> Stopped"
  shows "\<exists>n sv'. env_thread_steps n w eng k sv = Some sv' \<and> rq_contents (je_requests (em_environments (sv_mgr sv') ! k)) = []"
proof -
  let ?e = "em_environments (sv_mgr sv) ! k"
  have "env_inv ?e" "je_running ?e" using assms(1) k by (simp_all add: mgr_inv_def)
  from reaches_empty [OF this(1) world_ok_D(1,2) [OF assms(2)] _ this(2), of "sv_pc sv (je_env_id ?e)" eng "Some (sv_cache sv)"] assms(4)
  obtain n hs cache' e' where "loop_steps n w eng (sv_pc sv (je_env_id ?e), Some (sv_cache sv), ?e) = Some (hs, LoopHead, cache', e')"
    "rq_contents (je_requests e') = []" by blast
  with env_thread_steps_loop [OF k this(1) assms(1,2,4)] show ?thesis by blast
qed

text \<open>The end of the program.\<close>

lemma runs_wf_all:
  "list_all2 (\<lambda>e (out, e'). env_runs e out e') es ps \<Longrightarrow> list_all response_wf (concat (map fst ps))"
  by (induction rule: list_all2_induct) (auto dest!: runs_wf)

lemma main_cleanup_spec:
  assumes "mgr_inv (sv_mgr sv)" and "world_ok w"
  shows "\<exists>sv'. main_cleanup w eng sv = Some sv' \<and> mgr_inv (sv_mgr sv') \<and> balance sv' = balance sv \<and> sends sv sv' \<and>
    em_environments (sv_mgr sv') = [] \<and> sv_status sv' = Exited \<and> sv_pc sv' = sv_pc sv"
proof -
  let ?es = "em_environments (sv_mgr sv)"
  have "\<forall>e \<in> set ?es. env_inv e" using assms(1) by (simp add: mgr_inv_def)
  from stop_all_spec [OF this world_ok_D(1) [OF assms(2)], of eng "sv_pc sv" "Some (sv_cache sv)"] obtain ps cache where
    p: "stop_all w eng (sv_pc sv) (Some (sv_cache sv)) ?es = Some (ps, cache)"
      "list_all2 (\<lambda>e p. \<exists>handled out. winds_up (sv_pc sv (je_env_id e)) handled e out (fst p)) ?es ps" by blast
  define runs where "runs = map (\<lambda>(e, p). (drop (length (je_out e)) (je_out (fst p)), fst p)) (zip ?es ps)"
  have "list_all2 (\<lambda>e (out, e'). env_runs e out e') ?es runs"
    using p(2) unfolding runs_def
    by (induction rule: list_all2_induct) (auto dest!: winds_up_out)
  moreover have "map snd runs = map fst ps" using p(2) unfolding runs_def by (induction rule: list_all2_induct) auto
  moreover have "concat (map fst runs) = concat (map (\<lambda>(e, p). drop (length (je_out e)) (je_out (fst p))) (zip ?es ps))"
    by (simp add: runs_def split_def comp_def)
  moreover have "wk.total (map fst ps) = mset (map rq_request_id (concat (map (\<lambda>p. rq_contents (je_requests (fst p))) ps)))"
    by (induction ps) (simp_all, simp add: env_pending_def)
  ultimately have total: "replied (concat (map (\<lambda>(e, p). drop (length (je_out e)) (je_out (fst p))) (zip ?es ps))) +
      mset (map rq_request_id (concat (map (\<lambda>p. rq_contents (je_requests (fst p))) ps))) = wk.total ?es"
    and wf: "list_all response_wf (concat (map (\<lambda>(e, p). drop (length (je_out e)) (je_out (fst p))) (zip ?es ps)))"
    using wk.total_retire_all [of ?es runs] runs_wf_all [of ?es runs] by simp_all
  have "mgr_inv ((sv_mgr sv)\<lparr>em_environments := []\<rparr>)" using assms(1) by (simp add: mgr_inv_def)
  with p(1) total wf show ?thesis
    by (simp add: main_cleanup_def env_manager_free_def balance_def queued_total dropped_def sends_def)
qed

text \<open>Handling a line leaves no thread out of its loop, and ends the program only on request or by the overflow.\<close>

definition line_type :: "'j json_reader \<Rightarrow> string \<Rightarrow> string option" where
  "line_type jr line = Option.bind (jr_parse jr line) (\<lambda>req. json_get_string (jr_api jr) req ''type'')"

lemma handle_request_effects:
  assumes "handle_request w eng jr line sv = Some sv'"
  shows "sv_pc sv' = sv_pc sv \<or> (\<exists>env_id. sv_pc sv' = (sv_pc sv)(env_id := LoopHead))"
    and "sv_status sv' = sv_status sv \<or> sv_status sv' = Exited \<and> line_type jr line = Some ''exit'' \<or>
      sv_status sv' = Overflowed \<and> line_type jr line = Some ''list_envs''"
  using assms
  by (auto simp: handle_request_def handle_typed_def handle_create_env_def handle_destroy_env_def handle_list_envs_def
      handle_eval_def handle_eval_file_def reply_def line_type_def Let_def split: option.splits prod.splits if_splits)

lemma handle_request_pc:
  "handle_request w eng jr line sv = Some sv' \<Longrightarrow> \<forall>i. sv_pc sv i \<noteq> Stopped \<Longrightarrow> sv_pc sv' i \<noteq> Stopped"
  using handle_request_effects(1) [of w eng jr line sv sv'] by (auto split: if_splits)

text \<open>What a turn of the main loop achieves: a line is handled, or at the end of the input everything is shut down.\<close>

definition ended_by :: "'j json_reader \<Rightarrow> string \<Rightarrow> ('v, 'h) system \<Rightarrow> bool" where
  "ended_by jr line s \<longleftrightarrow> sv_status (sy_server s) = Exited \<and> line_type jr line = Some ''exit'' \<or>
     sv_status (sy_server s) = Overflowed \<and> line_type jr line = Some ''list_envs''"

definition shut_down :: "('v, 'h) system \<Rightarrow> bool" where
  "shut_down s \<longleftrightarrow> sv_status (sy_server s) = Exited \<and> em_environments (sv_mgr (sy_server s)) = [] \<and>
     sr_lines (sy_stdin s) = [] \<and> sr_eof (sy_stdin s)"

definition main_progress :: "'j json_reader \<Rightarrow> ('v, 'h) system \<Rightarrow> ('v, 'h) system \<Rightarrow> bool" where
  "main_progress jr s s' \<longleftrightarrow> sy_reader s' = sy_reader s \<and>
     (case sr_lines (sy_stdin s) of
        l # ls \<Rightarrow> sy_lines s' = sy_lines s @ [l] \<and> sr_lines (sy_stdin s') = ls \<and>
          (sv_status (sy_server s') = Serving \<or> ended_by jr l s')
      | [] \<Rightarrow> if sr_eof (sy_stdin s) then shut_down s' else sv_status (sy_server s') = Serving)"

lemma main_step_spec:
  assumes "system_inv jr input s" and "world_ok w" and "sv_status (sy_server s) = Serving"
  shows "\<exists>s'. main_loop_step w eng jr s = Some s' \<and> system_inv jr input s' \<and> main_progress jr s s'"
proof -
  have inv: "stdin_inv (sy_reader s, sy_stdin s)" "mgr_inv (sv_mgr (sy_server s))"
      "sy_lines s @ sr_lines (sy_stdin s) @ unread (sy_reader s) = reader_lines [] input"
      "balance (sy_server s) = mset (map (request_id jr) (sy_lines s))"
      "\<forall>i. sv_pc (sy_server s) i \<noteq> Stopped" "list_all response_wf (sv_out (sy_server s))"
    using assms(1,3) by (auto simp: system_inv_def)
  from inv(1) show ?thesis
  proof (cases rule: pop_step_inv)
    case empty
    show ?thesis
    proof (cases "sr_eof (sy_stdin s)")
      case True
      from main_cleanup_spec [OF inv(2) assms(2), of eng] obtain sv where
        c: "main_cleanup w eng (sy_server s) = Some sv" "mgr_inv (sv_mgr sv)" "balance sv = balance (sy_server s)"
          "sends (sy_server s) sv" "em_environments (sv_mgr sv) = []" "sv_status sv = Exited" "sv_pc sv = sv_pc (sy_server s)" by blast
      with True empty inv show ?thesis by (auto simp: main_loop_step_def system_inv_def sends_def main_progress_def shut_down_def)
    next
      case False
      with empty inv assms(3) show ?thesis
        by (simp add: main_loop_step_def system_inv_def stdin_inv_def sr_inv_def main_progress_def)
    qed
  next
    case (line l sr)
    from handle_line_accounted [OF inv(2) assms(2), of eng jr l] obtain sv where
      h: "handle_request w eng jr l (sy_server s) = Some sv" "accounted (request_id jr l) (sy_server s) sv" by blast
    with line inv handle_request_pc [OF h(1) inv(5)] handle_request_effects(2) [OF h(1)] assms(3) show ?thesis
      by (auto simp: main_loop_step_def system_inv_def sends_def accounts_def main_progress_def ended_by_def)
  qed
qed

lemma system_step_inv:
  assumes "system_step md eng jr s s'" and "system_inv jr input s"
  shows "system_inv jr input s'"
  using assms(1)
proof cases
  case (step_reader rd sr)
  have "stdin_inv (sy_reader s, sy_stdin s)" using assms(2) by (simp add: system_inv_def)
  then obtain rd' sr' where "stdin_thread_step (sy_reader s, sy_stdin s) = Some (rd', sr')" "stdin_inv (rd', sr')"
    "sr_lines sr' @ unread rd' = sr_lines (sy_stdin s) @ unread (sy_reader s)" by (rule thread_step_inv)
  with step_reader assms(2) show ?thesis by (simp add: system_inv_def)
next
  case (step_main w)
  with main_step_spec [OF assms(2) world_of_ok [OF step_main(2)] step_main(1), of eng] show ?thesis by auto
next
  case (step_env w k sv)
  have "mgr_inv (sv_mgr (sy_server s))" "\<forall>i. sv_pc (sy_server s) i \<noteq> Stopped" using assms(2) by (simp_all add: system_inv_def)
  from env_thread_step_spec [OF this(1) world_of_ok [OF step_env(3)] step_env(4) this(2), of eng] step_env assms(2) show ?thesis
    by (auto simp: system_inv_def sends_def)
qed

lemma reachable_inv:
  assumes "reachable md eng jr input s"
  shows "system_inv jr input s"
  using assms
proof (induction rule: reachable.induct)
  case reach_init
  show ?case by (rule system_inv_init)
next
  case (reach_step s s')
  then show ?case by (blast intro: system_step_inv)
qed

section \<open>The program can finish\<close>

text \<open>From every state the reader can read to the end of its input, and then the main thread can handle every line and leave.\<close>

lemma reader_finishes:
  assumes "system_inv jr input s" and "sv_status (sy_server s) = Serving"
  shows "\<exists>s'. (system_step md eng jr)\<^sup>*\<^sup>* s s' \<and> system_inv jr input s' \<and> sy_server s' = sy_server s \<and> sr_eof (sy_stdin s')"
  using assms
proof (induction "length (rd_input (sy_reader s))" arbitrary: s rule: less_induct)
  case less
  then have inv: "stdin_inv (sy_reader s, sy_stdin s)" by (simp add: system_inv_def)
  then obtain rd sr where t: "stdin_thread_step (sy_reader s, sy_stdin s) = Some (rd, sr)" "stdin_inv (rd, sr)"
    "rd_exited rd \<or> length (rd_input rd) < length (rd_input (sy_reader s))" by (rule thread_step_inv)
  let ?s = "s\<lparr>sy_reader := rd, sy_stdin := sr\<rparr>"
  have step: "system_step md eng jr s ?s" using less.prems(2) t(1) by (rule step_reader)
  have inv': "system_inv jr input ?s" using step less.prems(1) by (rule system_step_inv)
  show ?case
  proof (cases "rd_exited rd")
    case True
    with t(2) have "sr_eof sr" by (simp add: stdin_inv_def)
    with step inv' show ?thesis by (intro exI [of _ ?s]) auto
  next
    case False
    with t(3) less.hyps [of ?s] inv' less.prems(2) obtain s' where
      "(system_step md eng jr)\<^sup>*\<^sup>* ?s s'" "system_inv jr input s'" "sy_server s' = sy_server s" "sr_eof (sy_stdin s')" by auto
    with step show ?thesis by (meson converse_rtranclp_into_rtranclp)
  qed
qed

lemma main_finishes:
  assumes "system_inv jr input s" and "sv_status (sy_server s) = Serving" and "sr_eof (sy_stdin s)" and "world_of md w"
  shows "\<exists>s'. (system_step md eng jr)\<^sup>*\<^sup>* s s' \<and> system_inv jr input s' \<and>
    (shut_down s' \<or> (\<exists>pre l. sy_lines s' = pre @ [l] \<and> ended_by jr l s'))"
  using assms(1-3)
proof (induction "length (sr_lines (sy_stdin s))" arbitrary: s rule: less_induct)
  case less
  from main_step_spec [OF less.prems(1) world_of_ok [OF assms(4)] less.prems(2), of eng] obtain s1 where
    m: "main_loop_step w eng jr s = Some s1" "system_inv jr input s1" "main_progress jr s s1" by blast
  have step: "system_step md eng jr s s1" using less.prems(2) assms(4) m(1) by (rule step_main)
  have eof: "sr_eof (sy_stdin s1)" using less.prems(1,3) m(2,3) by (auto simp: system_inv_def stdin_inv_def main_progress_def)
  show ?case
  proof (cases "shut_down s1 \<or> (\<exists>pre l. sy_lines s1 = pre @ [l] \<and> ended_by jr l s1)")
    case True
    with step m(2) show ?thesis by blast
  next
    case False
    with m(3) less.prems(3) have "length (sr_lines (sy_stdin s1)) < length (sr_lines (sy_stdin s))" "sv_status (sy_server s1) = Serving"
      by (auto simp: main_progress_def split: list.splits)
    from less.hyps [OF this(1) m(2) this(2) eof] step show ?thesis by (meson converse_rtranclp_into_rtranclp)
  qed
qed

end
