(* ===== verification/Output.thy ===== *)
theory Output
  imports System
begin

text \<open>
  What a client sees on standard output.  Every response goes through \<^verbatim>\<open>send_json_response\<close> of \<^verbatim>\<open>src/cqjs.c\<close>, whose mutex
  keeps the lines of different threads apart; \<open>write_responses\<close> sends a list of responses in turn and stops at the first that does
  not fit its buffer.  A client needs the id and the type of a line; both are written before anything a script
  can choose, so \<open>response_head\<close> reads them from the start of the line, whatever raw data follows.
\<close>

section \<open>Writing and reading responses\<close>

fun write_responses :: "(nat \<Rightarrow> bool) \<Rightarrow> response list \<Rightarrow> string \<Rightarrow> send_outcome" where
  "write_responses malloc_ok [] out = Sent out"
| "write_responses malloc_ok (r # rs) out =
     (case send_json_response malloc_ok r out of
        Sent out' \<Rightarrow> write_responses malloc_ok rs out'
      | failed \<Rightarrow> failed)"

text \<open>A member whose value is a string, and what follows it.\<close>

definition json_read_member :: "string \<Rightarrow> ((string \<times> string) \<times> string) option" where
  "json_read_member s =
     (case json_read_string s of
        Some (k, c # s1) \<Rightarrow>
          if c = CHR '':'' then map_option (\<lambda>(v, rest). ((k, v), rest)) (json_read_string s1) else None
      | _ \<Rightarrow> None)"

text \<open>The id, if there is one, and the type of a line.\<close>

definition response_head :: "string \<Rightarrow> (string option \<times> string) option" where
  "response_head l =
     (case json_read_member (tl l) of
        None \<Rightarrow> None
      | Some ((k, v), rest) \<Rightarrow>
          if take 1 l \<noteq> ''{'' then None
          else if k = ''type'' then Some (None, v)
          else if k = ''id'' \<and> take 1 rest = '','' then
            (case json_read_member (tl rest) of
               Some ((k', v'), _) \<Rightarrow> if k' = ''type'' then Some (Some v, v') else None
             | None \<Rightarrow> None)
          else None)"

text \<open>Every line but an event answers a request.\<close>

definition answer_line :: "string \<Rightarrow> bool" where
  "answer_line l = (case response_head l of Some (_, ty) \<Rightarrow> ty \<noteq> ''event'' | None \<Rightarrow> False)"

text \<open>An empty id is not written.\<close>

definition shown_id :: "string option \<Rightarrow> string option" where
  "shown_id i = (if i = Some [] then None else i)"

abbreviation written_id :: "response \<Rightarrow> string option" where
  "written_id r \<equiv> shown_id (r_id r)"

text \<open>The ids a client finds answered.\<close>

definition answered_ids :: "string list \<Rightarrow> string option multiset" where
  "answered_ids ls = mset (map (\<lambda>l. fst (the (response_head l))) (filter answer_line ls))"

section \<open>Lemmas\<close>

lemma json_read_member_quoted:
  "list_all (\<lambda>c. json_escape_char c = [c]) k \<Longrightarrow>
   json_read_member (json_member k (quoted (json_body v)) @ rest) = Some ((k, v), rest)"
  by (simp add: json_member_plain json_read_member_def json_read_quoted)

lemma response_head_text:
  assumes "\<And>n. malloc_ok n"
  shows "response_head (response_text malloc_ok r) = Some (written_id r, r_type r)"
proof -
  have keys: "list_all (\<lambda>c. json_escape_char c = [c]) ''id''" "list_all (\<lambda>c. json_escape_char c = [c]) ''type''"
    using response_keys_plain by simp_all
  note reads = json_read_member_quoted [OF keys(1)] json_read_member_quoted [OF keys(2)]
  obtain rest where t: "response_text malloc_ok r = ''{'' @
      (case r_id r of Some (c # cs) \<Rightarrow> json_member ''id'' (quoted (json_body (c # cs))) @ '','' | _ \<Rightarrow> []) @
      json_member ''type'' (quoted (json_body (r_type r))) @ rest"
    unfolding response_text_def Let_def json_escape_Some [of malloc_ok, OF assms] by blast
  show ?thesis
  proof (cases "r_id r = None \<or> r_id r = Some []")
    case True
    then show ?thesis unfolding t using reads(2) [of "r_type r" rest] by (auto simp: response_head_def shown_id_def)
  next
    case False
    then obtain c cs where i: "r_id r = Some (c # cs)" by (cases "r_id r") (auto simp: neq_Nil_conv)
    let ?tail = "json_member ''type'' (quoted (json_body (r_type r))) @ rest"
    have "response_text malloc_ok r = CHR ''{'' # json_member ''id'' (quoted (json_body (c # cs))) @ CHR '','' # ?tail"
      unfolding t i by simp
    then show ?thesis
      using reads(1) [of "c # cs" "CHR '','' # ?tail"] reads(2) [of "r_type r" rest]
      by (simp add: response_head_def shown_id_def i del: concat.simps list.map)
  qed
qed

lemma answer_line_text:
  assumes "\<And>n. malloc_ok n"
  shows "answer_line (response_text malloc_ok r) \<longleftrightarrow> r_type r \<noteq> ''event''"
  by (simp add: answer_line_def response_head_text [of malloc_ok, OF assms])

lemma write_responses_all:
  assumes "\<And>n. malloc_ok n" and "\<forall>r \<in> set rs. length (response_text malloc_ok r) < response_cap r + 256"
  shows "write_responses malloc_ok rs out = Sent (out @ concat (map (\<lambda>l. l @ [CHR 0x0A]) (map (response_text malloc_ok) rs)))"
  using assms(2)
  by (induction rs arbitrary: out) (auto simp: send_json_response_def assms(1) cqjs_send_response_def Let_def)

lemma write_responses_lines:
  assumes "\<And>n. malloc_ok n" and "\<forall>r \<in> set rs. length (response_text malloc_ok r) < response_cap r + 256"
    and "\<forall>r \<in> set rs. raw_one_line r"
  shows "\<exists>out. write_responses malloc_ok rs [] = Sent out \<and> split_lines [] out = (map (response_text malloc_ok) rs, [])"
proof -
  have "\<forall>l \<in> set (map (response_text malloc_ok) rs). CHR 0x0A \<notin> set l"
    using response_text_no_newline [of malloc_ok, OF assms(1)] assms(3) by auto
  from split_lines_concat [OF this] write_responses_all [of malloc_ok, OF assms(1,2), of "[]"] show ?thesis
    by (simp only: append_Nil send_outcome.inject simp_thms ex_simps)
qed

lemma answered_ids_replied:
  assumes "\<And>n. malloc_ok n"
  shows "answered_ids (map (response_text malloc_ok) rs) = image_mset shown_id (replied rs)"
  by (simp add: answered_ids_def replied_def filter_map comp_def multiset.map_comp answer_line_text [of malloc_ok, OF assms]
      response_head_text [of malloc_ok, OF assms])

text \<open>Only an event can hold a line feed that is not escaped.\<close>

lemma response_wf_line:
  assumes "response_wf r" and "r_type r \<noteq> ''event''"
  shows "raw_one_line r"
  using assms by (auto simp: response_wf_def error_wf_def result_wf_def event_wf_def raw_one_line_def opt_text_def)

end
