(* ===== verification/Example_Run.thy ===== *)
theory Example_Run
  imports System
begin

text \<open>A run of the program on a concrete input, which the theorems about reachable states are tried on.\<close>

section \<open>The run\<close>

text \<open>
  A run in which the line \<open>c\<close> creates the environment \<open>a\<close> and the line \<open>v\<close> asks it to evaluate \<open>x\<close>, up to the place where
  the environment's thread takes the request.
\<close>

definition run_json :: "string json_reader" where
  "run_json = \<lparr>jr_parse = Some, jr_error = \<lambda>l. None,
     jr_api = ex_env_api\<lparr>js_is_undefined := (\<lambda>v. v = []), js_get_property := (\<lambda>obj key.
       if key = ''type'' then (if obj = ''c'' then ''create_env'' else ''eval'')
       else if key = ''env_id'' then ''a'' else if key = ''code'' then ''x'' else [])\<rparr>\<rparr>"

definition run_world :: host_world where
  "run_world = ex_world\<lparr>w_thread_ok := (\<lambda>_. True)\<rparr>"

abbreviation run_input :: string where
  "run_input \<equiv> [CHR ''c'', LF, CHR ''v'', LF]"

lemma run_world_of: "world_of (w_sha256 ex_world) run_world"
  using ex_env_facts(2) by (simp add: world_of_def world_ok_def run_world_def ex_world_def clock_advances_def INT64_MAX_def)

lemmas run_defs = handle_request_def handle_typed_def run_json_def json_get_string_def ex_env_api_def js_cstring_def c_str_def
  Let_def reply_def

definition run_request :: env_request where
  "run_request = \<lparr>rq_request_id = None, rq_type = ''eval'', rq_code = Some ''x'', rq_filename = Some ''<eval>'', rq_path = None\<rparr>"

lemma run_created:
  obtains sv e where "handle_request run_world ex_engine run_json ''c'' server_init = Some sv" "em_environments (sv_mgr sv) = [e]"
    "je_env_id e = ''a''" "sv_pc sv ''a'' = LoopHead" "sv_status sv = Serving" "je_running e"
    "rq_contents (je_requests e) = []" "rq_inv (je_requests e)"
proof -
  have "\<exists>sv e. handle_request run_world ex_engine run_json ''c'' server_init = Some sv \<and> em_environments (sv_mgr sv) = [e] \<and>
     je_env_id e = ''a'' \<and> sv_pc sv ''a'' = LoopHead \<and> sv_status sv = Serving \<and> je_running e \<and> rq_contents (je_requests e) = [] \<and>
     rq_inv (je_requests e)"
    by (simp add: run_defs handle_create_env_def server_init_def env_create_def env_manager_init_def env_find_def
        MAX_ENVIRONMENTS_def run_world_def ex_world_def new_env_heap_def ex_engine_def run_init_code_def new_env_def ask_def rq_inv_init)
  with that show thesis by blast
qed

lemma run_submitted:
  assumes "em_environments (sv_mgr sv) = [e]" and "je_env_id e = ''a''"
  shows "handle_request run_world ex_engine run_json ''v'' sv =
    Some (sv\<lparr>sv_mgr := (sv_mgr sv)\<lparr>em_environments := [env_submit_request run_request e]\<rparr>\<rparr>)"
  using assms by (simp add: run_defs handle_eval_def submit_to_def run_request_def)

lemma run_env_step:
  assumes "reachable (w_sha256 ex_world) ex_engine run_json input s" and "sv_status (sy_server s) = Serving"
    and "em_environments (sv_mgr (sy_server s)) = [e]"
    and "loop_step run_world ex_engine (sv_pc (sy_server s) (je_env_id e), Some (sv_cache (sy_server s)), e) = Some ([], pc, Some c, e')"
  obtains s' where "reachable (w_sha256 ex_world) ex_engine run_json input s'" "sv_status (sy_server s') = Serving"
    "em_environments (sv_mgr (sy_server s')) = [e']" "sv_pc (sy_server s') (je_env_id e) = pc" "sv_cache (sy_server s') = c"
proof -
  from assms(3,4) obtain sv where sv: "env_thread_step run_world ex_engine 0 (sy_server s) = Some sv"
    "em_environments (sv_mgr sv) = [e']" "sv_pc sv (je_env_id e) = pc" "sv_cache sv = c" "sv_status sv = sv_status (sy_server s)"
    by (auto simp: env_thread_step_def Let_def)
  have "system_step (w_sha256 ex_world) ex_engine run_json s (s\<lparr>sy_server := sv\<rparr>)"
    using assms(2,3) run_world_of sv(1) by (intro step_env) simp_all
  with assms(1) have "reachable (w_sha256 ex_world) ex_engine run_json input (s\<lparr>sy_server := sv\<rparr>)" by (rule reach_step)
  with sv assms(2) show thesis by (intro that [of "s\<lparr>sy_server := sv\<rparr>"]) simp_all
qed

lemma run_read:
  "\<exists>s. reachable (w_sha256 ex_world) ex_engine run_json run_input s \<and> sr_lines (sy_stdin s) = [''c'', ''v''] \<and> sy_server s = server_init"
proof -
  let ?s0 = "system_init run_input :: (string, unit) system"
  have 0: "reachable (w_sha256 ex_world) ex_engine run_json run_input ?s0" by (rule reach_init)
  obtain rd sr where t: "stdin_thread_step (sy_reader ?s0, sy_stdin ?s0) = Some (rd, sr)" "sr_lines sr = [''c'']"
      "rd = reader_start [CHR ''v'', LF]"
    by (simp add: system_init_def reader_start_def stdin_reader_init_def stdin_thread_step_def fgets_def reader_chunk_def
        grow_cap.simps c_str_def strip_eol_def is_eol_def stdin_reader_push_def Let_def)
  obtain rd' sr' where t': "stdin_thread_step (rd, sr) = Some (rd', sr')" "sr_lines sr' = [''c'', ''v'']"
    using t(2) by (simp add: t(3) reader_start_def stdin_thread_step_def fgets_def reader_chunk_def
        grow_cap.simps c_str_def strip_eol_def is_eol_def stdin_reader_push_def Let_def)
  have srv: "sv_status (sy_server ?s0) = Serving" by (simp add: system_init_def server_init_def)
  have 1: "reachable (w_sha256 ex_world) ex_engine run_json run_input (?s0\<lparr>sy_reader := rd, sy_stdin := sr\<rparr>)"
    using 0 step_reader [OF srv t(1)] by (rule reach_step)
  have "system_step (w_sha256 ex_world) ex_engine run_json (?s0\<lparr>sy_reader := rd, sy_stdin := sr\<rparr>)
      ((?s0\<lparr>sy_reader := rd, sy_stdin := sr\<rparr>)\<lparr>sy_reader := rd', sy_stdin := sr'\<rparr>)"
    using srv t'(1) by (intro step_reader) simp_all
  with 1 have "reachable (w_sha256 ex_world) ex_engine run_json run_input (?s0\<lparr>sy_reader := rd', sy_stdin := sr'\<rparr>)"
    by (auto dest: reach_step)
  with t'(2) show ?thesis by (intro exI [of _ "?s0\<lparr>sy_reader := rd', sy_stdin := sr'\<rparr>"]) (simp add: system_init_def)
qed

lemma run_main_step:
  assumes "reachable (w_sha256 ex_world) ex_engine run_json input s" and "sv_status (sy_server s) = Serving"
    and "sr_lines (sy_stdin s) = l # ls" and "handle_request run_world ex_engine run_json l (sy_server s) = Some sv"
  obtains s' where "reachable (w_sha256 ex_world) ex_engine run_json input s'" "sy_server s' = sv" "sr_lines (sy_stdin s') = ls"
proof -
  from assms(3,4) obtain s' where m: "main_loop_step run_world ex_engine run_json s = Some s'" "sy_server s' = sv" "sr_lines (sy_stdin s') = ls"
    by (auto simp: main_loop_step_def stdin_reader_pop_def)
  have "reachable (w_sha256 ex_world) ex_engine run_json input s'"
    using assms(1) step_main [OF assms(2) run_world_of m(1)] by (rule reach_step)
  with m show thesis by (intro that)
qed

lemma run_to_request:
  "\<exists>s e. reachable (w_sha256 ex_world) ex_engine run_json run_input s \<and> sv_status (sy_server s) = Serving \<and>
     em_environments (sv_mgr (sy_server s)) = [e] \<and> je_env_id e = ''a'' \<and> sv_pc (sy_server s) ''a'' = Draining \<and> rq_contents (je_requests e) = [run_request]"
proof -
  let ?R = "reachable (w_sha256 ex_world) ex_engine run_json run_input"
  obtain s where s: "?R s" "sr_lines (sy_stdin s) = [''c'', ''v'']" "sy_server s = server_init" using run_read by blast
  obtain sv e where c: "handle_request run_world ex_engine run_json ''c'' server_init = Some sv" "em_environments (sv_mgr sv) = [e]"
    "je_env_id e = ''a''" "sv_pc sv ''a'' = LoopHead" "sv_status sv = Serving" "je_running e"
    "rq_contents (je_requests e) = []" "rq_inv (je_requests e)" by (rule run_created)
  obtain s1 where s1: "?R s1" "sy_server s1 = sv" "sr_lines (sy_stdin s1) = [''v'']"
    by (rule run_main_step [OF s(1) _ s(2)]) (use c(1) s(3) in \<open>simp_all add: server_init_def\<close>)
  define e1 where "e1 = env_submit_request run_request e"
  have e1: "je_running e1" "rq_contents (je_requests e1) = [run_request]" "je_env_id e1 = ''a''"
    using c(3,6-8) by (simp_all add: e1_def env_submit_request_def rq.push_contents)
  obtain s2 where s2: "?R s2" "sy_server s2 = sv\<lparr>sv_mgr := (sv_mgr sv)\<lparr>em_environments := [e1]\<rparr>\<rparr>"
    by (rule run_main_step [OF s1(1) _ s1(3)]) (use c(5) run_submitted [OF c(2,3)] s1(2) in \<open>simp_all add: e1_def\<close>)
  obtain s3 where s3: "?R s3" "sv_status (sy_server s3) = Serving" "em_environments (sv_mgr (sy_server s3)) = [e1]"
      "sv_pc (sy_server s3) (je_env_id e1) = Polling"
    by (rule run_env_step [OF s2(1), where e = e1 and e' = e1 and pc = Polling and c = "sv_cache sv"])
      (use s2(2) c(4,5) e1 in \<open>simp_all del: loop_step.simps add: loop_step.simps(1)\<close>)
  obtain t n where t: "tm_next_timeout_ms (env_clock run_world) (je_timer_mgr e1, je_clock e1) = (t, n)" by (rule prod.exhaust)
  define e2 where "e2 = env_drain_pipes (e1\<lparr>je_clock := n\<rparr>)"
  obtain s4 where "?R s4" "sv_status (sy_server s4) = Serving" "em_environments (sv_mgr (sy_server s4)) = [e2]"
      "sv_pc (sy_server s4) (je_env_id e1) = Draining"
    by (rule run_env_step [OF s3(1-3), where e' = e2 and pc = Draining and c = "sv_cache (sy_server s3)"])
      (use s3(4) t in \<open>simp_all add: e2_def\<close>)
  moreover have "rq_contents (je_requests e2) = [run_request]" "je_env_id e2 = ''a''"
    using e1(2,3) by (simp_all add: e2_def env_drain_pipes_def)
  ultimately show ?thesis using e1(3) by auto
qed

end
