(* ===== verification/Shared_Cache.thy ===== *)
theory Shared_Cache
  imports Example_Run
begin

text \<open>
  The bytecode cache in the running program.  All environments share the cache of \<^verbatim>\<open>src/bytecode_cache.c\<close>, and what one thread
  stores another one executes.  In every reachable state the cache holds nothing but bytes that the engine
  wrote for the sources of eval requests, each under the hash of its source, so that an eval request in any environment
  runs its own source.
\<close>

section \<open>Where the sources come from\<close>

definition line_source :: "'j json_reader \<Rightarrow> string \<Rightarrow> string option" where
  "line_source jr line =
     (if line_type jr line = Some ''eval''
      then Option.bind (jr_parse jr line) (\<lambda>req. json_get_string (jr_api jr) req ''code'') else None)"

definition sources :: "'j json_reader \<Rightarrow> string list \<Rightarrow> string set" where
  "sources jr lines = {src. \<exists>line \<in> set lines. line_source jr line = Some src}"

definition request_from :: "string set \<Rightarrow> env_request \<Rightarrow> bool" where
  "request_from S req \<longleftrightarrow> (rq_type req = ''eval'' \<longrightarrow> (\<exists>src \<in> S. rq_code req = Some src))"

definition requests_from :: "string set \<Rightarrow> ('v, 'h) js_env \<Rightarrow> bool" where
  "requests_from S e \<longleftrightarrow> (\<forall>req \<in> set (rq_contents (je_requests e)). request_from S req)"

text \<open>What the theorems need of the engine and of the digest: the hashes of the sources differ.\<close>

definition cache_laws :: "(byte list \<Rightarrow> byte list) option \<Rightarrow> ('v, 'h) engine \<Rightarrow> string set \<Rightarrow> bool" where
  "cache_laws md eng S \<longleftrightarrow> compile_law eng \<and> bytecode_law eng \<and> inj_on (\<lambda>s. bc_compute_hash md (bytes_of s)) S"

section \<open>Steps of a thread\<close>

lemma evaluate_cache:
  assumes "cache_laws md eng S" and "world_of md w" and "cache_ok eng md S c" and "request_from S req"
    and "env_evaluate w eng req (Some c) e = (jobs, cache', e')"
  obtains c' where "cache' = Some c'" "cache_ok eng md S c'"
proof (cases "rq_type req = ''eval''")
  case True
  with assms(4) obtain src where src: "rq_code req = Some src" "src \<in> S" by (auto simp: request_from_def)
  have "w_sha256 w = md" "\<forall>k. w_now_ms w k < INT64_MAX" using assms(2) by (simp_all add: world_of_def)
  with eval_cached_transparent [where eng = eng and w = w and c = c, OF _ _ _ src(2)] assms(1,3) have
    ev: "\<exists>fn0 r c' e1. eval_cached w eng src fn (Some c) e = (r, Some c', e1) \<and> evaluates w eng src fn0 e r e1 \<and>
      cache_ok eng md S c' \<and> (fn0 = fn \<or> bc_contents c (bc_compute_hash md (bytes_of src)) \<noteq> None)" for fn
    by (auto simp: cache_laws_def)
  from ev [of "case rq_filename req of Some f \<Rightarrow> f | None \<Rightarrow> ''<eval>''"] True src(1) assms(5) show thesis
    by (auto simp: env_evaluate_def intro: that)
next
  case False
  with assms(3,5) show thesis
    by (auto simp: env_evaluate_def Let_def split: if_splits option.splits prod.splits intro: that)
qed

text \<open>Without arrivals the queue is what it was.\<close>

lemma arrivals_none:
  "\<forall>k. w_arrivals w k = [] \<Longrightarrow> env_arrivals w e = ask e"
  by (simp add: env_arrivals_def)

lemma loop_step_shared:
  assumes laws: "cache_laws md eng S" and w: "world_of md w" and "cache_ok eng md S c" and "env_inv e" and "requests_from S e"
    and step: "loop_step w eng (pc, Some c, e) = Some (hs, pc', cache', e')"
  obtains c' where "cache' = Some c'" "cache_ok eng md S c'" "env_inv e'" "requests_from S e'"
proof -
  have wo: "clock_advances w" "\<forall>k. w_arrivals w k = []" using world_ok_D [OF world_of_ok [OF w]] by simp_all
  have e': "env_inv e'" "serves w hs hs e e'"
    using loop_step_serves [OF assms(4) wo(1), of eng pc "Some c"] step by auto
  have "requests_from S e'" using assms(5) serves_no_arrivals(1) [OF e'(2) wo(2)] by (simp add: requests_from_def)
  moreover have "\<exists>c'. cache' = Some c' \<and> cache_ok eng md S c'"
  proof (cases "pc = Draining \<and> rq_contents (je_requests e) \<noteq> []")
    case True
    then obtain req rest where q: "rq_contents (je_requests e) = req # rest" by (cases "rq_contents (je_requests e)") auto
    have inv: "rq_inv (je_requests e)" using assms(4) by (simp add: env_inv_def)
    obtain q' where p: "rq_pop (je_requests e) = (Some req, q')" using rq.pop_contents [OF inv q] by (metis prod.collapse)
    obtain jobs cache1 e1 where ev: "env_evaluate w eng req (Some c) ((ask e)\<lparr>je_requests := q'\<rparr>) = (jobs, cache1, e1)"
      by (rule prod_cases3)
    have "request_from S req" using assms(5) q by (simp add: requests_from_def)
    from evaluate_cache [OF laws w assms(3) this ev] have "\<exists>c'. cache1 = Some c' \<and> cache_ok eng md S c'" by blast
    moreover have "cache' = cache1" using step True p ev by (simp add: arrivals_none [OF wo(2)] ask_def)
    ultimately show ?thesis by simp
  next
    case False
    have inv: "rq_inv (je_requests e)" using assms(4) by (simp add: env_inv_def)
    have "rq_contents (je_requests e) = [] \<Longrightarrow> rq_pop (je_requests e) = (None, je_requests e)"
      using inv by (simp add: rq.pop_empty)
    with False step have "cache' = Some c"
      by (cases "(w, eng, pc, Some c, e)" rule: loop_step.cases) (auto simp: arrivals_none [OF wo(2)] ask_def split: prod.splits option.splits)
    with assms(3) show ?thesis by simp
  qed
  ultimately show thesis using e'(1) that by blast
qed

lemma loop_join_shared:
  assumes "cache_laws md eng S" and "world_of md w"
    and "loop_join w eng handled (pc, Some c, e) = Some (hs, cache', e')"
    and "cache_ok eng md S c" and "env_inv e" and "requests_from S e"
  shows "\<exists>c'. cache' = Some c' \<and> cache_ok eng md S c'"
proof -
  have "cache_laws md eng S \<longrightarrow> world_of md w \<longrightarrow> (\<forall>pc c e. s = (pc, Some c, e) \<longrightarrow> cache_ok eng md S c \<longrightarrow> env_inv e \<longrightarrow>
      requests_from S e \<longrightarrow> (\<exists>c'. fst (snd r) = Some c' \<and> cache_ok eng md S c'))"
    if "loop_join w eng handled s = Some r" for s r
  proof (rule loop_join.raw_induct [where P = "\<lambda>w eng handled s r. cache_laws md eng S \<longrightarrow> world_of md w \<longrightarrow>
      (\<forall>pc c e. s = (pc, Some c, e) \<longrightarrow> cache_ok eng md S c \<longrightarrow> env_inv e \<longrightarrow> requests_from S e \<longrightarrow>
      (\<exists>c'. fst (snd r) = Some c' \<and> cache_ok eng md S c'))", OF _ that], intro impI allI, goal_cases)
    case (1 join w eng handled s r pc c e)
    show ?case
    proof (cases "pc = Stopped")
      case True
      with 1 show ?thesis by auto
    next
      case False
      with 1(2,5) obtain hs1 pc1 cache1 e1 where st: "loop_step w eng (pc, Some c, e) = Some (hs1, pc1, cache1, e1)"
        "join w eng (handled @ hs1) (pc1, cache1, e1) = Some r" by (auto simp: bind_eq_Some_conv)
      obtain c1 where "cache1 = Some c1" "cache_ok eng md S c1" "env_inv e1" "requests_from S e1"
        by (rule loop_step_shared [OF 1(3,4,6-8) st(1)])
      with 1(1) [OF st(2)] 1(3,4) show ?thesis by simp
    qed
  qed
  from this [OF assms(3)] assms show ?thesis by simp
qed

section \<open>Steps of the program\<close>

definition shared_ok :: "(byte list \<Rightarrow> byte list) option \<Rightarrow> ('v, 'h) engine \<Rightarrow> string set \<Rightarrow> ('v, 'h) server \<Rightarrow> bool" where
  "shared_ok md eng S sv \<longleftrightarrow>
     cache_ok eng md S (sv_cache sv) \<and> (\<forall>e \<in> set (em_environments (sv_mgr sv)). requests_from S e)"

lemma shared_ok_reply [simp]: "shared_ok md eng S (reply r sv) = shared_ok md eng S sv"
  by (simp add: shared_ok_def reply_def)

lemma create_shared:
  assumes "handle_create_env w eng api req i sv = Some sv'" and "mgr_inv (sv_mgr sv)" and "world_ok w" and "shared_ok md eng S sv"
  shows "shared_ok md eng S sv'"
proof (cases "json_get_string api req ''env_id''")
  case (Some env_id)
  let ?init = "json_get_string api req ''init_code''"
  let ?m = "json_get_int64 api req ''memory_limit'' 0" and ?s = "json_get_int64 api req ''stack_size'' 0"
  from create_spec [OF assms(2) world_ok_D(1) [OF assms(3)], of eng "sv_tick sv" env_id ?init ?m ?s]
  obtain r out mgr' where c: "env_create w eng (sv_tick sv) env_id ?init ?m ?s (sv_mgr sv) = Some (r, out, mgr')"
    and envs: "case r of None \<Rightarrow> em_environments mgr' = em_environments (sv_mgr sv)
       | Some e \<Rightarrow> em_environments mgr' = em_environments (sv_mgr sv) @ [e] \<and> rq_contents (je_requests e) = []"
    by (auto split: option.splits)
  have "\<forall>e \<in> set (em_environments mgr'). requests_from S e"
    using envs assms(4) by (cases r) (auto simp: shared_ok_def requests_from_def)
  with assms(1,4) Some c show ?thesis by (auto simp: handle_create_env_def shared_ok_def reply_def Let_def)
qed (use assms in \<open>auto simp: handle_create_env_def\<close>)

lemma stop_shared:
  assumes "cache_laws md eng S" and "world_of md w" and "cache_ok eng md S c" and "env_inv e" and "requests_from S e"
    and "env_stop w eng pc (Some c) e = Some (handled, cache', e')"
  shows "\<exists>c'. cache' = Some c' \<and> cache_ok eng md S c'"
proof -
  have "world_of md (w\<lparr>w_arrivals := (\<lambda>_. [])\<rparr>)"
    using assms(2) by (simp add: world_of_def world_ok_def clock_advances_def)
  moreover have "env_inv (e\<lparr>je_running := False, je_pipe := je_pipe e @ ''q''\<rparr>)" using assms(4) by (simp add: env_inv_def)
  moreover have "requests_from S (e\<lparr>je_running := False, je_pipe := je_pipe e @ ''q''\<rparr>)"
    using assms(5) by (simp add: requests_from_def)
  ultimately show ?thesis using assms(1,3,6) unfolding env_stop_def by (blast intro: loop_join_shared)
qed

lemma destroy_shared:
  assumes "handle_destroy_env w eng api req i sv = Some sv'" and "mgr_inv (sv_mgr sv)" and "world_of md w"
    and "cache_laws md eng S" and "shared_ok md eng S sv"
  shows "shared_ok md eng S sv'"
proof -
  have "\<exists>c. cache = Some c \<and> cache_ok eng md S c \<and> set (em_environments mgr) \<subseteq> set (em_environments (sv_mgr sv))"
    if "env_destroy w eng pc env_id (Some (sv_cache sv)) (sv_mgr sv) = Some (rc, r, cache, mgr)" for pc env_id rc r cache mgr
  proof (cases "env_index (em_environments (sv_mgr sv)) env_id")
    case None
    with that assms(5) show ?thesis by (auto simp: env_destroy_def shared_ok_def)
  next
    case (Some k)
    let ?e = "em_environments (sv_mgr sv) ! k"
    have k: "k < length (em_environments (sv_mgr sv))" using env_index_Some [OF Some] by simp
    from that Some obtain handled e1 where
      st: "env_stop w eng pc (Some (sv_cache sv)) ?e = Some (handled, cache, e1)"
        "em_environments mgr = remove_at k (em_environments (sv_mgr sv))"
      by (auto simp: env_destroy_def Let_def split: option.splits)
    have "env_inv ?e" "requests_from S ?e" "cache_ok eng md S (sv_cache sv)"
      using assms(2,5) k by (simp_all add: mgr_inv_def shared_ok_def)
    from stop_shared [OF assms(4,3) this(3,1,2) st(1)] st(2) set_remove_at [OF k] show ?thesis by auto
  qed
  with assms(1,5) show ?thesis
    by (fastforce simp: handle_destroy_env_def shared_ok_def reply_def Let_def split: option.splits prod.splits)
qed

lemma submit_shared:
  assumes "submit_to env_id ereq (sv_mgr sv) = Some mgr" and "mgr_inv (sv_mgr sv)" and "request_from S ereq"
    and "shared_ok md eng S sv"
  shows "shared_ok md eng S (sv\<lparr>sv_mgr := mgr\<rparr>)"
proof -
  from assms(1) obtain k where k: "env_index (em_environments (sv_mgr sv)) env_id = Some k"
    "em_environments mgr = (em_environments (sv_mgr sv))[k := env_submit_request ereq (em_environments (sv_mgr sv) ! k)]"
    by (auto simp: submit_to_def split: option.splits)
  let ?e = "em_environments (sv_mgr sv) ! k"
  have e: "?e \<in> set (em_environments (sv_mgr sv))" using env_index_Some [OF k(1)] by simp
  then have "rq_contents (je_requests (env_submit_request ereq ?e)) = rq_contents (je_requests ?e) @ [ereq]"
    using assms(2) by (simp add: mgr_inv_def env_inv_def env_submit_request_def rq.push_contents)
  then have "requests_from S (env_submit_request ereq ?e)"
    using e assms(3,4) by (auto simp: shared_ok_def requests_from_def)
  with assms(4) k(2) show ?thesis by (auto simp: shared_ok_def dest!: set_update_subset_insert [THEN subsetD])
qed

lemma handle_request_shared:
  assumes "handle_request w eng jr line sv = Some sv'" and "mgr_inv (sv_mgr sv)" and "world_of md w"
    and "cache_laws md eng S" and "shared_ok md eng S sv" and "sources jr [line] \<subseteq> S"
  shows "shared_ok md eng S sv'"
proof -
  have src: "src \<in> S" if "jr_parse jr line = Some req" "json_get_string (jr_api jr) req ''type'' = Some ''eval''"
      "json_get_string (jr_api jr) req ''code'' = Some src" for req src
    using that assms(6) by (auto simp: sources_def line_source_def line_type_def)
  note submit = submit_shared [OF _ assms(2) _ assms(5)]
  note create = create_shared [OF _ assms(2) world_of_ok [OF assms(3)] assms(5)]
  note destroy = destroy_shared [OF _ assms(2-5)]
  show ?thesis
    using assms(1,5)
    by (auto simp: handle_request_def handle_typed_def handle_list_envs_def handle_eval_def handle_eval_file_def Let_def
        request_from_def split: option.splits if_splits intro: create destroy intro!: submit src)
       (simp_all add: shared_ok_def reply_def)
qed

lemma env_step_shared:
  assumes "env_thread_step w eng k sv = Some sv'" and "mgr_inv (sv_mgr sv)" and "world_of md w"
    and "k < length (em_environments (sv_mgr sv))" and "cache_laws md eng S" and "shared_ok md eng S sv"
  shows "shared_ok md eng S sv'"
proof -
  let ?e = "em_environments (sv_mgr sv) ! k"
  from assms(1) obtain hs pc cache e' where s: "loop_step w eng (sv_pc sv (je_env_id ?e), Some (sv_cache sv), ?e) = Some (hs, pc, cache, e')"
    and sv': "em_environments (sv_mgr sv') = (em_environments (sv_mgr sv))[k := e']" "sv_cache sv' = (case cache of Some c \<Rightarrow> c | None \<Rightarrow> sv_cache sv)"
    by (auto simp: env_thread_step_def Let_def split: option.splits)
  have e: "env_inv ?e" "requests_from S ?e" "cache_ok eng md S (sv_cache sv)"
    using assms(2,4,6) by (simp_all add: mgr_inv_def shared_ok_def)
  obtain c' where "cache = Some c'" "cache_ok eng md S c'" "requests_from S e'"
    by (rule loop_step_shared [OF assms(5,3) e(3,1,2) s])
  with sv' assms(6) show ?thesis by (auto simp: shared_ok_def dest!: set_update_subset_insert [THEN subsetD])
qed

lemma init_shared: "shared_ok md eng S server_init"
  by (simp add: shared_ok_def server_init_def env_manager_init_def bc.all_stored_def bc_abs_init bc_inv_init)

lemma reachable_shared:
  assumes "reachable md eng jr input s"
    and "cache_laws md eng (sources jr (reader_lines [] input))" and "sv_status (sy_server s) = Serving"
  shows "shared_ok md eng (sources jr (reader_lines [] input)) (sy_server s)"
  using assms(1,3)
proof (induction rule: reachable.induct)
  case reach_init
  show ?case by (simp add: system_init_def init_shared)
next
  case (reach_step s s')
  let ?S = "sources jr (reader_lines [] input)"
  have inv: "system_inv jr input s" by (rule reachable_inv [OF reach_step(1)])
  then have mgr: "mgr_inv (sv_mgr (sy_server s))" and st: "stdin_inv (sy_reader s, sy_stdin s)" by (simp_all add: system_inv_def)
  from reach_step.hyps(2) show ?case
  proof cases
    case (step_reader rd sr)
    with reach_step.IH show ?thesis by simp
  next
    case (step_env w k sv)
    then have "shared_ok md eng ?S (sy_server s)" using reach_step.IH by simp
    with step_env env_step_shared [OF _ mgr step_env(3,4) assms(2)] show ?thesis by simp
  next
    case (step_main w)
    then have ok: "shared_ok md eng ?S (sy_server s)" using reach_step.IH by simp
    from st show ?thesis
    proof (cases rule: pop_step_inv)
      case empty
      show ?thesis
      proof (cases "sr_eof (sy_stdin s) \<and> sr_lines (sy_stdin s) = []")
        case True
        with empty step_main(3) have "main_cleanup w eng (sy_server s) = Some (sy_server s')" by (auto simp: main_loop_step_def)
        with main_cleanup_spec [OF mgr world_of_ok [OF step_main(2)], of eng] reach_step.prems show ?thesis by auto
      next
        case False
        with empty step_main(3) ok show ?thesis by (auto simp: main_loop_step_def split: if_splits)
      qed
    next
      case (line l sr)
      with step_main(3) have h: "handle_request w eng jr l (sy_server s) = Some (sy_server s')" by (auto simp: main_loop_step_def)
      have "l \<in> set (sr_lines (sy_stdin s))" using line by simp
      then have "l \<in> set (reader_lines [] input)" using inv unfolding system_inv_def by (metis Un_iff set_append)
      then have "sources jr [l] \<subseteq> ?S" by (auto simp: sources_def)
      with handle_request_shared [OF h mgr step_main(2) assms(2) ok] show ?thesis .
    qed
  qed
qed

section \<open>Property\<close>

text \<open>
  Property C11.  Every eval request runs its own source, in the whole program.  In every reachable state, whatever the environments have
  compiled, cached and evicted before, an environment's thread that takes an eval request runs the script that evaluating the
  source of this request runs, and responds with its outcome; this holds when the engine's bytecode behaves like the source it was
  written for and the sources in the lines of the input have different hashes.  Only on a hit can the script be the one for another file name.
\<close>

theorem eval_runs_its_source:
  assumes "reachable md eng jr input s" and "sv_status (sy_server s) = Serving"
    and "world_of md w" and "compile_law eng" and "bytecode_law eng"
    and "inj_on (\<lambda>src. bc_compute_hash md (bytes_of src)) (sources jr (reader_lines [] input))"
    and "k < length (em_environments (sv_mgr (sy_server s)))" and "e = em_environments (sv_mgr (sy_server s)) ! k"
    and "rq_contents (je_requests e) = req # rest" and "rq_type req = ''eval''"
  shows "\<exists>src fn r c' q e1. rq_code req = Some src \<and> src \<in> sources jr (reader_lines [] input) \<and> rq_contents q = rest \<and>
    evaluates w eng src fn (e\<lparr>je_requests := q\<rparr>) r e1 \<and>
    (fn = (case rq_filename req of Some f \<Rightarrow> f | None \<Rightarrow> ''<eval>'') \<or>
     bc_contents (sv_cache (sy_server s)) (bc_compute_hash md (bytes_of src)) \<noteq> None) \<and>
    loop_step w eng (Draining, Some (sv_cache (sy_server s)), e) =
      Some ([req], Jobs 100 True, Some c', env_respond eng ''eval error'' (rq_request_id req) r e1)"
proof -
  let ?S = "sources jr (reader_lines [] input)" and ?c = "sv_cache (sy_server s)"
  have laws: "cache_laws md eng ?S" using assms(4-6) by (simp add: cache_laws_def)
  have ok: "shared_ok md eng ?S (sy_server s)" by (rule reachable_shared [OF assms(1) laws assms(2)])
  have mem: "e \<in> set (em_environments (sv_mgr (sy_server s)))" using assms(7,8) by simp
  have inv: "env_inv e" using reachable_inv [OF assms(1)] mem by (auto simp: system_inv_def mgr_inv_def)
  have "request_from ?S req" using ok mem assms(9) by (force simp: shared_ok_def requests_from_def)
  with assms(10) obtain src where src: "rq_code req = Some src" "src \<in> ?S" by (auto simp: request_from_def)
  obtain q where q: "rq_pop (je_requests e) = (Some req, q)" "rq_contents q = rest"
    using rq.pop_contents [of "je_requests e", OF _ assms(9)] inv by (metis env_inv_def prod.collapse)
  have w: "w_sha256 w = md" "\<forall>k. w_now_ms w k < INT64_MAX" "\<forall>k. w_arrivals w k = []"
    using assms(3) world_ok_D(2) [OF world_of_ok [OF assms(3)]] by (simp_all add: world_of_def)
  define fn where "fn = (case rq_filename req of Some f \<Rightarrow> f | None \<Rightarrow> ''<eval>'')"
  have c: "cache_ok eng (w_sha256 w) ?S ?c" using ok w(1) by (simp add: shared_ok_def)
  from eval_cached_transparent [OF assms(4,5) c src(2) _ w(2), of fn "(ask e)\<lparr>je_requests := q\<rparr>"] assms(6) w(1)
  obtain fn0 r c' e1 where ev: "eval_cached w eng src fn (Some ?c) ((ask e)\<lparr>je_requests := q\<rparr>) = (r, Some c', e1)"
    "evaluates w eng src fn0 ((ask e)\<lparr>je_requests := q\<rparr>) r e1"
    "fn0 = fn \<or> bc_contents ?c (bc_compute_hash md (bytes_of src)) \<noteq> None" by auto
  have "evaluates w eng src fn0 (e\<lparr>je_requests := q\<rparr>) r e1" using ev(2) by (simp add: evaluates_def ask_def)
  moreover have "env_evaluate w eng req (Some ?c) ((ask e)\<lparr>je_requests := q\<rparr>) =
      (True, Some c', env_respond eng ''eval error'' (rq_request_id req) r e1)"
    using ev(1) src(1) assms(10) by (simp add: env_evaluate_def flip: fn_def)
  then have "loop_step w eng (Draining, Some ?c, e) =
      Some ([req], Jobs 100 True, Some c', env_respond eng ''eval error'' (rq_request_id req) r e1)"
    using q(1) by (simp add: arrivals_none [OF w(3)] ask_def)
  ultimately show ?thesis using src q(2) ev(3) unfolding fn_def by blast
qed

theorem eval_runs_its_source_witness:
  "\<exists>s e fn r c' e1. reachable (w_sha256 ex_world) ex_engine run_json run_input s \<and>
     em_environments (sv_mgr (sy_server s)) = [e] \<and> sv_pc (sy_server s) (je_env_id e) = Draining \<and>
     (\<exists>q. evaluates run_world ex_engine ''x'' fn (e\<lparr>je_requests := q\<rparr>) r e1) \<and>
     loop_step run_world ex_engine (Draining, Some (sv_cache (sy_server s)), e) =
       Some ([run_request], Jobs 100 True, Some c', env_respond ex_engine ''eval error'' None r e1)"
proof -
  obtain s e where s: "reachable (w_sha256 ex_world) ex_engine run_json run_input s" "sv_status (sy_server s) = Serving"
    "em_environments (sv_mgr (sy_server s)) = [e]" "sv_pc (sy_server s) (je_env_id e) = Draining" "rq_contents (je_requests e) = [run_request]"
    using run_to_request by auto
  have laws: "compile_law ex_engine" "bytecode_law ex_engine" by (simp_all add: compile_law_def bytecode_law_def ex_engine_def)
  have "src = ''x''" if "line_source run_json l = Some src" for l src
    using that by (auto simp: line_source_def line_type_def run_defs split: if_splits)
  then have inj: "inj_on f (sources run_json ls)" for f :: "string \<Rightarrow> string" and ls
    by (auto simp: sources_def inj_on_def)
  have req: "rq_type run_request = ''eval''" "rq_code run_request = Some ''x''" "rq_request_id run_request = None"
    by (simp_all add: run_request_def)
  have k: "0 < length (em_environments (sv_mgr (sy_server s)))" "e = em_environments (sv_mgr (sy_server s)) ! 0" using s(3) by simp_all
  from eval_runs_its_source [OF s(1) s(2) run_world_of laws inj k s(5) req(1)] obtain fn r c' q e1 where
    "evaluates run_world ex_engine ''x'' fn (e\<lparr>je_requests := q\<rparr>) r e1"
    "loop_step run_world ex_engine (Draining, Some (sv_cache (sy_server s)), e) =
       Some ([run_request], Jobs 100 True, Some c', env_respond ex_engine ''eval error'' None r e1)"
    unfolding req(2,3) option.inject by blast
  with s(1,3,4) show ?thesis by blast
qed

end
