(* ===== verification/Bounded_Wait.thy ===== *)
theory Bounded_Wait
  imports Example_Run
begin

text \<open>
  No request waits for ever.  The thread of an environment shares its queue with the main thread, and between any two of its steps
  lines may be read, requests submitted, other environments created, run and destroyed.  None of this delays a request that is
  already queued: its position alone bounds the number of steps the thread takes before it has answered it.
\<close>

section \<open>The bound\<close>

text \<open>
  How many steps from a place in the loop until the request at position \<open>p\<close> is taken: each request before it costs one step to take
  it and evaluate it and at most 101 for the jobs after it.
\<close>

definition drain_bound :: "nat \<Rightarrow> nat" where
  "drain_bound p = 1 + 102 * p"

fun wait_bound :: "loop_pc \<Rightarrow> nat \<Rightarrow> nat" where
  "wait_bound LoopHead p = 2 + drain_bound p"
| "wait_bound Polling p = 1 + drain_bound p"
| "wait_bound Draining p = drain_bound p"
| "wait_bound (Jobs k b) p = k + 1 + (if b then drain_bound p else 2 + drain_bound p)"
| "wait_bound Stopped p = 0"

lemma wait_bound_pos: "pc \<noteq> Stopped \<Longrightarrow> 0 < wait_bound pc p"
  by (cases pc) (simp_all add: drain_bound_def)

lemma loop_step_waits:
  assumes "loop_step w eng (pc, cache, e) = Some (hs, pc', cache', e')" and "env_inv e" and "je_running e" and "pc \<noteq> Stopped"
    and "\<forall>k. w_arrivals w k = []" and "p < length (rq_contents (je_requests e))" and "length hs \<le> p"
  shows "wait_bound pc' (p - length hs) < wait_bound pc p"
proof -
  have inv: "rq_inv (je_requests (env_arrivals w e))" using arrivals_serve [OF assms(2), of w] by (simp add: env_inv_def)
  have same: "rq_contents (je_requests (env_arrivals w e)) = rq_contents (je_requests e)"
    using assms(5) by (simp add: env_arrivals_def ask_def)
  have "rq_pop (je_requests (env_arrivals w e)) \<noteq> (None, r)" for r
    using rq.pop_contents [OF inv] assms(6) unfolding same by (cases "rq_contents (je_requests e)") auto
  with assms show ?thesis by (cases "(w, eng, pc, cache, e)" rule: loop_step.cases)
    (auto simp: Let_def jobs_return_def drain_bound_def split: prod.splits option.splits if_splits)
qed

section \<open>What a step does to one environment\<close>

definition env_at :: "string \<Rightarrow> ('v, 'h) server \<Rightarrow> ('v, 'h) js_env \<Rightarrow> bool" where
  "env_at i sv e \<longleftrightarrow> e \<in> set (em_environments (sv_mgr sv)) \<and> je_env_id e = i"

lemma env_at_unique:
  "mgr_inv (sv_mgr sv) \<Longrightarrow> env_at i sv e \<Longrightarrow> env_at i sv e' \<Longrightarrow> e' = e"
  by (auto simp: env_at_def mgr_inv_def distinct_map dest: inj_onD)

text \<open>Other threads only append requests to its queue.\<close>

definition left_alone :: "string \<Rightarrow> ('v, 'h) server \<Rightarrow> ('v, 'h) server \<Rightarrow> bool" where
  "left_alone i sv sv' \<longleftrightarrow> (\<forall>e e'. env_at i sv e \<longrightarrow> env_at i sv' e' \<longrightarrow> sv_pc sv' i = sv_pc sv i \<and>
     je_out e' = je_out e \<and> (\<exists>later. rq_contents (je_requests e') = rq_contents (je_requests e) @ later))"

lemma left_alone_subset:
  assumes "mgr_inv (sv_mgr sv)"
    and "\<forall>e \<in> set (em_environments (sv_mgr sv')). e \<in> set (em_environments (sv_mgr sv)) \<or> je_env_id e \<notin> set (env_ids (sv_mgr sv))"
    and "i \<in> set (env_ids (sv_mgr sv)) \<longrightarrow> sv_pc sv' i = sv_pc sv i"
  shows "left_alone i sv sv'"
  unfolding left_alone_def
proof (intro allI impI)
  fix x x' assume x: "env_at i sv x" and x': "env_at i sv' x'"
  then have i: "i \<in> set (env_ids (sv_mgr sv))" by (auto simp: env_at_def)
  with x' assms(2) have "env_at i sv x'" by (auto simp: env_at_def)
  with env_at_unique [OF assms(1) x] i assms(3) show "sv_pc sv' i = sv_pc sv i \<and> je_out x' = je_out x \<and>
      (\<exists>later. rq_contents (je_requests x') = rq_contents (je_requests x) @ later)" by simp
qed

lemma create_leaves:
  assumes "handle_create_env w eng api req i0 sv = Some sv'" and "mgr_inv (sv_mgr sv)" and "world_ok w"
  shows "left_alone i sv sv'"
proof (cases "json_get_string api req ''env_id''")
  case (Some env_id)
  let ?init = "json_get_string api req ''init_code''"
  let ?m = "json_get_int64 api req ''memory_limit'' 0" and ?s = "json_get_int64 api req ''stack_size'' 0"
  from create_spec [OF assms(2) world_ok_D(1) [OF assms(3)], of eng "sv_tick sv" env_id ?init ?m ?s]
  obtain r out mgr' where c: "env_create w eng (sv_tick sv) env_id ?init ?m ?s (sv_mgr sv) = Some (r, out, mgr')"
    and envs: "case r of None \<Rightarrow> em_environments mgr' = em_environments (sv_mgr sv)
       | Some e \<Rightarrow> em_environments mgr' = em_environments (sv_mgr sv) @ [e] \<and> env_id \<notin> set (env_ids (sv_mgr sv)) \<and> je_env_id e = env_id"
    by (auto split: option.splits)
  have sv': "sv_mgr sv' = mgr'" "sv_pc sv' = (if r = None then sv_pc sv else (sv_pc sv)(env_id := LoopHead))"
    using assms(1) Some c by (auto simp: handle_create_env_def reply_def Let_def)
  show ?thesis using envs sv' by (intro left_alone_subset [OF assms(2)]) (auto split: option.splits)
qed (use assms(1,2) in \<open>auto simp: handle_create_env_def intro!: left_alone_subset simp: reply_def\<close>)

lemma destroy_leaves:
  assumes "handle_destroy_env w eng api req i0 sv = Some sv'" and "mgr_inv (sv_mgr sv)"
  shows "left_alone i sv sv'"
proof (rule left_alone_subset [OF assms(2)])
  show "\<forall>e \<in> set (em_environments (sv_mgr sv')). e \<in> set (em_environments (sv_mgr sv)) \<or> je_env_id e \<notin> set (env_ids (sv_mgr sv))"
    using assms(1) set_remove_at [OF env_index_Some [THEN conjunct1]]
    by (fastforce simp: handle_destroy_env_def env_destroy_def reply_def Let_def split: option.splits prod.splits)
  show "i \<in> set (env_ids (sv_mgr sv)) \<longrightarrow> sv_pc sv' i = sv_pc sv i"
    using assms(1) by (auto simp: handle_destroy_env_def reply_def Let_def split: option.splits prod.splits)
qed

lemma submit_leaves:
  assumes "submit_to env_id ereq (sv_mgr sv) = Some mgr" and "mgr_inv (sv_mgr sv)"
  shows "left_alone i sv (sv\<lparr>sv_mgr := mgr\<rparr>)"
proof -
  from assms(1) obtain k where k: "env_index (em_environments (sv_mgr sv)) env_id = Some k"
    "em_environments mgr = (em_environments (sv_mgr sv))[k := env_submit_request ereq (em_environments (sv_mgr sv) ! k)]"
    by (auto simp: submit_to_def split: option.splits)
  let ?e = "em_environments (sv_mgr sv) ! k"
  have e: "?e \<in> set (em_environments (sv_mgr sv))" using env_index_Some [OF k(1)] by simp
  then have sub: "rq_contents (je_requests (env_submit_request ereq ?e)) = rq_contents (je_requests ?e) @ [ereq]"
      "je_out (env_submit_request ereq ?e) = je_out ?e" "je_env_id (env_submit_request ereq ?e) = je_env_id ?e"
    using assms(2) by (simp_all add: mgr_inv_def env_inv_def env_submit_request_def rq.push_contents)
  show ?thesis unfolding left_alone_def
  proof (intro allI impI)
    fix x x' assume x: "env_at i sv x" and x': "env_at i (sv\<lparr>sv_mgr := mgr\<rparr>) x'"
    then consider "env_at i sv x'" | "x' = env_submit_request ereq ?e"
      by (auto simp: env_at_def k(2) dest!: set_update_subset_insert [THEN subsetD])
    then show "sv_pc (sv\<lparr>sv_mgr := mgr\<rparr>) i = sv_pc sv i \<and> je_out x' = je_out x \<and>
        (\<exists>later. rq_contents (je_requests x') = rq_contents (je_requests x) @ later)"
    proof cases
      case 1
      with env_at_unique [OF assms(2) x] show ?thesis by simp
    next
      case 2
      then have "env_at i sv ?e" using x' e sub(3) by (simp add: env_at_def)
      with env_at_unique [OF assms(2) x] 2 sub show ?thesis by auto
    qed
  qed
qed

lemma handle_request_leaves:
  assumes "handle_request w eng jr line sv = Some sv'" and "mgr_inv (sv_mgr sv)" and "world_ok w"
  shows "left_alone i sv sv'"
proof -
  have same: "sv_mgr sv' = sv_mgr sv \<Longrightarrow> sv_pc sv' = sv_pc sv \<Longrightarrow> left_alone i sv sv'" for sv'
    by (rule left_alone_subset [OF assms(2)]) simp_all
  note leaves = submit_leaves [OF _ assms(2)] create_leaves [OF _ assms(2,3)] destroy_leaves [OF _ assms(2)]
  show ?thesis
    using assms(1)
    by (auto simp: handle_request_def handle_typed_def handle_list_envs_def handle_eval_def handle_eval_file_def Let_def reply_def
        split: option.splits if_splits intro: leaves same)
qed

text \<open>A step of the environment's own thread.\<close>

definition own_step :: "(byte list \<Rightarrow> byte list) option \<Rightarrow> ('v, 'h) engine \<Rightarrow> string \<Rightarrow> ('v, 'h) server \<Rightarrow> ('v, 'h) server \<Rightarrow> bool" where
  "own_step md eng i sv sv' \<longleftrightarrow> (\<exists>w hs cache e e'. world_of md w \<and> env_at i sv e \<and> env_at i sv' e' \<and>
     loop_step w eng (sv_pc sv i, Some (sv_cache sv), e) = Some (hs, sv_pc sv' i, cache, e') \<and>
     sv_out sv' = sv_out sv @ drop (length (je_out e)) (je_out e'))"

lemma thread_step_leaves:
  assumes "env_thread_step w eng k sv = Some sv'" and "mgr_inv (sv_mgr sv)" and "world_of md w" and k: "k < length (em_environments (sv_mgr sv))"
  shows "if je_env_id (em_environments (sv_mgr sv) ! k) = i then own_step md eng i sv sv' else left_alone i sv sv'"
proof -
  let ?es = "em_environments (sv_mgr sv)"
  let ?e = "?es ! k"
  from assms(1) obtain hs pc cache e' where s: "loop_step w eng (sv_pc sv (je_env_id ?e), Some (sv_cache sv), ?e) = Some (hs, pc, cache, e')"
    and sv': "em_environments (sv_mgr sv') = ?es[k := e']" "sv_out sv' = sv_out sv @ drop (length (je_out ?e)) (je_out e')"
      "sv_pc sv' = (sv_pc sv)(je_env_id ?e := pc)"
    by (auto simp: env_thread_step_def Let_def split: option.splits)
  have mem: "?e \<in> set ?es" "e' \<in> set (?es[k := e'])" using k by (simp_all add: set_update_memI)
  then have inv: "env_inv ?e" using assms(2) by (simp add: mgr_inv_def)
  have id: "je_env_id e' = je_env_id ?e"
    using loop_step_serves [OF inv world_ok_D(1) [OF world_of_ok [OF assms(3)]], of eng "sv_pc sv (je_env_id ?e)" "Some (sv_cache sv)"] s
    by (auto simp: serves_def)
  show ?thesis
  proof (cases "je_env_id ?e = i")
    case True
    then have "env_at i sv ?e" "env_at i sv' e'" using mem id sv'(1) by (simp_all add: env_at_def)
    moreover have "loop_step w eng (sv_pc sv i, Some (sv_cache sv), ?e) = Some (hs, sv_pc sv' i, cache, e')" using s sv'(3) True by simp
    ultimately have "own_step md eng i sv sv'" using assms(3) sv'(2) unfolding own_step_def by blast
    with True show ?thesis by simp
  next
    case False
    have "left_alone i sv sv'" unfolding left_alone_def
    proof (intro allI impI)
      fix x x' assume x: "env_at i sv x" and x': "env_at i sv' x'"
      then have "env_at i sv x'" using False id by (auto simp: env_at_def sv'(1) dest!: set_update_subset_insert [THEN subsetD])
      with env_at_unique [OF assms(2) x] False show "sv_pc sv' i = sv_pc sv i \<and> je_out x' = je_out x \<and>
          (\<exists>later. rq_contents (je_requests x') = rq_contents (je_requests x) @ later)" by (simp add: sv'(3))
    qed
    with False show ?thesis by simp
  qed
qed

lemma system_step_cases:
  assumes step: "system_step md eng jr s s'" and inv: "system_inv jr input s"
  shows "own_step md eng i (sy_server s) (sy_server s') \<or>
    left_alone i (sy_server s) (sy_server s') \<and> (\<exists>new. sv_out (sy_server s') = sv_out (sy_server s) @ new)"
  using step
proof cases
  case (step_reader rd sr)
  have "mgr_inv (sv_mgr (sy_server s))" using inv by (simp add: system_inv_def)
  with step_reader show ?thesis by (auto intro: left_alone_subset)
next
  case (step_main w)
  have mgr: "mgr_inv (sv_mgr (sy_server s))" and st: "stdin_inv (sy_reader s, sy_stdin s)" using inv by (simp_all add: system_inv_def)
  have wo: "world_ok w" using step_main(2) by (rule world_of_ok)
  from st show ?thesis
  proof (cases rule: pop_step_inv)
    case empty
    show ?thesis
    proof (cases "sr_eof (sy_stdin s)")
      case True
      with empty step_main(3) have "main_cleanup w eng (sy_server s) = Some (sy_server s')" by (auto simp: main_loop_step_def)
      with main_cleanup_spec [OF mgr wo, of eng] show ?thesis by (auto simp: sends_def intro!: left_alone_subset [OF mgr])
    next
      case False
      with empty step_main(3) mgr show ?thesis by (auto simp: main_loop_step_def intro!: left_alone_subset)
    qed
  next
    case (line l sr)
    with step_main(3) have h: "handle_request w eng jr l (sy_server s) = Some (sy_server s')" by (auto simp: main_loop_step_def)
    with handle_line_accounted [OF mgr wo, of eng jr l] handle_request_leaves [OF h mgr wo] show ?thesis by (auto simp: sends_def)
  qed
next
  case (step_env w k sv)
  have mgr: "mgr_inv (sv_mgr (sy_server s))" "\<forall>i. sv_pc (sy_server s) i \<noteq> Stopped" using inv by (simp_all add: system_inv_def)
  from env_thread_step_spec [OF mgr(1) world_of_ok [OF step_env(3)] step_env(4) mgr(2), of eng] step_env(5)
  have "sends (sy_server s) sv" by auto
  with thread_step_leaves [OF step_env(5) mgr(1) step_env(3,4), of i] step_env(1) show ?thesis
    by (auto simp: sends_def split: if_splits)
qed

section \<open>Runs\<close>

text \<open>
  A run of the program during which the environment is not destroyed, with the number of steps its own thread takes; steps of its
  thread may also be among the others, so that this number is a lower bound.
\<close>

inductive env_run ::
    "(byte list \<Rightarrow> byte list) option \<Rightarrow> ('v, 'h) engine \<Rightarrow> 'j json_reader \<Rightarrow> string \<Rightarrow> nat \<Rightarrow> ('v, 'h) system \<Rightarrow> ('v, 'h) system \<Rightarrow> bool"
  for md eng jr i where
  run_start: "env_at i (sy_server s) e \<Longrightarrow> env_run md eng jr i 0 s s"
| run_other:
    "env_run md eng jr i n s s1 \<Longrightarrow> system_step md eng jr s1 s2 \<Longrightarrow> env_at i (sy_server s2) e \<Longrightarrow> env_run md eng jr i n s s2"
| run_own:
    "env_run md eng jr i n s s1 \<Longrightarrow> sv_status (sy_server s1) = Serving \<Longrightarrow> world_of md w \<Longrightarrow>
     k < length (em_environments (sv_mgr (sy_server s1))) \<Longrightarrow> je_env_id (em_environments (sv_mgr (sy_server s1)) ! k) = i \<Longrightarrow>
     env_thread_step w eng k (sy_server s1) = Some sv \<Longrightarrow> env_run md eng jr i (Suc n) s (s1\<lparr>sy_server := sv\<rparr>)"

text \<open>
  What a run has achieved for the request at position \<open>p\<close>: it has been answered with those before it, or the steps taken are no more
  than the difference of the bounds.
\<close>

definition wait_advanced :: "string \<Rightarrow> nat \<Rightarrow> nat \<Rightarrow> ('v, 'h) server \<Rightarrow> ('v, 'h) js_env \<Rightarrow> ('v, 'h) server \<Rightarrow> ('v, 'h) js_env \<Rightarrow> bool" where
  "wait_advanced i p n sv e sv' e' \<longleftrightarrow> (\<exists>taken later out new.
     rq_contents (je_requests e) @ later = taken @ rq_contents (je_requests e') \<and>
     list_all2 answers taken (replies i out) \<and> sv_out sv' = sv_out sv @ new \<and> set out \<subseteq> set new \<and>
     (p < length taken \<or> wait_bound (sv_pc sv' i) (p - length taken) + n \<le> wait_bound (sv_pc sv i) p))"

lemma wait_other:
  assumes "wait_advanced i p n sv e sv1 e1" and "left_alone i sv1 sv2" and "env_at i sv1 e1" and "env_at i sv2 e2"
    and "sv_out sv2 = sv_out sv1 @ new2"
  shows "wait_advanced i p n sv e sv2 e2"
proof -
  from assms(1) obtain taken later out new where a: "rq_contents (je_requests e) @ later = taken @ rq_contents (je_requests e1)"
    "list_all2 answers taken (replies i out)" "sv_out sv1 = sv_out sv @ new" "set out \<subseteq> set new"
    "p < length taken \<or> wait_bound (sv_pc sv1 i) (p - length taken) + n \<le> wait_bound (sv_pc sv i) p"
    by (auto simp: wait_advanced_def)
  from assms(2-4) obtain more where "rq_contents (je_requests e2) = rq_contents (je_requests e1) @ more" "sv_pc sv2 i = sv_pc sv1 i"
    unfolding left_alone_def by blast
  with a assms(5) have "rq_contents (je_requests e) @ (later @ more) = taken @ rq_contents (je_requests e2)"
    "sv_out sv2 = sv_out sv @ (new @ new2)" "set out \<subseteq> set (new @ new2)"
    "p < length taken \<or> wait_bound (sv_pc sv2 i) (p - length taken) + n \<le> wait_bound (sv_pc sv i) p" by auto
  with a(2) show ?thesis unfolding wait_advanced_def by blast
qed

lemma wait_own:
  assumes "wait_advanced i p n sv e sv1 e1" and "own_step md eng i sv1 sv2" and "env_at i sv1 e1" and "env_at i sv2 e2"
    and inv: "mgr_inv (sv_mgr sv1)" "mgr_inv (sv_mgr sv2)" "sv_pc sv1 i \<noteq> Stopped" and "p < length (rq_contents (je_requests e))"
  shows "wait_advanced i p (Suc n) sv e sv2 e2"
proof -
  from assms(1) obtain taken later out new where a: "rq_contents (je_requests e) @ later = taken @ rq_contents (je_requests e1)"
    "list_all2 answers taken (replies i out)" "sv_out sv1 = sv_out sv @ new" "set out \<subseteq> set new"
    "p < length taken \<or> wait_bound (sv_pc sv1 i) (p - length taken) + n \<le> wait_bound (sv_pc sv i) p"
    by (auto simp: wait_advanced_def)
  from assms(2-4) env_at_unique [OF inv(1)] env_at_unique [OF inv(2)] obtain w hs cache where
    s: "world_of md w" "loop_step w eng (sv_pc sv1 i, Some (sv_cache sv1), e1) = Some (hs, sv_pc sv2 i, cache, e2)"
      "sv_out sv2 = sv_out sv1 @ drop (length (je_out e1)) (je_out e2)" unfolding own_step_def by blast
  note wo = world_ok_D(1,2) [OF world_of_ok [OF s(1)]]
  have e1: "env_inv e1" "je_running e1" "je_env_id e1 = i" using inv(1) assms(3) by (auto simp: mgr_inv_def env_at_def)
  have "serves w hs hs e1 e2" using loop_step_serves [OF e1(1) wo(1), of eng "sv_pc sv1 i" "Some (sv_cache sv1)"] s(2) by auto
  with serves_no_arrivals(1) [OF this wo(2)] e1(3) obtain out2 where
    v: "rq_contents (je_requests e1) = hs @ rq_contents (je_requests e2)" "je_out e2 = je_out e1 @ out2"
      "list_all2 answers hs (replies i out2)" by (auto simp: serves_def)
  have "wait_bound (sv_pc sv2 i) (p - length (taken @ hs)) + Suc n \<le> wait_bound (sv_pc sv i) p" if le: "length (taken @ hs) \<le> p"
  proof -
    have "length (taken @ rq_contents (je_requests e1)) = length (rq_contents (je_requests e) @ later)" using a(1) by simp
    with assms(8) le have "p - length taken < length (rq_contents (je_requests e1))" "length hs \<le> p - length taken" by simp_all
    from loop_step_waits [OF s(2) e1(1,2) inv(3) wo(2) this] a(5) le show ?thesis by simp
  qed
  then have "p < length (taken @ hs) \<or> wait_bound (sv_pc sv2 i) (p - length (taken @ hs)) + Suc n \<le> wait_bound (sv_pc sv i) p"
    by linarith
  moreover have "rq_contents (je_requests e) @ later = (taken @ hs) @ rq_contents (je_requests e2)" using a(1) v(1) by simp
  moreover have "list_all2 answers (taken @ hs) (replies i (out @ out2))" using a(2) v(3) by (simp add: list_all2_appendI)
  moreover have "sv_out sv2 = sv_out sv @ (new @ out2)" "set (out @ out2) \<subseteq> set (new @ out2)" using s(3) v(2) a(3,4) by auto
  ultimately show ?thesis unfolding wait_advanced_def by blast
qed

lemma wait_weaken: "wait_advanced i p (Suc n) sv e sv' e' \<Longrightarrow> wait_advanced i p n sv e sv' e'"
  unfolding wait_advanced_def by (elim exE conjE, intro exI conjI, assumption+) auto

lemma env_run_advances:
  assumes "env_run md eng jr i n s s'" and "system_inv jr input s" and "env_at i (sy_server s) e" and "p < length (rq_contents (je_requests e))"
  shows "system_inv jr input s' \<and> (\<exists>e'. env_at i (sy_server s') e' \<and> wait_advanced i p n (sy_server s) e (sy_server s') e')"
  using assms
proof (induction rule: env_run.induct)
  case (run_start s e')
  then show ?case by (auto simp: wait_advanced_def replies_def)
next
  case (run_other n s s1 s2 e2)
  then obtain e1 where 1: "system_inv jr input s1" "env_at i (sy_server s1) e1" "wait_advanced i p n (sy_server s) e (sy_server s1) e1" by blast
  have inv2: "system_inv jr input s2" using run_other.hyps(2) 1(1) by (rule system_step_inv)
  have m: "mgr_inv (sv_mgr (sy_server s1))" "mgr_inv (sv_mgr (sy_server s2))" "sv_pc (sy_server s1) i \<noteq> Stopped"
    using 1(1) inv2 by (simp_all add: system_inv_def)
  from system_step_cases [OF run_other.hyps(2) 1(1), of i] have "wait_advanced i p n (sy_server s) e (sy_server s2) e2"
  proof (elim disjE conjE exE)
    assume "own_step md eng i (sy_server s1) (sy_server s2)"
    then show ?thesis using wait_own [OF 1(3) _ 1(2) run_other.hyps(3) m run_other.prems(3)] wait_weaken by blast
  qed (rule wait_other [OF 1(3) _ 1(2) run_other.hyps(3)])
  with inv2 run_other.hyps(3) show ?case by blast
next
  case (run_own n s s1 w k sv)
  then obtain e1 where 1: "system_inv jr input s1" "env_at i (sy_server s1) e1" "wait_advanced i p n (sy_server s) e (sy_server s1) e1" by blast
  have inv2: "system_inv jr input (s1\<lparr>sy_server := sv\<rparr>)"
    using step_env [OF run_own.hyps(2-4,6)] 1(1) by (rule system_step_inv)
  have m: "mgr_inv (sv_mgr (sy_server s1))" "mgr_inv (sv_mgr sv)" "sv_pc (sy_server s1) i \<noteq> Stopped"
    using 1(1) inv2 by (simp_all add: system_inv_def)
  have own: "own_step md eng i (sy_server s1) sv"
    using thread_step_leaves [OF run_own.hyps(6) m(1) run_own.hyps(3,4), of i] run_own.hyps(5) by simp
  then obtain e2 where e2: "env_at i sv e2" unfolding own_step_def by blast
  from wait_own [OF 1(3) own 1(2) e2 m run_own.prems(3)] e2 inv2 show ?case by auto
qed

section \<open>Property\<close>

text \<open>
  Property C3.  No request waits for ever.  Take any reachable state and a request at position \<open>p\<close> of an environment's queue.  In
  every run of the program during which the environment is not destroyed, whatever other threads do and submit in between, once
  its thread has taken as many steps as \<open>wait_bound\<close> says, which grows by 102 for each request before it and does not
  depend on those after it, the request has been answered on standard output under its id.
\<close>

theorem request_answered_in_time:
  assumes "reachable md eng jr input s"
    and "env_at i (sy_server s) e" and "p < length (rq_contents (je_requests e))"
    and "env_run md eng jr i n s s'" and "wait_bound (sv_pc (sy_server s) i) p \<le> n"
  shows "\<exists>new r. sv_out (sy_server s') = sv_out (sy_server s) @ new \<and> r \<in> set new \<and> answers (rq_contents (je_requests e) ! p) r"
proof -
  have inv: "system_inv jr input s" using assms(1) by (rule reachable_inv)
  from env_run_advances [OF assms(4) inv assms(2,3)] obtain e' where
    e': "system_inv jr input s'" "wait_advanced i p n (sy_server s) e (sy_server s') e'" by blast
  from e'(2) [unfolded wait_advanced_def] obtain taken later out new where
    a: "rq_contents (je_requests e) @ later = taken @ rq_contents (je_requests e')"
      "list_all2 answers taken (replies i out)" "sv_out (sy_server s') = sv_out (sy_server s) @ new" "set out \<subseteq> set new"
      "p < length taken \<or> wait_bound (sv_pc (sy_server s') i) (p - length taken) + n \<le> wait_bound (sv_pc (sy_server s) i) p"
    by (elim exE conjE)
  have "sv_pc (sy_server s') i \<noteq> Stopped" using e'(1) by (simp add: system_inv_def)
  with a(5) assms(5) wait_bound_pos [of "sv_pc (sy_server s') i" "p - length taken"] have p: "p < length taken" by linarith
  then have "taken ! p = rq_contents (je_requests e) ! p" using arg_cong [OF a(1), of "\<lambda>xs. xs ! p"] assms(3) by (simp add: nth_append)
  moreover have "answers (taken ! p) (replies i out ! p)" "replies i out ! p \<in> set (replies i out)"
    using a(2) p by (simp_all add: list_all2_conv_all_nth)
  moreover have "set (replies i out) \<subseteq> set new" using a(4) by (auto simp: replies_def)
  ultimately show ?thesis using a(3) by (metis subsetD)
qed

section \<open>Witness\<close>

theorem request_answered_in_time_witness:
  "\<exists>s s' e new r. reachable (w_sha256 ex_world) ex_engine run_json run_input s \<and> env_at ''a'' (sy_server s) e \<and>
     rq_contents (je_requests e) = [run_request] \<and> env_run (w_sha256 ex_world) ex_engine run_json ''a'' 1 s s' \<and>
     sv_out (sy_server s') = sv_out (sy_server s) @ new \<and> r \<in> set new \<and> answers run_request r"
proof -
  obtain s e where s: "reachable (w_sha256 ex_world) ex_engine run_json run_input s" "sv_status (sy_server s) = Serving"
    "em_environments (sv_mgr (sy_server s)) = [e]" "je_env_id e = ''a''" "sv_pc (sy_server s) ''a'' = Draining"
    "rq_contents (je_requests e) = [run_request]" using run_to_request by blast
  have inv: "mgr_inv (sv_mgr (sy_server s))" "\<forall>i. sv_pc (sy_server s) i \<noteq> Stopped"
    using reachable_inv [OF s(1)] by (simp_all add: system_inv_def)
  have k: "0 < length (em_environments (sv_mgr (sy_server s)))" using s(3) by simp
  from env_thread_step_spec [OF inv(1) world_of_ok [OF run_world_of] k inv(2), of ex_engine] obtain sv where
    sv: "env_thread_step run_world ex_engine 0 (sy_server s) = Some sv" by blast
  have at: "env_at ''a'' (sy_server s) e" using s(3,4) by (simp add: env_at_def)
  have "env_run (w_sha256 ex_world) ex_engine run_json ''a'' (Suc 0) s (s\<lparr>sy_server := sv\<rparr>)"
    using s(3,4) by (intro run_own [OF run_start [OF at] s(2) run_world_of k _ sv]) simp
  then have run: "env_run (w_sha256 ex_world) ex_engine run_json ''a'' 1 s (s\<lparr>sy_server := sv\<rparr>)" by simp
  have "wait_bound (sv_pc (sy_server s) ''a'') 0 \<le> 1" by (simp add: s(5) drain_bound_def)
  from request_answered_in_time [OF s(1) at _ run this] s(1,6) at run show ?thesis by fastforce
qed

end
