(* ===== verification/Due_Work.thy ===== *)
theory Due_Work
  imports Event_Thread
begin

text \<open>
  The work that becomes due while no request asks for it: pending jobs, timers and completed fetches.  A round of
  \<^verbatim>\<open>env_process_jobs\<close> in \<^verbatim>\<open>src/env_manager.c\<close> puts the passes over the timers (\<^verbatim>\<open>src/polyfill/timer.c\<close>) and the fetches
  (\<^verbatim>\<open>src/polyfill/fetch.c\<close>) together with the engine's queue of jobs; nothing that is due is left behind by it.
\<close>

section \<open>The fetch pass in an environment\<close>

lemma settle_timers: "je_timer_mgr (cqjs_call_settle w eng f arg e) = je_timer_mgr e"
  by (simp add: cqjs_call_settle_def on_big_stack_def ask_def on_heap_def)

lemma fetch_pass_timers:
  assumes "env_fetch_pass w eng e = Some (settled, e')"
  shows "je_timer_mgr e' = je_timer_mgr e"
proof -
  have "fetch_env_keeps (\<lambda>x. je_timer_mgr x = je_timer_mgr e) (env_fetch_env w eng)"
    by (simp add: fetch_env_keeps_def env_fetch_env_def settle_timers on_heap_def ask_def)
  moreover from assms obtain fm x where "fm_process_pending (env_fetch_env w eng) (je_fetch_mgr e, e) = Some (settled, fm, x)"
    "e' = x\<lparr>je_fetch_mgr := fm\<rparr>" by (auto simp: env_fetch_pass_def)
  ultimately show ?thesis using fm_process_pending_keeps by fastforce
qed

lemma fetch_pass_settles:
  assumes "env_inv e" and "env_fetch_pass w eng e = Some (settled, e')" and "f \<in> set (fm_head (je_fetch_mgr e))" and "fe_completed f"
  shows "(fe_addr f, settle_of f) \<in> set settled" and "fe_addr f \<notin> fe_addr ` set (fm_head (je_fetch_mgr e'))"
proof -
  have "fm_inv (je_fetch_mgr e)" using assms(1) by (simp add: env_inv_def)
  from ef.process_spec [OF this, of w eng e] assms(2) have post: "fscan_post (w_curl w) 0 (je_fetch_mgr e) settled (je_fetch_mgr e')"
    by (auto simp: env_fetch_pass_def)
  then show "(fe_addr f, settle_of f) \<in> set settled" using assms(3,4) by (simp add: fscan_post_def)
  with post show "fe_addr f \<notin> fe_addr ` set (fm_head (je_fetch_mgr e'))" by (force simp: fscan_post_def)
qed

lemma submits_timers: "je_timer_mgr (fold env_submit_request rs e) = je_timer_mgr e"
  by (induction rs arbitrary: e) (simp_all add: env_submit_request_def)

lemma arrivals_timers: "je_timer_mgr (env_arrivals w e) = je_timer_mgr e"
  by (simp add: env_arrivals_def submits_timers ask_def)

section \<open>Property\<close>

text \<open>
  Property C8.  A round of jobs leaves nothing due.  In every environment a round of \<^verbatim>\<open>env_process_jobs\<close> returns, whatever the
  callbacks do.  It runs a job if one is pending; after it no timer is left that is cleared or was due when the pass over the timers
  began; every fetch whose transfer was complete when the pass over the fetches began has had its promise settled with the
  outcome of its own transfer and is gone; and there is another round exactly when this one had something to do and no
  request waits.
\<close>

theorem jobs_round_leaves_nothing_due:
  assumes "env_inv e" and "clock_advances w"
  shows "\<exists>executed e1 fired e2 settled e3 again e'.
    env_run_job w eng e = (executed, e1) \<and> (executed = 0 \<longleftrightarrow> en_job eng (je_heap e) = None) \<and>
    env_timer_pass w eng e1 = Some (fired, e2) \<and> env_fetch_pass w eng e2 = Some (settled, e3) \<and>
    env_jobs_round w eng e = Some (again, e') \<and>
    (\<forall>t \<in> set (tm_head (je_timer_mgr e')). waiting (env_clock w (je_clock e1)) t) \<and>
    (\<forall>f \<in> set (fm_head (je_fetch_mgr e2)). fe_completed f \<longrightarrow>
       (fe_addr f, settle_of f) \<in> set settled \<and> fe_addr f \<notin> fe_addr ` set (fm_head (je_fetch_mgr e'))) \<and>
    (again \<longleftrightarrow> (0 < executed \<or> fired \<noteq> [] \<or> settled \<noteq> []) \<and> rq_contents (je_requests e') = [])"
proof -
  obtain executed e1 where j: "env_run_job w eng e = (executed, e1)" by (rule prod.exhaust)
  have job: "executed = 0 \<longleftrightarrow> en_job eng (je_heap e) = None"
    using j by (auto simp: env_run_job_def split: option.splits prod.splits)
  have inv1: "env_inv e1" using run_job_ok [of w e eng] j assms(1) by (auto intro: script_ok_inv)
  from timer_pass [OF inv1 assms(2), of eng] obtain fired e2 where
    t: "env_timer_pass w eng e1 = Some (fired, e2)" "env_inv e2" "\<forall>t \<in> set (tm_head (je_timer_mgr e2)). waiting (env_clock w (je_clock e1)) t"
    by blast
  from fetch_pass [OF t(2), of w eng] obtain settled e3 where f: "env_fetch_pass w eng e2 = Some (settled, e3)" "env_inv e3" by blast
  define idle where "idle \<longleftrightarrow> executed \<le> 0 \<and> fired = [] \<and> settled = []"
  define e' where "e' = (if idle then e3 else env_arrivals w e3)"
  have a: "env_inv (env_arrivals w e3)" "je_fetch_mgr (env_arrivals w e3) = je_fetch_mgr e3"
    "je_timer_mgr (env_arrivals w e3) = je_timer_mgr e3"
    using arrivals_serve [OF f(2), of w] by (simp_all add: arrivals_timers)
  have m: "je_fetch_mgr e' = je_fetch_mgr e3" "je_timer_mgr e' = je_timer_mgr e2" "rq_inv (je_requests e')"
    using a f(2) fetch_pass_timers [OF f(1)] by (simp_all add: e'_def env_inv_def)
  define again where "again \<longleftrightarrow> \<not> idle \<and> rq_head (je_requests e') = None"
  have "env_jobs_round w eng e = Some (again, e')"
    by (simp add: env_jobs_round_def j t(1) f(1) again_def e'_def idle_def Let_def)
  moreover have "again \<longleftrightarrow> (0 < executed \<or> fired \<noteq> [] \<or> settled \<noteq> []) \<and> rq_contents (je_requests e') = []"
    using rq_head_None [OF m(3)] by (auto simp: again_def idle_def)
  moreover have "\<forall>t \<in> set (tm_head (je_timer_mgr e')). waiting (env_clock w (je_clock e1)) t" using t(3) m(2) by simp
  moreover have "\<forall>f \<in> set (fm_head (je_fetch_mgr e2)). fe_completed f \<longrightarrow>
       (fe_addr f, settle_of f) \<in> set settled \<and> fe_addr f \<notin> fe_addr ` set (fm_head (je_fetch_mgr e'))"
    using fetch_pass_settles [OF t(2) f(1)] m(1) by simp
  ultimately show ?thesis using j job t(1) f(1)
    by (intro exI [of _ executed] exI [of _ e1] exI [of _ fired] exI [of _ e2] exI [of _ settled] exI [of _ e3]
        exI [of _ again] exI [of _ e'] conjI)
qed

section \<open>Witness\<close>

text \<open>An environment with a job to run, a timer that is due and a fetch whose transfer has failed.\<close>

definition ex_pending :: "string fetch_entry" where
  "ex_pending = fetch_new_entry ex_env_api 0 ''res'' ''rej'' ''http://h/'' []"

definition ex_failed :: "string fetch_entry" where
  "ex_failed = ex_pending\<lparr>fe_is_error := True, fe_error_msg := Some ''fetch: curl_easy_init failed'', fe_completed := True\<rparr>"

definition ex_notified :: "(string, unit) js_env" where
  "ex_notified = ex_js_env\<lparr>je_fetch_mgr := \<lparr>fm_head = [ex_failed], fm_counter = 0, fm_pipe = 1,
     fm_threads = [(0, Finished)], fm_next = 1\<rparr>\<rparr>"

definition ex_timer :: "string timer_entry" where
  "ex_timer = \<lparr>te_id = 1, te_callback = ''cb'', te_interval_ms = 0, te_is_interval = False, te_canceled = False,
     te_next_fire = \<lparr>tv_sec = 0, tv_nsec = 0\<rparr>\<rparr>"

definition ex_due :: "(string, unit) js_env" where
  "ex_due = ex_notified\<lparr>je_timer_mgr := \<lparr>tm_head = [ex_timer], tm_counter = 1, tm_pipe = 0\<rparr>\<rparr>"

definition ex_job_engine :: "(string, unit) engine" where
  "ex_job_engine = ex_engine\<lparr>en_job := \<lambda>h. Some (ScriptEnd (Some ''job'') h)\<rparr>"

lemma ex_due_inv: "env_inv ex_due"
  using ex_env_facts(1)
  by (simp add: env_inv_def ex_due_def ex_notified_def ex_timer_def tm_inv_def timer_ok_def fm_inv_def entry_ok_def
      ex_failed_def ex_pending_def fetch_new_entry_def wf_timespec_def Let_def)

theorem jobs_round_leaves_nothing_due_witness:
  "\<exists>executed e1 again e'. env_run_job ex_world ex_job_engine ex_due = (executed, e1) \<and> executed \<noteq> 0 \<and>
     env_jobs_round ex_world ex_job_engine ex_due = Some (again, e') \<and>
     ex_timer \<in> set (tm_head (je_timer_mgr ex_due)) \<and> ex_timer \<notin> set (tm_head (je_timer_mgr e')) \<and>
     ex_failed \<in> set (fm_head (je_fetch_mgr ex_due)) \<and> fe_addr ex_failed \<notin> fe_addr ` set (fm_head (je_fetch_mgr e'))"
proof -
  have job: "en_job ex_job_engine (je_heap ex_due) \<noteq> None" by (simp add: ex_job_engine_def)
  obtain executed e1 fired e2 settled e3 again e' where
    r: "env_run_job ex_world ex_job_engine ex_due = (executed, e1)" "executed = 0 \<longleftrightarrow> en_job ex_job_engine (je_heap ex_due) = None"
      "env_timer_pass ex_world ex_job_engine e1 = Some (fired, e2)" "env_jobs_round ex_world ex_job_engine ex_due = Some (again, e')"
    and t: "\<forall>t \<in> set (tm_head (je_timer_mgr e')). waiting (env_clock ex_world (je_clock e1)) t"
    and f: "\<forall>f \<in> set (fm_head (je_fetch_mgr e2)). fe_completed f \<longrightarrow>
       (fe_addr f, settle_of f) \<in> set settled \<and> fe_addr f \<notin> fe_addr ` set (fm_head (je_fetch_mgr e'))"
    using jobs_round_leaves_nothing_due [OF ex_due_inv ex_env_facts(2), of ex_job_engine] by (elim exE conjE) (rule that)
  have ok: "script_ok ex_world ex_due e1" using run_job_ok [of ex_world ex_due ex_job_engine] r(1) by simp
  from timer_pass [OF script_ok_inv [OF ok ex_due_inv] ex_env_facts(2), of ex_job_engine] r(3) ok
  have g: "fm_grows (je_fetch_mgr ex_due) (je_fetch_mgr e2)" using fm_grows_trans by (auto simp: script_ok_def)
  have here: "ex_failed \<in> set (fm_head (je_fetch_mgr ex_due))" "fe_completed ex_failed" "ex_timer \<in> set (tm_head (je_timer_mgr ex_due))"
    by (simp_all add: ex_due_def ex_notified_def ex_failed_def)
  have "fe_addr ex_failed \<notin> fe_addr ` set (fm_head (je_fetch_mgr e'))" using f g here(1,2) unfolding fm_grows_def by blast
  moreover have "0 \<le> time_ns (env_clock ex_world n)" for n
    by (simp add: time_ns_def clock_gettime_def ex_world_def)
  then have "\<not> waiting (env_clock ex_world n) ex_timer" for n by (simp add: waiting_def ex_timer_def time_ns_def not_less)
  then have "ex_timer \<notin> set (tm_head (je_timer_mgr e'))" using t by blast
  ultimately show ?thesis using r(1,2,4) job here(1,3) by blast
qed

end
