(* ===== verification/Wake_Up.thy ===== *)
theory Wake_Up
  imports Due_Work
begin

text \<open>
  The notification pipe of the fetch manager and the event loop that polls it.  A worker thread (\<^verbatim>\<open>src/polyfill/fetch.c\<close>,
  \<^verbatim>\<open>fetch_worker_wrapper\<close>) marks its request completed and then writes a byte; the event loop (\<^verbatim>\<open>src/env_manager.c\<close>,
  \<^verbatim>\<open>env_event_loop\<close>) polls the pipe, reads up to 64 bytes of it, and looks for completed requests later in the same
  turn.  Reading the pipe does take a wake-up away; the theory shows that the pass of that turn makes up for it, so the
  thread never waits in \<^verbatim>\<open>poll\<close> beside a completed request that nobody will wake it for.
\<close>

section \<open>The thread among the others\<close>

text \<open>
  The thread of an environment takes its steps; between any two of them the worker threads may move, the main thread
  may hand over a request, and other environments may change the shared cache.
\<close>

inductive thread_run ::
    "host_world \<Rightarrow> ('v, 'h) engine \<Rightarrow> ('v, 'h) loop_state \<Rightarrow> ('v, 'h) loop_state \<Rightarrow> bool"
  for w eng where
  run_refl: "thread_run w eng s s"
| run_step: "thread_run w eng s s1 \<Longrightarrow> loop_step w eng s1 = Some (hs, s2) \<Longrightarrow> thread_run w eng s s2"
| run_workers: "thread_run w eng s (pc, cache, e) \<Longrightarrow> worker_steps (w_curl w) (je_fetch_mgr e) fm \<Longrightarrow>
    thread_run w eng s (pc, cache, e\<lparr>je_fetch_mgr := fm\<rparr>)"
| run_submit: "thread_run w eng s (pc, cache, e) \<Longrightarrow> thread_run w eng s (pc, cache, env_submit_request r e)"
| run_cache: "thread_run w eng s (pc, cache, e) \<Longrightarrow> thread_run w eng s (pc, cache', e)"

lemma loop_steps_run: "loop_steps n w eng s = Some (hs, s') \<Longrightarrow> thread_run w eng s0 s \<Longrightarrow> thread_run w eng s0 s'"
proof (induction n arbitrary: s hs)
  case (Suc n)
  then obtain hs1 s1 hs2 where "loop_step w eng s = Some (hs1, s1)" "loop_steps n w eng s1 = Some (hs2, s')"
    by (auto split: option.splits)
  with Suc show ?case using run_step by blast
qed simp

section \<open>What a round does to the requests\<close>

text \<open>Every request that was completed is gone after the round, and no address comes back.\<close>

definition fm_passed :: "'v fetch_manager \<Rightarrow> 'v fetch_manager \<Rightarrow> bool" where
  "fm_passed fm fm' \<longleftrightarrow> fm_next fm \<le> fm_next fm' \<and>
     (\<forall>f \<in> set (fm_head fm). fe_completed f \<longrightarrow> fe_addr f \<notin> fe_addr ` set (fm_head fm')) \<and>
     (\<forall>f \<in> set (fm_head fm'). fe_addr f < fm_next fm \<longrightarrow> fe_addr f \<in> fe_addr ` set (fm_head fm))"

lemma grows_passed:
  assumes "fm_grows a b" and "fm_passed b c"
  shows "fm_passed a c"
proof -
  have "fe_addr f \<in> fe_addr ` set (fm_head a)" if "f \<in> set (fm_head c)" "fe_addr f < fm_next a" for f
  proof -
    have "fe_addr f \<in> fe_addr ` set (fm_head b)" using assms that by (auto simp: fm_grows_def fm_passed_def)
    with assms(1) that(2) show ?thesis by (auto simp: fm_grows_def)
  qed
  with assms show ?thesis by (auto simp: fm_grows_def fm_passed_def)
qed

lemma fetch_pass_passed:
  assumes "env_inv e" and "env_fetch_pass w eng e = Some (settled, e')"
  shows "fm_passed (je_fetch_mgr e) (je_fetch_mgr e')"
proof -
  have "fm_inv (je_fetch_mgr e)" using assms(1) by (simp add: env_inv_def)
  from ef.process_spec [OF this, of w eng e] assms(2)
  have post: "fscan_post (w_curl w) 0 (je_fetch_mgr e) settled (je_fetch_mgr e')" by (auto simp: env_fetch_pass_def)
  then have "fe_addr ` set (fm_head (je_fetch_mgr e')) \<subseteq> fe_addr ` set (fm_head (je_fetch_mgr e))"
    "fm_next (je_fetch_mgr e') = fm_next (je_fetch_mgr e)" by (auto simp: fscan_post_def)
  then show ?thesis using fetch_pass_settles(2) [OF assms] by (auto simp: fm_passed_def)
qed

lemma jobs_round_passed:
  assumes "env_inv e" and "clock_advances w" and "env_jobs_round w eng e = Some (again, e')"
  shows "env_inv e'" and "awake (je_fetch_mgr e')" and "fm_passed (je_fetch_mgr e) (je_fetch_mgr e')"
proof -
  obtain again1 e1 where "env_jobs_round w eng e = Some (again1, e1)" "env_inv e1" "awake (je_fetch_mgr e1)"
    by (rule jobs_round_serves [OF assms(1,2), of eng])
  with assms(3) show "env_inv e'" "awake (je_fetch_mgr e')" by simp_all
  obtain executed e1 where j: "env_run_job w eng e = (executed, e1)" by (rule prod.exhaust)
  have ok: "script_ok w e e1" using run_job_ok [of w e eng] j by simp
  from timer_pass [OF script_ok_inv [OF ok assms(1)] assms(2), of eng] obtain fired e2 where
    t: "env_timer_pass w eng e1 = Some (fired, e2)" "env_inv e2" "fm_grows (je_fetch_mgr e1) (je_fetch_mgr e2)" by blast
  from fetch_pass [OF t(2), of w eng] obtain settled e3 where f: "env_fetch_pass w eng e2 = Some (settled, e3)" "env_inv e3" by blast
  have "e' = e3 \<or> e' = env_arrivals w e3"
    using assms(3) by (auto simp: env_jobs_round_def j t(1) f(1) Let_def split: if_splits)
  then have "je_fetch_mgr e' = je_fetch_mgr e3" using arrivals_serve [OF f(2), of w] by auto
  moreover have "fm_grows (je_fetch_mgr e) (je_fetch_mgr e2)"
    using ok t(3) fm_grows_trans by (auto simp: script_ok_def)
  ultimately show "fm_passed (je_fetch_mgr e) (je_fetch_mgr e')"
    using grows_passed fetch_pass_passed [OF t(2) f(1)] by simp
qed

text \<open>Evaluating a request only adds to the requests, as scripts do.\<close>

lemma evaluate_grows:
  assumes "env_evaluate w eng req cache e = (jobs, cache', e')"
  shows "fm_grows (je_fetch_mgr e) (je_fetch_mgr e')"
proof -
  have resp: "fm_grows (je_fetch_mgr e) (je_fetch_mgr (env_respond eng m i r e1))" if "script_ok w e e1" for m i r e1
    using that by (auto simp: script_ok_def env_respond_def send_def drop_exception_def on_heap_def Let_def split: option.splits prod.splits)
  have err: "fm_grows (je_fetch_mgr e) (je_fetch_mgr (send x e))" for x by (simp add: send_def)
  have script: "eval_cached w eng src fn cache e = (r, c, e1) \<Longrightarrow> script_ok w e e1"
      "cqjs_eval w eng src fn False e = (r, e1) \<Longrightarrow> script_ok w e e1" for src fn r c e1
    using eval_cached_ok [of w e eng src fn cache] cqjs_ok(1) [of w e eng src fn False] by (metis snd_conv)+
  show ?thesis
    using assms by (auto simp: env_evaluate_def Let_def split: option.splits if_splits prod.splits
        intro: err resp [OF script(1)] resp [OF script(2)])
qed

section \<open>Two invariants of the thread\<close>

text \<open>Where a byte of the pipe may be missing: from reading the pipes to the first round of jobs after it.\<close>

fun awake_at :: "loop_pc \<Rightarrow> 'v fetch_manager \<Rightarrow> bool" where
  "awake_at LoopHead fm = awake fm"
| "awake_at Polling fm = awake fm"
| "awake_at Draining fm = True"
| "awake_at (Jobs k b) fm = (k < 100 \<longrightarrow> awake fm)"
| "awake_at Stopped fm = True"

text \<open>Where a completed request may still be in the list: until the last round of the turn.\<close>

fun before_pass :: "loop_pc \<Rightarrow> bool" where
  "before_pass LoopHead = False"
| "before_pass Polling = True"
| "before_pass Draining = True"
| "before_pass (Jobs k b) = (b \<or> 0 < k)"
| "before_pass Stopped = False"

definition due_or_gone :: "'v fetch_entry \<Rightarrow> loop_pc \<Rightarrow> 'v fetch_manager \<Rightarrow> bool" where
  "due_or_gone f pc fm \<longleftrightarrow> fe_addr f < fm_next fm \<and>
     (before_pass pc \<and> f \<in> set (fm_head fm) \<or> fe_addr f \<notin> fe_addr ` set (fm_head fm))"

lemma due_or_gone_grows:
  assumes "due_or_gone f pc fm" and "fe_completed f" and "fm_grows fm fm'" and "before_pass pc \<longrightarrow> before_pass pc'"
  shows "due_or_gone f pc' fm'"
  using assms by (fastforce simp: due_or_gone_def fm_grows_def)

lemma due_or_gone_passed:
  assumes "due_or_gone f pc fm" and "fe_completed f" and "fm_passed fm fm'"
  shows "due_or_gone f pc' fm'"
proof (cases "f \<in> set (fm_head fm)")
  case True
  with assms show ?thesis by (auto simp: due_or_gone_def fm_passed_def)
next
  case False
  with assms(1) have "fe_addr f < fm_next fm" "fe_addr f \<notin> fe_addr ` set (fm_head fm)" by (auto simp: due_or_gone_def)
  moreover from this assms(3) have "fe_addr f \<notin> fe_addr ` set (fm_head fm')" unfolding fm_passed_def by (metis imageE)
  ultimately show ?thesis using assms(3) by (simp add: due_or_gone_def fm_passed_def)
qed

lemma loop_step_wakes:
  assumes "loop_step w eng (pc, cache, e) = Some (hs, pc', cache', e')" and "env_inv e" and "clock_advances w"
  shows "env_inv e'" and "awake_at pc (je_fetch_mgr e) \<Longrightarrow> awake_at pc' (je_fetch_mgr e')"
    and "due_or_gone f pc (je_fetch_mgr e) \<Longrightarrow> fe_completed f \<Longrightarrow> due_or_gone f pc' (je_fetch_mgr e')"
proof -
  show "env_inv e'" using loop_step_serves [OF assms(2,3), of eng pc cache] assms(1) by auto
  have arr: "je_fetch_mgr (env_arrivals w e) = je_fetch_mgr e" using arrivals_serve [OF assms(2), of w] by simp
  have drained: "fm_grows (je_fetch_mgr e) (je_fetch_mgr (env_drain_pipes (e\<lparr>je_clock := n\<rparr>)))" for n
    by (simp add: fm_grows_def env_drain_pipes_def)
  have ev: "fm_grows (je_fetch_mgr e) (je_fetch_mgr e2)"
    if "env_evaluate w eng req cache ((env_arrivals w e)\<lparr>je_requests := q\<rparr>) = (jobs, cache2, e2)" for req q jobs cache2 e2
    using evaluate_grows [OF that] arr by simp
  note round = jobs_round_passed [OF assms(2,3)]
  show "awake_at pc' (je_fetch_mgr e')" if "awake_at pc (je_fetch_mgr e)"
    using assms(1) that by (cases "(w, eng, pc, cache, e)" rule: loop_step.cases)
      (auto simp: Let_def jobs_return_def split: prod.splits option.splits if_splits dest: round(2))
  show "due_or_gone f pc' (je_fetch_mgr e')" if d: "due_or_gone f pc (je_fetch_mgr e)" and c: "fe_completed f"
  proof -
    note grow = due_or_gone_grows [OF d c] and pass = due_or_gone_passed [OF d c]
    show ?thesis using assms(1) d
      by (cases "(w, eng, pc, cache, e)" rule: loop_step.cases)
        (auto simp: Let_def jobs_return_def arr split: prod.splits option.splits if_splits
          intro: grow drained ev pass dest: round(3))
  qed
qed

lemma workers_grow:
  assumes "worker_steps curl fm fm'" and "fm_inv fm"
  shows "fm_inv fm'" and "fm_grows fm fm'" and "awake_at pc fm \<Longrightarrow> awake_at pc fm'"
proof -
  note k = workers_keep [OF assms, of UNIV]
  then show "fm_inv fm'" by simp
  show "awake_at pc fm \<Longrightarrow> awake_at pc fm'" using k by (cases pc) auto
  from k have adv: "list_all2 (advanced curl) (fm_head fm) (fm_head fm')" and n: "fm_next fm' = fm_next fm" by simp_all
  have "fe_addr ` set (fm_head fm') = fe_addr ` set (fm_head fm)" using advanced_lists(2) [OF adv] by (metis list.set_map)
  then show "fm_grows fm fm'" using advanced_lists(3) [OF adv, of _ 0] n by (auto simp: fm_grows_def)
qed

lemma thread_run_awake:
  assumes "thread_run w eng s s'" and "clock_advances w"
    and "env_inv (snd (snd s))" and "awake_at (fst s) (je_fetch_mgr (snd (snd s)))"
  shows "env_inv (snd (snd s')) \<and> awake_at (fst s') (je_fetch_mgr (snd (snd s')))"
  using assms(1,3,4)
proof (induction rule: thread_run.induct)
  case (run_step s s1 hs s2)
  obtain pc cache e pc2 cache2 e2 where s: "s1 = (pc, cache, e)" "s2 = (pc2, cache2, e2)" by (metis prod_cases3)
  with run_step loop_step_wakes(1,2) [of w eng pc cache e hs pc2 cache2 e2, OF _ _ assms(2)] show ?case by simp
next
  case (run_workers s pc cache e fm)
  then have "fm_inv (je_fetch_mgr e)" by (simp add: env_inv_def)
  from workers_grow(1,3) [OF run_workers.hyps(2) this] run_workers show ?case by (simp add: env_inv_def)
next
  case (run_submit s pc cache e r)
  then show ?case by (simp add: env_inv_def env_submit_request_def rq.push_inv)
qed simp_all

lemma thread_run_settles:
  assumes "thread_run w eng s s'" and "clock_advances w" and "fe_completed f"
    and "env_inv (snd (snd s))" and "due_or_gone f (fst s) (je_fetch_mgr (snd (snd s)))"
  shows "env_inv (snd (snd s')) \<and> due_or_gone f (fst s') (je_fetch_mgr (snd (snd s')))"
  using assms(1,4,5)
proof (induction rule: thread_run.induct)
  case (run_step s s1 hs s2)
  obtain pc cache e pc2 cache2 e2 where s: "s1 = (pc, cache, e)" "s2 = (pc2, cache2, e2)" by (metis prod_cases3)
  with run_step loop_step_wakes(1,3) [of w eng pc cache e hs pc2 cache2 e2, OF _ _ assms(2)] assms(3) show ?case by simp
next
  case (run_workers s pc cache e fm)
  then have i: "fm_inv (je_fetch_mgr e)" and d: "due_or_gone f pc (je_fetch_mgr e)" by (simp_all add: env_inv_def)
  note g = workers_grow(1,2) [OF run_workers.hyps(2) i]
  from due_or_gone_grows [OF d assms(3) g(2) impI] g(1) run_workers show ?case by (simp add: env_inv_def)
next
  case (run_submit s pc cache e r)
  then show ?case by (simp add: env_inv_def env_submit_request_def rq.push_inv)
qed simp_all

section \<open>Property\<close>

text \<open>
  Property C9.  No completed fetch is forgotten, although the event loop reads the notification pipe before it looks at the
  requests.  Let the thread of an environment run from its loop head among the worker threads, the main thread and other
  environments.  Whenever it is about to wait in \<^verbatim>\<open>poll\<close>, every completed request in its list has a byte in the
  pipe, so that \<^verbatim>\<open>poll\<close> returns at once, or a worker thread that is about to write one.  And of the requests that are completed
  when it polls and reads the pipe, none is left in the list when it is back at its loop head, to which it always can return.
\<close>

theorem fetch_wakeup_not_lost:
  assumes "env_inv e0" and "awake (je_fetch_mgr e0)" and "clock_advances w"
    and "thread_run w eng (LoopHead, cache0, e0) (pc, cache, e)"
  shows "(pc \<in> {LoopHead, Polling} \<longrightarrow>
       (\<forall>f \<in> set (fm_head (je_fetch_mgr e)). fe_completed f \<longrightarrow>
          0 < fm_pipe (je_fetch_mgr e) \<or> map_of (fm_threads (je_fetch_mgr e)) (fe_addr f) = Some Notifying)) \<and>
     (pc = Polling \<longrightarrow>
       (\<forall>f \<in> set (fm_head (je_fetch_mgr e)). \<forall>cache' e'. fe_completed f \<longrightarrow>
          thread_run w eng (Polling, cache, e) (LoopHead, cache', e') \<longrightarrow>
          fe_addr f \<notin> fe_addr ` set (fm_head (je_fetch_mgr e'))) \<and>
       ((\<forall>k. w_arrivals w k = []) \<longrightarrow> (\<exists>cache' e'. thread_run w eng (Polling, cache, e) (LoopHead, cache', e'))))"
proof -
  from thread_run_awake [OF assms(4,3)] assms(1,2) have i: "env_inv e" and a: "awake_at pc (je_fetch_mgr e)" by simp_all
  have "\<forall>f \<in> set (fm_head (je_fetch_mgr e)). fe_completed f \<longrightarrow>
          0 < fm_pipe (je_fetch_mgr e) \<or> map_of (fm_threads (je_fetch_mgr e)) (fe_addr f) = Some Notifying"
    if "pc \<in> {LoopHead, Polling}" using a that by (auto simp: awake_on_def)
  moreover have "fe_addr f \<notin> fe_addr ` set (fm_head (je_fetch_mgr e'))"
    if "f \<in> set (fm_head (je_fetch_mgr e))" "fe_completed f" "thread_run w eng (Polling, cache, e) (LoopHead, cache', e')" for f cache' e'
  proof -
    have "due_or_gone f Polling (je_fetch_mgr e)"
      using i that(1) by (auto simp: due_or_gone_def env_inv_def fm_inv_def entry_ok_def)
    with thread_run_settles [OF that(3) assms(3) that(2)] i show ?thesis by (simp add: due_or_gone_def)
  qed
  moreover have "\<exists>cache' e'. thread_run w eng (Polling, cache, e) (LoopHead, cache', e')" if "\<forall>k. w_arrivals w k = []"
    using reaches_head [OF i assms(3) that, of Polling eng cache] loop_steps_run [OF _ run_refl] by blast
  ultimately show ?thesis by blast
qed

section \<open>Witness\<close>

text \<open>The environment of which \<open>ex_notified\<close> is left by the worker thread.\<close>

definition ex_fetching :: "(string, unit) js_env" where
  "ex_fetching = ex_js_env\<lparr>je_fetch_mgr := \<lparr>fm_head = [ex_pending], fm_counter = 0, fm_pipe = 0,
     fm_threads = [(0, Transfer)], fm_next = 1\<rparr>\<rparr>"

lemma ex_worker_steps: "worker_steps (w_curl ex_world) (je_fetch_mgr ex_fetching) (je_fetch_mgr ex_notified)"
proof -
  let ?fm = "je_fetch_mgr ex_fetching"
  let ?fm1 = "?fm\<lparr>fm_head := update_addr 0 (\<lambda>_. ex_failed) (fm_head ?fm), fm_threads := AList.update 0 Notifying (fm_threads ?fm)\<rparr>"
  have a: "fe_addr ex_pending = 0" by (simp add: ex_pending_def fetch_new_entry_def Let_def)
  have "worker_steps (w_curl ex_world) ?fm ?fm1"
    by (rule workers_complete [OF workers_refl, of _ 0 ex_pending])
      (simp_all add: ex_fetching_def ex_failed_def a fetch_worker_wrapper_def ex_world_def)
  from workers_notify [OF this, of 0] show ?thesis by (simp add: ex_fetching_def ex_notified_def a)
qed

lemma ex_fetching_facts: "env_inv ex_fetching" "awake (je_fetch_mgr ex_fetching)"
  using ex_env_facts(1)
  by (simp_all add: env_inv_def ex_fetching_def fm_inv_def entry_ok_def awake_on_def ex_pending_def fetch_new_entry_def Let_def)

theorem fetch_wakeup_not_lost_witness:
  "thread_run ex_world ex_engine (LoopHead, None, ex_fetching) (Polling, None, ex_notified) \<and>
   fm_head (je_fetch_mgr ex_notified) = [ex_failed] \<and> fe_completed ex_failed \<and> 0 < fm_pipe (je_fetch_mgr ex_notified) \<and>
   (\<exists>cache' e'. thread_run ex_world ex_engine (Polling, None, ex_notified) (LoopHead, cache', e') \<and>
      fe_addr ex_failed \<notin> fe_addr ` set (fm_head (je_fetch_mgr e')))"
proof -
  have "loop_step ex_world ex_engine (LoopHead, None, ex_fetching) = Some ([], Polling, None, ex_fetching)"
    by (simp add: ex_fetching_def ex_js_env_def env_submit_request_def)
  from run_workers [OF run_step [OF run_refl this] ex_worker_steps]
  have run: "thread_run ex_world ex_engine (LoopHead, None, ex_fetching) (Polling, None, ex_notified)"
    by (simp add: ex_fetching_def ex_notified_def)
  have n: "fm_head (je_fetch_mgr ex_notified) = [ex_failed]" "fe_completed ex_failed"
    "map_of (fm_threads (je_fetch_mgr ex_notified)) (fe_addr ex_failed) = Some Finished"
    by (simp_all add: ex_notified_def ex_failed_def ex_pending_def fetch_new_entry_def Let_def)
  have "\<forall>k. w_arrivals ex_world k = []" by (simp add: ex_world_def)
  with fetch_wakeup_not_lost [OF ex_fetching_facts ex_env_facts(2) run] n run show ?thesis by auto blast
qed

end
