(* ===== verification/Interleaved_Stop.thy ===== *)
theory Interleaved_Stop
  imports Env_Manager
begin

text \<open>
  Stopping an environment while the others go on.  \<^verbatim>\<open>env_destroy\<close> of \<^verbatim>\<open>src/env_manager.c\<close> waits for the thread of the environment
  with \<^verbatim>\<open>pthread_join\<close>; \<open>env_stop\<close> lets it take its steps without interruption.  Here the threads of other environments run
  between any two of them.  The bytecode cache is all they share with it, so the cache may be a different one before each
  step; the end of the wait and what becomes of the queued requests do not depend on it.
\<close>

section \<open>Steps among those of other threads\<close>

text \<open>\<open>others k\<close> is what the other threads do to the cache before the \<open>k\<close>th step.\<close>

fun steps_among ::
    "(nat \<Rightarrow> bytecode_cache option \<Rightarrow> bytecode_cache option) \<Rightarrow> nat \<Rightarrow> nat \<Rightarrow> host_world \<Rightarrow> ('v, 'h) engine \<Rightarrow> ('v, 'h) loop_state \<Rightarrow>
     (env_request list \<times> ('v, 'h) loop_state) option" where
  "steps_among others k 0 w eng s = Some ([], s)"
| "steps_among others k (Suc n) w eng (pc, cache, e) =
     (case loop_step w eng (pc, others k cache, e) of
        None \<Rightarrow> None
      | Some (hs, s') \<Rightarrow> map_option (\<lambda>(hs', s''). (hs @ hs', s'')) (steps_among others (Suc k) n w eng s'))"

lemma stopped_among: "\<exists>cache'. steps_among others k n w eng (Stopped, cache, e) = Some ([], Stopped, cache', e)"
  by (induction n arbitrary: k cache) simp_all

lemma stop_among:
  assumes "env_inv e" and "clock_advances w" and "\<forall>k. w_arrivals w k = []" and "\<not> je_running e"
    and "steps_left pc (length (rq_contents (je_requests e))) \<le> n"
  shows "\<exists>hs cache' e'. steps_among others k n w eng (pc, cache, e) = Some (hs, Stopped, cache', e') \<and> env_inv e' \<and>
    serves w hs hs e e' \<and> (if drains pc then rq_contents (je_requests e') = [] else hs = [])"
  using assms(1,4,5)
proof (induction n arbitrary: k pc cache e)
  case 0
  then have "pc = Stopped" by (cases pc) (simp_all split: if_splits)
  with 0 show ?case by simp
next
  case (Suc n)
  show ?case
  proof (cases "pc = Stopped")
    case True
    with stopped_among [of others k "Suc n" w eng cache e] Suc.prems(1) show ?thesis by force
  next
    case False
    obtain hs1 pc1 cache1 e1 where s: "loop_step w eng (pc, others k cache, e) = Some (hs1, pc1, cache1, e1)" "env_inv e1"
      "serves w hs1 hs1 e e1" by (rule loop_step_serves [OF Suc.prems(1) assms(2)])
    note d = loop_step_decreases [OF s(1) Suc.prems(1) assms(3) s(3) impI [OF Suc.prems(2)] False]
    have "\<not> je_running e1" using Suc.prems(2) s(3) by (simp add: serves_def)
    moreover have "steps_left pc1 (length (rq_contents (je_requests e1))) \<le> n" using d(1) Suc.prems(3) by linarith
    ultimately obtain hs2 cache2 e2 where
      r: "steps_among others (Suc k) n w eng (pc1, cache1, e1) = Some (hs2, Stopped, cache2, e2)" "env_inv e2"
        "serves w hs2 hs2 e1 e2" "if drains pc1 then rq_contents (je_requests e2) = [] else hs2 = []"
      using Suc.IH [OF s(2)] by blast
    have q2: "rq_contents (je_requests e1) = hs2 @ rq_contents (je_requests e2)"
      using r(3) assms(3) by (rule serves_no_arrivals)
    have "steps_among others k (Suc n) w eng (pc, cache, e) = Some (hs1 @ hs2, Stopped, cache2, e2)"
      using s(1) r(1) by simp
    moreover have "serves w (hs1 @ hs2) (hs1 @ hs2) e e2" using s(3) r(3) by (rule serves_trans)
    moreover have "if drains pc then rq_contents (je_requests e2) = [] else hs1 @ hs2 = []"
      using d(2) r(4) q2 by (auto split: if_splits)
    ultimately show ?thesis using r(2) by blast
  qed
qed

section \<open>Property\<close>

text \<open>
  Property C15.  Waiting for a stopped thread ends.  However the threads of other environments run in between and whatever they do
  to the shared cache, the thread that \<^verbatim>\<open>env_destroy\<close> has told to stop leaves its loop after at most \<open>steps_left\<close> steps, a number
  that its place in the loop and the length of its queue determine; it has then answered all requests in its queue, in order,
  when it still drains it, and taken none otherwise, which is also what \<open>env_stop\<close> leaves.
\<close>

theorem stop_among_others:
  assumes "env_inv e" and "clock_advances w" and "\<forall>k. w_arrivals w k = []"
  shows "\<exists>hs cache' e' out. steps_among others 0 (steps_left pc (length (rq_contents (je_requests e)))) w eng
      (pc, cache, e\<lparr>je_running := False, je_pipe := je_pipe e @ ''q''\<rparr>) = Some (hs, Stopped, cache', e') \<and>
    winds_up pc hs e out e' \<and>
    (\<exists>hs0 cache0 e0 out0. env_stop w eng pc cache e = Some (hs0, cache0, e0) \<and> winds_up pc hs0 e out0 e0 \<and>
       hs0 = hs \<and> rq_contents (je_requests e0) = rq_contents (je_requests e'))"
proof -
  let ?e = "e\<lparr>je_running := False, je_pipe := je_pipe e @ ''q''\<rparr>"
  have "env_inv ?e" using assms(1) by (simp add: env_inv_def)
  from stop_among [OF this assms(2,3), of pc "steps_left pc (length (rq_contents (je_requests e)))" others 0 eng cache] obtain hs cache' e' where
    s: "steps_among others 0 (steps_left pc (length (rq_contents (je_requests e)))) w eng (pc, cache, ?e) = Some (hs, Stopped, cache', e')"
      "env_inv e'" "serves w hs hs ?e e'" "if drains pc then rq_contents (je_requests e') = [] else hs = []" by auto
  from s(3) obtain out where "je_out e' = je_out e @ out" "list_all2 answers hs (replies (je_env_id e) out)"
      "je_env_id e' = je_env_id e" "je_running e' = False" by (auto simp: serves_def)
  with s serves_no_arrivals(1) [OF s(3) assms(3)] have wu: "winds_up pc hs e out e'" by (simp add: winds_up_def)
  obtain hs0 cache0 out0 e0 where st: "env_stop w eng pc cache e = Some (hs0, cache0, e0)" "winds_up pc hs0 e out0 e0"
    by (rule stop_spec [OF assms(1,2)])
  have "hs0 = hs \<and> rq_contents (je_requests e0) = rq_contents (je_requests e')"
    using wu st(2) by (auto simp: winds_up_def split: if_splits)
  with s(1) wu st show ?thesis by blast
qed

section \<open>Witness\<close>

theorem stop_among_others_witness:
  "\<exists>hs cache' e'. steps_among (\<lambda>k c. if even k then None else Some (bc_init 4)) 0 (steps_left Polling 1) ex_world ex_engine
      (Polling, None, ex_js_env\<lparr>je_running := False, je_pipe := je_pipe ex_js_env @ ''q''\<rparr>) = Some (hs, Stopped, cache', e') \<and>
     hs = [ex_request]"
proof -
  have "\<forall>k. w_arrivals ex_world k = []" by (simp add: ex_world_def)
  from stop_among_others [OF ex_env_facts(1,2) this, of "\<lambda>k c. if even k then None else Some (bc_init 4)" Polling ex_engine None]
  show ?thesis by (fastforce simp: ex_env_facts(4) winds_up_def)
qed

end
