(* ===== verification/Cache_Eviction.thy ===== *)
theory Cache_Eviction
  imports Bytecode_Cache
begin

text \<open>
  How long a cached entry stays.  \<^verbatim>\<open>env_handle_eval\<close> in \<^verbatim>\<open>src/env_manager.c\<close> reads the entry that \<^verbatim>\<open>bc_lookup\<close> returns after the
  lock of the cache is released, while other threads may look up and insert.  The eviction of the least recently used entry in
  \<^verbatim>\<open>src/bytecode_cache.c\<close> is all that keeps the entry alive; this theory shows how far it goes and that it goes no further.
\<close>

section \<open>Properties\<close>

text \<open>What other threads do to the cache between the lookup of an entry and the use of its bytes.\<close>

abbreviation cache_do :: "(string, byte list) cache_op \<Rightarrow> bytecode_cache \<Rightarrow> bytecode_cache" where
  "cache_do \<equiv> do_op bc_lookup_bytes bc_insert"

text \<open>
  Property C24.  A cached entry stays while it is used, if the clock tells it apart.  \<^verbatim>\<open>env_handle_eval\<close> reads the bytes of the
  entry it has looked up after \<^verbatim>\<open>bc_lookup\<close> has released the lock.  Suppose that at the time of the lookup every other entry of the cache
  carries a time stamp strictly older than that time, and that what other threads do later happens at that time or after
  it.  Then the entry is in the cache with its bytes after every further operation, whatever lookups and insertions other threads
  do, until they have used as many different other hashes as the cache has places.  Time stamps are whole milliseconds: when another
  entry was used in the same millisecond the supposition fails, and one insertion into a full cache may evict the entry just looked up.
\<close>

theorem cached_entry_stays:
  assumes "bc_inv c" and "t < INT64_MAX" and "bc_lookup c h t = (Some entry, c')"
    and "\<forall>k v. bc_abs c k = Some v \<longrightarrow> k \<noteq> h \<longrightarrow> snd v < t"
    and "\<forall>op \<in> set ops. t \<le> op_time op \<and> op_time op < INT64_MAX"
    and "int (card (op_hash ` set ops - {h})) < bc_max_entries c"
  shows "\<forall>n. bc_contents (fold cache_do (take n ops) c') h = Some (be_bytecode entry)"
proof
  fix n
  have l: "bc_lookup_bytes c h t = (Some (be_bytecode entry), c')" using assms(3) by (simp add: bc_lookup_bytes_def)
  have sub: "set (take n ops) \<subseteq> set ops" by (rule set_take_subset)
  have "card (op_hash ` set (take n ops) - {h}) \<le> card (op_hash ` set ops - {h})"
    using sub by (intro card_mono) auto
  with assms(6) have "int (card (op_hash ` set (take n ops) - {h})) < bc_max_entries c" by linarith
  then show "bc_contents (fold cache_do (take n ops) c') h = Some (be_bytecode entry)"
    using sub assms(5) by (intro bc.used_entry_stays [OF assms(1,2) l assms(4)]) blast+
qed

text \<open>
  Property C25.  Nothing but this bound protects an entry that is read after the lock is released: as soon as other threads have stored, at
  later times, as many different sources as the cache has places, new ones or ones it already holds, the entry is gone, and
  with it the memory that the caller of \<^verbatim>\<open>bc_lookup\<close> still reads.
\<close>

theorem cached_entry_vanishes:
  assumes "bc_inv c" and "t < INT64_MAX" and "bc_lookup c h t = (Some entry, c')"
    and "\<forall>op \<in> set ops. op_inserts op \<and> t < op_time op \<and> op_time op < INT64_MAX \<and> op_hash op \<noteq> h"
    and "bc_max_entries c \<le> int (card (op_hash ` set ops))"
  shows "bc_contents (fold cache_do ops c') h = None"
proof -
  have "bc_lookup_bytes c h t = (Some (be_bytecode entry), c')" using assms(3) by (simp add: bc_lookup_bytes_def)
  from bc.used_entry_evicted [OF assms(1,2) this assms(4,5)] show ?thesis by simp
qed

section \<open>Witnesses\<close>

theorem cached_entry_stays_witness:
  "\<exists>entry. fst (bc_lookup ex_bc ''a'' 30) = Some entry \<and>
     bc_contents (fold cache_do [InsertOp ''c'' [3] 40] (snd (bc_lookup ex_bc ''a'' 30))) ''a'' = Some (be_bytecode entry)"
proof -
  have "fst (bc_lookup ex_bc ''a'' 30) \<noteq> None" by code_simp
  then obtain entry c' where l: "bc_lookup ex_bc ''a'' 30 = (Some entry, c')" by (cases "bc_lookup ex_bc ''a'' 30") auto
  have "\<forall>e \<in> set (concat (bc_buckets ex_bc)). be_last_access e < 30" by code_simp
  then have old: "\<forall>k v. bc_abs ex_bc k = Some v \<longrightarrow> k \<noteq> ''a'' \<longrightarrow> snd v < 30"
    by (auto simp: bc_abs_iff [OF ex_bc_inv] bc_entries_def entry_val_def)
  have "bc_max_entries ex_bc = 2" by code_simp
  with cached_entry_stays [OF ex_bc_inv _ l old, of "[InsertOp ''c'' [3] 40]"] have
    "\<forall>n. bc_contents (fold cache_do (take n [InsertOp ''c'' [3] 40]) c') ''a'' = Some (be_bytecode entry)"
    by (simp add: INT64_MAX_def)
  from spec [OF this, of 1] l show ?thesis by simp
qed

theorem cached_entry_vanishes_witness:
  "bc_contents (fold cache_do [InsertOp ''c'' [3] 40, InsertOp ''d'' [4] 41] (snd (bc_lookup ex_bc ''a'' 30))) ''a'' = None"
proof -
  have "fst (bc_lookup ex_bc ''a'' 30) \<noteq> None" by code_simp
  then obtain entry c' where l: "bc_lookup ex_bc ''a'' 30 = (Some entry, c')" by (cases "bc_lookup ex_bc ''a'' 30") auto
  have "bc_max_entries ex_bc = 2" by code_simp
  with cached_entry_vanishes [OF ex_bc_inv _ l, of "[InsertOp ''c'' [3] 40, InsertOp ''d'' [4] 41]"] l show ?thesis
    by (simp add: INT64_MAX_def)
qed

end
