(* ===== verification/Utf8.thy ===== *)
theory Utf8
  imports Js_Api
begin

text \<open>
  How a JavaScript string is made from C bytes and read back as C bytes: the UTF-8 routines of
  \<^verbatim>\<open>src/quickjs/cutils.h\<close> and the two functions of \<^verbatim>\<open>src/quickjs/quickjs.c\<close> every string of the
  program crosses, \<^verbatim>\<open>JS_NewStringLen\<close> and \<^verbatim>\<open>JS_ToCStringLen2\<close>.  A pointer into a buffer is the
  list of the bytes from it to the end of the buffer, so advancing it is taking the tail, two
  pointers into one buffer are equal when the lists are, and reading past the end is the value
  \<open>None\<close>.
\<close>

unbundle bit_operations_syntax

type_synonym u16 = "16 word"

named_theorems utf8_defs \<open>definitions of the UTF-8 routines, unfolded to evaluate a call\<close>

section \<open>Surrogates\<close>

definition is_hi_surrogate :: "u32 \<Rightarrow> bool" where [utf8_defs]:
  "is_hi_surrogate c \<longleftrightarrow> drop_bit 10 c = drop_bit 10 0xD800"

definition is_lo_surrogate :: "u32 \<Rightarrow> bool" where [utf8_defs]:
  "is_lo_surrogate c \<longleftrightarrow> drop_bit 10 c = drop_bit 10 0xDC00"

definition get_hi_surrogate :: "u32 \<Rightarrow> u32" where [utf8_defs]:
  "get_hi_surrogate c = drop_bit 10 c - drop_bit 10 0x10000 + 0xD800"

definition get_lo_surrogate :: "u32 \<Rightarrow> u32" where [utf8_defs]:
  "get_lo_surrogate c = (c AND 0x3FF) OR 0xDC00"

definition from_surrogate :: "u32 \<Rightarrow> u32 \<Rightarrow> u32" where [utf8_defs]:
  "from_surrogate hi lo = 65536 + 1024 * (hi AND 1023) + (lo AND 1023)"

section \<open>One code point\<close>

definition utf8_encode_len :: "u32 \<Rightarrow> nat" where [utf8_defs]:
  "utf8_encode_len c =
     (if c < 0x80 then 1
      else if c < 0x800 then 2
      else if c < 0x10000 then 3
      else if c < 0x110000 then 4
      else 3)"

text \<open>The bytes stored in the buffer; an assignment to a byte keeps the low eight bits.\<close>

definition utf8_encode :: "u32 \<Rightarrow> byte list" where [utf8_defs]:
  "utf8_encode c =
     (if c < 0x80 then [ucast c]
      else if c < 0x800 then
        [ucast (drop_bit 6 c OR 0xC0),
         ucast ((c AND 0x3F) OR 0x80)]
      else if c < 0x10000 then
        [ucast (drop_bit 12 c OR 0xE0),
         ucast ((drop_bit 6 c AND 0x3F) OR 0x80),
         ucast ((c AND 0x3F) OR 0x80)]
      else if c < 0x110000 then
        [ucast (drop_bit 18 c OR 0xF0),
         ucast ((drop_bit 12 c AND 0x3F) OR 0x80),
         ucast ((drop_bit 6 c AND 0x3F) OR 0x80),
         ucast ((c AND 0x3F) OR 0x80)]
      else
        [ucast (drop_bit 12 (0xFFFD :: u32) OR 0xE0),
         ucast ((drop_bit 6 (0xFFFD :: u32) AND 0x3F) OR 0x80),
         ucast ((0xFFFD AND 0x3F :: u32) OR 0x80)])"

text \<open>
  The arms of the switch of \<^verbatim>\<open>utf8_decode\<close>: \<open>c\<close> is the lead byte and the list starts after it.
  The conditions are evaluated from left to right, so a byte is read only where those before it
  are in range.  The result is the code point and the pointer stored in \<^verbatim>\<open>*pp\<close>.
\<close>

definition cont :: "byte \<Rightarrow> bool" where [utf8_defs]:
  "cont b \<longleftrightarrow> 0x80 \<le> b \<and> b \<le> 0xBF"

fun utf8_need1 :: "u32 \<Rightarrow> byte list \<Rightarrow> (u32 \<times> byte list) option" where
  "utf8_need1 c [] = None"
| "utf8_need1 c (p0 # p) =
     (if cont p0 then Some (push_bit 6 (c - 0xC0) + (ucast p0 - 0x80), p)
      else Some (0xFFFD, p0 # p))"

fun utf8_need2 :: "byte \<Rightarrow> u32 \<Rightarrow> byte list \<Rightarrow> (u32 \<times> byte list) option" where
  "utf8_need2 lower c [] = None"
| "utf8_need2 lower c (p0 # p) =
     (if lower \<le> p0 \<and> p0 \<le> 0xBF then
        (case p of
           [] \<Rightarrow> None
         | p1 # p' \<Rightarrow>
             if cont p1
             then Some (push_bit 12 (c - 0xE0) + push_bit 6 (ucast p0 - 0x80) + (ucast p1 - 0x80), p')
             else Some (0xFFFD, p0 # p))
      else Some (0xFFFD, p0 # p))"

fun utf8_need3 :: "byte \<Rightarrow> byte \<Rightarrow> u32 \<Rightarrow> byte list \<Rightarrow> (u32 \<times> byte list) option" where
  "utf8_need3 lower upper c [] = None"
| "utf8_need3 lower upper c (p0 # p) =
     (if lower \<le> p0 \<and> p0 \<le> upper then
        (case p of
           [] \<Rightarrow> None
         | p1 # p' \<Rightarrow>
             if cont p1 then
               (case p' of
                  [] \<Rightarrow> None
                | p2 # p'' \<Rightarrow>
                    if cont p2
                    then Some (push_bit 18 (c - 0xF0) + push_bit 12 (ucast p0 - 0x80) +
                               push_bit 6 (ucast p1 - 0x80) + (ucast p2 - 0x80), p'')
                    else Some (0xFFFD, p0 # p))
             else Some (0xFFFD, p0 # p))
      else Some (0xFFFD, p0 # p))"

fun utf8_decode :: "byte list \<Rightarrow> (u32 \<times> byte list) option" where
  "utf8_decode [] = None"
| "utf8_decode (b # p) =
     (let c = ucast b :: u32 in
      if c < 0x80 then Some (c, p)
      else if 0xC2 \<le> c \<and> c \<le> 0xDF then utf8_need1 c p
      else if c = 0xE0 then utf8_need2 0xA0 c p
      else if 0xE1 \<le> c \<and> c \<le> 0xEF then utf8_need2 0x80 c p
      else if c = 0xF0 then utf8_need3 0x90 0xBF c p
      else if c = 0xF4 then utf8_need3 0x80 0x8F c p
      else if 0xF1 \<le> c \<and> c \<le> 0xF3 then utf8_need3 0x80 0xBF c p
      else Some (0xFFFD, p))"

text \<open>\<open>max_len\<close> bytes may be read; the lead byte says how many a sequence needs.\<close>

definition utf8_decode_len :: "byte list \<Rightarrow> nat \<Rightarrow> (u32 \<times> byte list) option" where [utf8_defs]:
  "utf8_decode_len p max_len =
     (if max_len = 0 then Some (0xFFFD, p)
      else
        case p of
          [] \<Rightarrow> None
        | b # rest \<Rightarrow>
            if max_len = 1 \<and> \<not> b < 0x80 \<or> max_len = 2 \<and> \<not> b < 0xE0 \<or> max_len = 3 \<and> \<not> b < 0xF0
            then Some (0xFFFD, rest)
            else utf8_decode p)"

section \<open>Lemmas: shifts and masks as arithmetic\<close>

lemma or_as_plus:
  fixes m :: nat
  shows
    "m < 64 \<Longrightarrow> m OR 0x80 = m + 0x80"
    "m < 32 \<Longrightarrow> m OR 0xC0 = m + 0xC0"
    "m < 16 \<Longrightarrow> m OR 0xE0 = m + 0xE0"
    "m < 8 \<Longrightarrow> m OR 0xF0 = m + 0xF0"
    "m < 1024 \<Longrightarrow> m OR 0xDC00 = m + 0xDC00"
proof -
  have plus: "m OR k = m + k" if "m < 2 ^ n" "take_bit n k = 0" for m k n :: nat
  proof -
    have "m AND k = 0"
    proof (rule bit_eqI)
      fix i
      have "\<not> bit m i" if "n \<le> i"
        using \<open>m < 2 ^ n\<close> that
        by (metis take_bit_nat_eq_self bit_take_bit_iff not_less)
      moreover have "\<not> bit k i" if "i < n"
        using \<open>take_bit n k = 0\<close> that by (metis bit_0_eq bit_take_bit_iff bot_apply bot_bool_def)
      ultimately show "bit (m AND k) i = bit 0 i" by (cases "n \<le> i") (auto simp: bit_and_iff)
    qed
    then have "int m AND int k = 0" by (simp flip: of_nat_and_eq)
    then have "int (m OR k) = int (m + k)" using plus_and_or [of "int m" "int k"] by (simp add: of_nat_or_eq)
    then show ?thesis by (simp only: of_nat_eq_iff)
  qed
  show "m < 64 \<Longrightarrow> m OR 0x80 = m + 0x80" using plus [where m = m and n = 6 and k = "0x80"] by (simp add: take_bit_eq_mod)
  show "m < 32 \<Longrightarrow> m OR 0xC0 = m + 0xC0" using plus [where m = m and n = 5 and k = "0xC0"] by (simp add: take_bit_eq_mod)
  show "m < 16 \<Longrightarrow> m OR 0xE0 = m + 0xE0" using plus [where m = m and n = 4 and k = "0xE0"] by (simp add: take_bit_eq_mod)
  show "m < 8 \<Longrightarrow> m OR 0xF0 = m + 0xF0" using plus [where m = m and n = 3 and k = "0xF0"] by (simp add: take_bit_eq_mod)
  show "m < 1024 \<Longrightarrow> m OR 0xDC00 = m + 0xDC00" using plus [where m = m and n = 10 and k = "0xDC00"] by (simp add: take_bit_eq_mod)
qed

lemma and_as_mod:
  "n AND 0x3F = n mod (64 :: nat)"
  "n AND 1023 = n mod (1024 :: nat)"
  using take_bit_eq_mask [of 6 n] take_bit_eq_mask [of 10 n]
  by (simp_all add: take_bit_eq_mod mask_eq_exp_minus_1)

lemma ucast_via_nat: "unat x = n \<Longrightarrow> ucast x = of_nat n"
  by auto

lemmas unat_bits = unsigned_or_eq unsigned_and_eq unsigned_drop_bit_eq drop_bit_eq_div [where 'a = nat]

lemma unat_shift_or:
  fixes c :: u32
  shows "unat c < 0x800 \<Longrightarrow> unat (drop_bit 6 c OR 0xC0) = unat c div 64 + 0xC0"
    and "unat c < 0x10000 \<Longrightarrow> unat (drop_bit 12 c OR 0xE0) = unat c div 4096 + 0xE0"
    and "unat c < 0x110000 \<Longrightarrow> unat (drop_bit 18 c OR 0xF0) = unat c div 262144 + 0xF0"
    and "unat ((c AND 0x3F) OR 0x80) = unat c mod 64 + 0x80"
    and "unat ((drop_bit 6 c AND 0x3F) OR 0x80) = unat c div 64 mod 64 + 0x80"
    and "unat ((drop_bit 12 c AND 0x3F) OR 0x80) = unat c div 4096 mod 64 + 0x80"
proof -
  have [simp]: "take_bit 32 (unat c) = unat c"
    using unsigned_less [of c, where ?'a = nat] by (simp add: take_bit_nat_eq_self_iff)
  show "unat c < 0x800 \<Longrightarrow> unat (drop_bit 6 c OR 0xC0) = unat c div 64 + 0xC0"
    by (simp add: unat_bits or_as_plus)
  show "unat c < 0x10000 \<Longrightarrow> unat (drop_bit 12 c OR 0xE0) = unat c div 4096 + 0xE0"
    by (simp add: unat_bits or_as_plus)
  show "unat c < 0x110000 \<Longrightarrow> unat (drop_bit 18 c OR 0xF0) = unat c div 262144 + 0xF0"
    by (simp add: unat_bits or_as_plus)
  show "unat ((c AND 0x3F) OR 0x80) = unat c mod 64 + 0x80"
    by (simp add: unat_bits or_as_plus and_as_mod)
  show "unat ((drop_bit 6 c AND 0x3F) OR 0x80) = unat c div 64 mod 64 + 0x80"
    by (simp add: unat_bits or_as_plus and_as_mod)
  show "unat ((drop_bit 12 c AND 0x3F) OR 0x80) = unat c div 4096 mod 64 + 0x80"
    by (simp add: unat_bits or_as_plus and_as_mod)
qed

text \<open>The bytes of a code point, as numbers.\<close>

lemma utf8_encode_nat:
  "utf8_encode c =
     (let n = unat c in
      map of_nat
        (if n < 0x80 then [n]
         else if n < 0x800 then [n div 64 + 0xC0, n mod 64 + 0x80]
         else if n < 0x10000 then [n div 4096 + 0xE0, n div 64 mod 64 + 0x80, n mod 64 + 0x80]
         else if n < 0x110000 then
           [n div 262144 + 0xF0, n div 4096 mod 64 + 0x80, n div 64 mod 64 + 0x80, n mod 64 + 0x80]
         else [0xEF, 0xBF, 0xBD]))"
  unfolding utf8_encode_def Let_def
  by (auto simp: word_less_nat_alt not_less simp del: of_nat_add
           intro!: ucast_via_nat unat_shift_or)

section \<open>Lemmas: one code point\<close>

lemma length_utf8_encode: "length (utf8_encode c) = utf8_encode_len c"
  by (simp add: utf8_encode_def utf8_encode_len_def)

lemma utf8_encode_len_pos [simp]: "0 < utf8_encode_len c" "utf8_encode_len c \<le> 4"
  by (simp_all add: utf8_encode_len_def)

lemma utf8_encode_ne [simp]: "utf8_encode c \<noteq> []"
  by (simp add: utf8_encode_def)

lemma unat_ucast_wider [simp]:
  "unat (ucast (b :: byte) :: u32) = unat b"
  "unat (ucast (u :: u16) :: u32) = unat u"
  "unat (ucast (b :: byte) :: u16) = unat b"
  using unsigned_less [of u, where ?'a = nat]
  by (simp_all add: unsigned_ucast_eq take_bit_nat_eq_self_iff less_trans [OF unat_byte_less])

lemma unat_of_nat_byte: "m < 256 \<Longrightarrow> unat (of_nat m :: byte) = m"
  by (simp add: unsigned_of_nat take_bit_nat_eq_self_iff)

lemma ucast_byte_nat: "m < 256 \<Longrightarrow> ucast (of_nat m :: byte) = (of_nat m :: u32)"
  by (rule ucast_via_nat) (rule unat_of_nat_byte)

lemma unat_of_nat_u32: "m < 0x110000 \<Longrightarrow> unat (of_nat m :: u32) = m"
  by (simp add: unsigned_of_nat take_bit_nat_eq_self_iff)

lemmas byte_cmp = word_le_nat_alt word_less_nat_alt unat_of_nat_byte unat_of_nat_u32 ucast_byte_nat

lemma cont_of_nat: "m < 256 \<Longrightarrow> cont (of_nat m) \<longleftrightarrow> 0x80 \<le> m \<and> m \<le> 0xBF"
  by (simp add: cont_def byte_cmp)

text \<open>The arms of the switch, on bytes in range.\<close>

lemma utf8_need1_nat:
  assumes "r < 64"
  shows "utf8_need1 (of_nat (k + 0xC0)) (of_nat (r + 0x80) # q) = Some (of_nat (k * 64 + r), q)"
  using assms by (simp add: cont_of_nat ucast_byte_nat del: of_nat_add) (simp add: push_bit_eq_mult)

lemma utf8_need2_nat:
  assumes "unat lower \<le> r + 0x80" "r < 64" "t < 64"
  shows "utf8_need2 lower (of_nat (k + 0xE0)) (of_nat (r + 0x80) # of_nat (t + 0x80) # q) =
           Some (of_nat (k * 4096 + r * 64 + t), q)"
  using assms by (simp add: cont_of_nat byte_cmp del: of_nat_add) (simp add: push_bit_eq_mult)

lemma utf8_need3_nat:
  assumes "unat lower \<le> r + 0x80" "r + 0x80 \<le> unat upper" "r < 64" "t < 64" "v < 64"
  shows "utf8_need3 lower upper (of_nat (k + 0xF0)) (of_nat (r + 0x80) # of_nat (t + 0x80) # of_nat (v + 0x80) # q) =
           Some (of_nat (k * 262144 + r * 4096 + t * 64 + v), q)"
  using assms by (simp add: cont_of_nat byte_cmp del: of_nat_add) (simp add: push_bit_eq_mult)

declare utf8_need1.simps [simp del] utf8_need2.simps [simp del] utf8_need3.simps [simp del]

lemma of_nat_eq_u32: "m < 256 \<Longrightarrow> of_nat m = (numeral k :: u32) \<longleftrightarrow> m = unat (numeral k :: u32)"
  by (auto simp: word_unat_eq_iff unat_of_nat_u32)

text \<open>The switch, on the lead byte as a number.\<close>

lemma utf8_decode_lead:
  assumes "m < 256"
  shows "utf8_decode (of_nat m # p) =
     (if m < 0x80 then Some (of_nat m, p)
      else if 0xC2 \<le> m \<and> m \<le> 0xDF then utf8_need1 (of_nat m) p
      else if m = 0xE0 then utf8_need2 0xA0 (of_nat m) p
      else if 0xE1 \<le> m \<and> m \<le> 0xEF then utf8_need2 0x80 (of_nat m) p
      else if m = 0xF0 then utf8_need3 0x90 0xBF (of_nat m) p
      else if m = 0xF4 then utf8_need3 0x80 0x8F (of_nat m) p
      else if 0xF1 \<le> m \<and> m \<le> 0xF3 then utf8_need3 0x80 0xBF (of_nat m) p
      else Some (0xFFFD, p))"
  using assms by (simp add: byte_cmp of_nat_eq_u32 Let_def)

declare utf8_decode.simps(2) [simp del]

text \<open>Six bits at a time.\<close>

lemma base64_digits:
  fixes n :: nat
  obtains k3 k2 k1 k0 where
    "k2 < 64" "k1 < 64" "k0 < 64" "n = k3 * 262144 + k2 * 4096 + k1 * 64 + k0"
proof -
  have e: "n = n div 64 * 64 + n mod 64" "n div 64 = n div 64 div 64 * 64 + n div 64 mod 64"
    "n div 64 div 64 = n div 64 div 64 div 64 * 64 + n div 64 div 64 mod 64"
    by (rule div_mult_mod_eq [symmetric])+
  then have "n = n div 64 div 64 div 64 * 262144 + n div 64 div 64 mod 64 * 4096 + n div 64 mod 64 * 64 + n mod 64"
    by linarith
  from that [OF _ _ _ this] show thesis by simp
qed

lemma digits_div_mod:
  fixes k r t v :: nat
  assumes "r < 64" "t < 64" "v < 64"
  shows "(k * 262144 + r * 4096 + t * 64 + v) div 262144 = k"
    and "(k * 262144 + r * 4096 + t * 64 + v) div 4096 mod 64 = r"
    and "(k * 262144 + r * 4096 + t * 64 + v) div 64 mod 64 = t"
    and "(k * 262144 + r * 4096 + t * 64 + v) mod 64 = v"
proof -
  let ?n = "k * 262144 + r * 4096 + t * 64 + v"
  show "?n div 262144 = k" by (rule div_nat_eqI) (use assms in simp_all)
  have "?n div 4096 = k * 64 + r" by (rule div_nat_eqI) (use assms in simp_all)
  then show "?n div 4096 mod 64 = r" using assms by simp
  have "?n div 64 = (k * 64 + r) * 64 + t" by (rule div_nat_eqI) (use assms in simp_all)
  then show "?n div 64 mod 64 = t" using assms by (simp only: mod_mult_self3) simp
  have "?n = ((k * 64 + r) * 64 + t) * 64 + v" by simp
  then show "?n mod 64 = v" using assms by (simp only: mod_mult_self3) simp
qed

text \<open>The encoder on the digits of a code point.\<close>

lemma utf8_encode_1: "n < 0x80 \<Longrightarrow> utf8_encode (of_nat n) = [of_nat n]"
  by (simp add: utf8_encode_nat unat_of_nat_u32)

lemma utf8_encode_2:
  assumes "r < 64" "2 \<le> k" "k < 32"
  shows "utf8_encode (of_nat (k * 64 + r)) = [of_nat (k + 0xC0), of_nat (r + 0x80)]"
  using assms by (simp add: utf8_encode_nat unat_of_nat_u32 Let_def del: of_nat_add)

lemma utf8_encode_3:
  assumes "r < 64" "t < 64" "k = 0 \<Longrightarrow> 32 \<le> r" "k < 16"
  shows "utf8_encode (of_nat (k * 4096 + r * 64 + t)) =
           [of_nat (k + 0xE0), of_nat (r + 0x80), of_nat (t + 0x80)]"
proof -
  let ?n = "k * 4096 + r * 64 + t"
  have "?n div 4096 = k" by (rule div_nat_eqI) (use assms in simp_all)
  moreover have "?n div 64 mod 64 = r" "?n mod 64 = t" using digits_div_mod(3,4) [of k r t 0] assms by simp_all
  moreover have "0x800 \<le> ?n" "?n < 0x10000" using assms by (cases "k = 0"; linarith)+
  ultimately show ?thesis by (simp add: utf8_encode_nat unat_of_nat_u32 Let_def del: of_nat_add)
qed

lemma utf8_encode_4:
  assumes "r < 64" "t < 64" "v < 64" "k = 0 \<Longrightarrow> 16 \<le> r" "k \<le> 4" "k = 4 \<Longrightarrow> r < 16"
  shows "utf8_encode (of_nat (k * 262144 + r * 4096 + t * 64 + v)) =
           [of_nat (k + 0xF0), of_nat (r + 0x80), of_nat (t + 0x80), of_nat (v + 0x80)]"
proof -
  let ?n = "k * 262144 + r * 4096 + t * 64 + v"
  have "0x10000 \<le> ?n" "?n < 0x110000" using assms by (cases "k = 0"; cases "k = 4"; linarith)+
  then show ?thesis using digits_div_mod [OF assms(1-3), of k]
    by (simp add: utf8_encode_nat unat_of_nat_u32 Let_def del: of_nat_add)
qed

text \<open>The decoder on the same bytes.\<close>

lemma utf8_decode_2:
  assumes "r < 64" "2 \<le> k" "k < 32"
  shows "utf8_decode (of_nat (k + 0xC0) # of_nat (r + 0x80) # q) = Some (of_nat (k * 64 + r), q)"
  using assms utf8_need1_nat [of r k q] by (simp add: utf8_decode_lead del: of_nat_add)

lemma utf8_decode_3:
  assumes "r < 64" "t < 64" "k = 0 \<Longrightarrow> 32 \<le> r" "k < 16"
  shows "utf8_decode (of_nat (k + 0xE0) # of_nat (r + 0x80) # of_nat (t + 0x80) # q) =
           Some (of_nat (k * 4096 + r * 64 + t), q)"
  using assms utf8_need2_nat [of "0xA0" r t k q] utf8_need2_nat [of "0x80" r t k q] utf8_decode_lead [of "k + 0xE0"]
  by (cases "k = 0") (simp_all del: of_nat_add)

lemma utf8_decode_4:
  assumes "r < 64" "t < 64" "v < 64" "k = 0 \<Longrightarrow> 16 \<le> r" "k \<le> 4" "k = 4 \<Longrightarrow> r < 16"
  shows "utf8_decode (of_nat (k + 0xF0) # of_nat (r + 0x80) # of_nat (t + 0x80) # of_nat (v + 0x80) # q) =
           Some (of_nat (k * 262144 + r * 4096 + t * 64 + v), q)"
  using assms utf8_need3_nat [of "0x90" r "0xBF" t v k q] utf8_need3_nat [of "0x80" r "0xBF" t v k q]
    utf8_need3_nat [of "0x80" r "0x8F" t v k q] utf8_decode_lead [of "k + 0xF0"]
  by (cases "k = 0"; cases "k = 4") (simp_all del: of_nat_add)

lemma utf8_decode_encode_nat:
  assumes "n < 0x110000"
  shows "utf8_decode (utf8_encode (of_nat n) @ q) = Some (of_nat n, q)"
proof -
  obtain k3 k2 k1 k0 where k: "k2 < 64" "k1 < 64" "k0 < 64"
    and n: "n = k3 * 262144 + k2 * 4096 + k1 * 64 + k0"
    by (rule base64_digits)
  consider "n < 0x80" | "0x80 \<le> n" "n < 0x800" | "0x800 \<le> n" "n < 0x10000" | "0x10000 \<le> n" by linarith
  then show ?thesis
  proof cases
    case 1
    then show ?thesis by (simp add: utf8_encode_1 utf8_decode_lead)
  next
    case 2
    then have h: "k3 = 0" "k2 = 0" using n by linarith+
    with 2 n k have "2 \<le> k1" "k1 < 32" by linarith+
    with k show ?thesis using utf8_encode_2 [of k0 k1] utf8_decode_2 [of k0 k1 q]
      by (simp add: n h del: of_nat_add)
  next
    case 3
    then have h: "k3 = 0" "k2 < 16" using n by linarith+
    with 3 n k have "k2 = 0 \<Longrightarrow> 32 \<le> k1" by linarith
    with k h show ?thesis using utf8_encode_3 [of k1 k0 k2] utf8_decode_3 [of k1 k0 k2 q]
      by (simp add: n h(1) del: of_nat_add)
  next
    case 4
    with assms n k have "k3 = 0 \<Longrightarrow> 16 \<le> k2" "k3 \<le> 4" "k3 = 4 \<Longrightarrow> k2 < 16" by linarith+
    with k show ?thesis using utf8_encode_4 [of k2 k1 k0 k3] utf8_decode_4 [of k2 k1 k0 k3 q]
      by (simp add: n del: of_nat_add)
  qed
qed

text \<open>A continuation byte carries six bits.\<close>

lemma cont_digit:
  assumes "0x80 \<le> b" "b \<le> (0xBF :: byte)"
  obtains r where "r < 64" "b = of_nat (r + 0x80)"
proof (rule that [of "unat b - 0x80"])
  show "unat b - 0x80 < 64" using assms by (simp add: word_le_nat_alt)
  show "b = of_nat (unat b - 0x80 + 0x80)" using assms by (simp add: word_le_nat_alt)
qed

lemma utf8_need1_cases:
  assumes "utf8_need1 (of_nat (k + 0xC0)) p = Some (c, q)"
  shows "c = 0xFFFD \<and> q = p \<or> (\<exists>r<64. p = of_nat (r + 0x80) # q \<and> c = of_nat (k * 64 + r))"
proof (cases p)
  case (Cons p0 p')
  show ?thesis
  proof (cases "cont p0")
    case True
    then obtain r where r: "r < 64" "p0 = of_nat (r + 0x80)" by (auto simp: cont_def elim: cont_digit)
    with assms Cons utf8_need1_nat [OF r(1), of k p'] show ?thesis by auto
  qed (use assms Cons in \<open>simp add: utf8_need1.simps\<close>)
qed (use assms in \<open>simp add: utf8_need1.simps\<close>)

lemma utf8_need2_cases:
  assumes "utf8_need2 lower (of_nat (k + 0xE0)) p = Some (c, q)" "0x80 \<le> lower"
  shows "c = 0xFFFD \<and> q = p \<or>
    (\<exists>r<64. \<exists>t<64. unat lower \<le> r + 0x80 \<and> p = of_nat (r + 0x80) # of_nat (t + 0x80) # q \<and>
       c = of_nat (k * 4096 + r * 64 + t))"
proof (cases "c = 0xFFFD \<and> q = p")
  case False
  with assms(1) obtain p0 p1 where p: "p = p0 # p1 # q" "lower \<le> p0" "p0 \<le> 0xBF" "cont p1"
    by (cases p) (auto simp: utf8_need2.simps split: if_splits list.splits)
  from p assms(2) obtain r t where "r < 64" "p0 = of_nat (r + 0x80)" "t < 64" "p1 = of_nat (t + 0x80)"
    by (metis cont_def cont_digit order_trans)
  moreover from this p(2) have "unat lower \<le> r + 0x80" by (simp add: byte_cmp del: of_nat_add)
  ultimately show ?thesis using assms(1) p(1) utf8_need2_nat [of lower r t k q] by auto
qed simp

lemma utf8_need3_cases:
  assumes "utf8_need3 lower upper (of_nat (k + 0xF0)) p = Some (c, q)" "0x80 \<le> lower" "upper \<le> 0xBF"
  shows "c = 0xFFFD \<and> q = p \<or>
    (\<exists>r<64. \<exists>t<64. \<exists>v<64. unat lower \<le> r + 0x80 \<and> r + 0x80 \<le> unat upper \<and>
       p = of_nat (r + 0x80) # of_nat (t + 0x80) # of_nat (v + 0x80) # q \<and>
       c = of_nat (k * 262144 + r * 4096 + t * 64 + v))"
proof (cases "c = 0xFFFD \<and> q = p")
  case False
  with assms(1) obtain p0 p1 p2 where p: "p = p0 # p1 # p2 # q" "lower \<le> p0" "p0 \<le> upper" "cont p1" "cont p2"
    by (cases p) (auto simp: utf8_need3.simps split: if_splits list.splits)
  from p assms(2,3) have "0x80 \<le> p0" "p0 \<le> 0xBF" by simp_all
  then obtain r where r: "r < 64" "p0 = of_nat (r + 0x80)" by (rule cont_digit)
  moreover from p(4) obtain t where "t < 64" "p1 = of_nat (t + 0x80)" by (auto simp: cont_def elim: cont_digit)
  moreover from p(5) obtain v where "v < 64" "p2 = of_nat (v + 0x80)" by (auto simp: cont_def elim: cont_digit)
  moreover from r p(2,3) have "unat lower \<le> r + 0x80" "r + 0x80 \<le> unat upper"
    by (simp_all add: byte_cmp del: of_nat_add)
  ultimately show ?thesis using assms(1) p(1) utf8_need3_nat [of lower r upper t v k q] by auto
qed simp

text \<open>
  What the decoder returns is what the encoder would have written, or the replacement character for
  one byte that is not ASCII.
\<close>

definition decodes_to :: "byte \<Rightarrow> byte list \<Rightarrow> u32 \<Rightarrow> byte list \<Rightarrow> bool" where
  "decodes_to b p c q \<longleftrightarrow> c < 0x110000 \<and> b # p = utf8_encode c @ q \<or> c = 0xFFFD \<and> q = p \<and> 0x80 \<le> b"

lemma decodes_to_error: "0x80 \<le> b \<Longrightarrow> decodes_to b p 0xFFFD p"
  by (simp add: decodes_to_def)

lemma utf8_need1_decodes:
  assumes "2 \<le> k" "k < 32" "utf8_need1 (of_nat (k + 0xC0)) p = Some (c, q)"
  shows "decodes_to (of_nat (k + 0xC0)) p c q"
  using utf8_need1_cases [OF assms(3)] assms(1,2)
  by (auto simp: decodes_to_def byte_cmp utf8_encode_2 simp del: of_nat_add)

lemma utf8_need2_decodes:
  assumes "k < 16" "utf8_need2 (if k = 0 then 0xA0 else 0x80) (of_nat (k + 0xE0)) p = Some (c, q)"
  shows "decodes_to (of_nat (k + 0xE0)) p c q"
proof -
  from utf8_need2_cases [OF assms(2)] consider "c = 0xFFFD" "q = p"
    | r t where "r < 64" "t < 64" "k = 0 \<Longrightarrow> 32 \<le> r" "p = of_nat (r + 0x80) # of_nat (t + 0x80) # q"
        "c = of_nat (k * 4096 + r * 64 + t)"
    by (cases "k = 0") auto
  then show ?thesis
    using assms(1) by cases (auto simp: decodes_to_def byte_cmp utf8_encode_3 simp del: of_nat_add)
qed

lemma utf8_need3_decodes:
  assumes "k \<le> 4"
    and "utf8_need3 (if k = 0 then 0x90 else 0x80) (if k = 4 then 0x8F else 0xBF) (of_nat (k + 0xF0)) p = Some (c, q)"
  shows "decodes_to (of_nat (k + 0xF0)) p c q"
proof -
  from utf8_need3_cases [OF assms(2)] consider "c = 0xFFFD" "q = p"
    | r t v where "r < 64" "t < 64" "v < 64" "k = 0 \<Longrightarrow> 16 \<le> r" "k = 4 \<Longrightarrow> r \<le> 15"
        "p = of_nat (r + 0x80) # of_nat (t + 0x80) # of_nat (v + 0x80) # q"
        "c = of_nat (k * 262144 + r * 4096 + t * 64 + v)"
    by (cases "k = 0"; cases "k = 4") auto
  then show ?thesis
  proof cases
    case (2 r t v)
    then have "k * 262144 + r * 4096 + t * 64 + v < 0x110000" using assms(1) by (cases "k = 4") linarith+
    moreover from 2 assms(1) have "k = 4 \<Longrightarrow> r < 16" by linarith
    ultimately show ?thesis
      using 2 assms(1) utf8_encode_4 [of r t v k] by (simp add: decodes_to_def byte_cmp del: of_nat_add)
  qed (use assms(1) in \<open>simp add: decodes_to_def byte_cmp del: of_nat_add\<close>)
qed

lemma utf8_decode_inverse:
  assumes "utf8_decode (b # p) = Some (c, q)"
  shows "decodes_to b p c q"
proof -
  define m where "m = unat b"
  then have m: "m < 256" "b = of_nat m" by simp_all
  note dec = assms [unfolded m(2) utf8_decode_lead [OF m(1)]]
  consider "m < 0x80" | "0xC2 \<le> m" "m < 0xE0" | "0xE0 \<le> m" "m < 0xF0" | "0xF0 \<le> m" "m \<le> 0xF4"
    | "0x80 \<le> m" "m < 0xC2 \<or> 0xF4 < m"
    by linarith
  then show ?thesis
  proof cases
    case 1
    with dec show ?thesis by (auto simp: decodes_to_def m(2) utf8_encode_1 byte_cmp)
  next
    case 2
    then obtain k where k: "m = k + 0xC0" "2 \<le> k" "k < 32" using le_Suc_ex [of "0xC0" m] by auto
    with dec utf8_need1_decodes [OF k(2,3)] show ?thesis by (simp add: m(2) del: of_nat_add)
  next
    case 3
    then obtain k where k: "m = k + 0xE0" "k < 16" using le_Suc_ex [of "0xE0" m] by auto
    with dec have "utf8_need2 (if k = 0 then 0xA0 else 0x80) (of_nat (k + 0xE0)) p = Some (c, q)"
      by (cases "k = 0") (simp_all del: of_nat_add)
    from utf8_need2_decodes [OF k(2) this] show ?thesis by (simp only: m(2) k(1))
  next
    case 4
    then obtain k where k: "m = k + 0xF0" "k \<le> 4" using le_Suc_ex [of "0xF0" m] by auto
    with dec have "utf8_need3 (if k = 0 then 0x90 else 0x80) (if k = 4 then 0x8F else 0xBF) (of_nat (k + 0xF0)) p = Some (c, q)"
      by (cases "k = 0"; cases "k = 4") (simp_all del: of_nat_add)
    from utf8_need3_decodes [OF k(2) this] show ?thesis by (simp only: m(2) k(1))
  next
    case 5
    then have "0x80 \<le> b" using m by (simp add: byte_cmp)
    then show ?thesis using dec 5 decodes_to_error [of b p] by auto
  qed
qed

section \<open>Lemmas: a sequence within bounds\<close>

text \<open>What the next sequence of a buffer is, when all of the buffer may be read.\<close>

abbreviation utf8_next :: "byte list \<Rightarrow> (u32 \<times> byte list) option" where
  "utf8_next p \<equiv> utf8_decode_len p (length p)"

lemma utf8_need_None:
  "utf8_need1 c p = None \<Longrightarrow> length p < 1"
  "utf8_need2 l c p = None \<Longrightarrow> length p < 2"
  "utf8_need3 l u c p = None \<Longrightarrow> length p < 3"
  by (cases p; auto simp: utf8_need1.simps utf8_need2.simps utf8_need3.simps split: if_splits list.splits)+

lemma utf8_decode_None:
  assumes "utf8_decode (b # p) = None"
  shows "length p < 3 \<and> 0x80 \<le> b \<and> (0xE0 \<le> b \<or> length p < 1) \<and> (0xF0 \<le> b \<or> length p < 2)"
proof -
  define m where "m = unat b"
  then have m: "m < 256" "b = of_nat m" by simp_all
  from assms show ?thesis unfolding m(2) utf8_decode_lead [OF m(1)]
    by (auto simp: byte_cmp m(1) split: if_splits dest: utf8_need_None)
qed

lemma utf8_decode_len_safe:
  assumes "n \<le> length p"
  obtains c q where "utf8_decode_len p n = Some (c, q)"
proof (cases "utf8_decode_len p n")
  case None
  then obtain b p' where p: "p = b # p'" "utf8_decode (b # p') = None"
    and n: "n \<noteq> 0" "n = 1 \<Longrightarrow> b < 0x80" "n = 2 \<Longrightarrow> b < 0xE0" "n = 3 \<Longrightarrow> b < 0xF0"
    using assms by (auto simp: utf8_decode_len_def split: list.splits if_splits)
  from utf8_decode_None [OF p(2)] n(1) assms p(1) have "n = 1 \<or> n = 2 \<or> n = 3" by auto
  with utf8_decode_None [OF p(2)] n assms p(1) show thesis by (auto simp: not_less [symmetric])
qed (use that in force)

lemma utf8_decode_len_inverse:
  assumes "utf8_decode_len (b # p) n = Some (c, q)" "n \<noteq> 0"
  shows "c < 0x110000 \<and> b # p = utf8_encode c @ q \<or> c = 0xFFFD \<and> q = p \<and> 0x80 \<le> b"
proof (cases "utf8_decode_len (b # p) n = utf8_decode (b # p)")
  case True
  with assms(1) utf8_decode_inverse [of b p c q] show ?thesis by (simp add: decodes_to_def)
next
  case False
  with assms have "\<not> b < 0x80" "c = 0xFFFD" "q = p"
    by (auto simp: utf8_decode_len_def word_less_nat_alt split: if_splits)
  then show ?thesis by (simp add: not_less)
qed

lemma utf8_encode_lead:
  assumes "c < 0x110000" "utf8_encode c = b # bs"
  shows "(b < 0x80 \<longleftrightarrow> bs = []) \<and> (length bs < 2 \<longrightarrow> b < 0xE0) \<and> (length bs < 3 \<longrightarrow> b < 0xF0)"
proof -
  have n: "unat c < 0x110000" using assms(1) by (simp add: word_less_nat_alt)
  have d: "unat c < 0x800 \<Longrightarrow> unat c div 64 < 32" "unat c < 0x10000 \<Longrightarrow> unat c div 4096 < 16"
    "unat c div 262144 < 5" using n by auto
  show ?thesis
    using assms(2) n d
    by (auto simp: utf8_encode_nat Let_def word_less_nat_alt unat_of_nat_byte
        simp del: of_nat_add of_nat_unat split: if_splits)
qed

lemma utf8_decode_len_encode:
  assumes "c < 0x110000" "length (utf8_encode c) \<le> n"
  shows "utf8_decode_len (utf8_encode c @ q) n = Some (c, q)"
proof -
  obtain b bs where b: "utf8_encode c = b # bs" by (cases "utf8_encode c") simp_all
  have "utf8_decode (b # bs @ q) = Some (c, q)"
    using utf8_decode_encode_nat [of "unat c" q] assms(1) by (simp add: word_less_nat_alt b)
  moreover have "n \<noteq> 0" "n = 1 \<Longrightarrow> b < 0x80" "n = 2 \<Longrightarrow> b < 0xE0" "n = 3 \<Longrightarrow> b < 0xF0"
    using utf8_encode_lead [OF assms(1) b] assms(2) b by auto
  ultimately show ?thesis by (auto simp: utf8_decode_len_def b)
qed

lemma utf8_decode_len_shorter:
  assumes "utf8_decode_len (b # p) n = Some (c, q)" "n \<noteq> 0"
  shows "length q \<le> length p"
  using utf8_decode_len_inverse [OF assms]
proof (elim disjE conjE)
  assume "b # p = utf8_encode c @ q"
  then have "Suc (length p) = utf8_encode_len c + length q"
    by (metis length_Cons length_append length_utf8_encode)
  with utf8_encode_len_pos(1) [of c] show ?thesis by linarith
qed simp

end
