(* ===== verification/Js_String.thy ===== *)
theory Js_String
  imports Utf8
begin

text \<open>
  The buffer routines of \<^verbatim>\<open>src/quickjs/cutils.h\<close> and the two ends of the string boundary of
  \<^verbatim>\<open>src/quickjs/quickjs.c\<close>: \<^verbatim>\<open>JS_NewStringLen\<close> makes a string of 8-bit or 16-bit units from UTF-8
  bytes, \<^verbatim>\<open>JS_ToCStringLen2\<close> makes UTF-8 bytes from a string.  The result \<open>None\<close> of a model
  stands for undefined behaviour: a read past the end of the source buffer, or a length that
  does not fit an \<^verbatim>\<open>int\<close>.  The contents of memory fresh from the allocator are the argument
  \<open>junk\<close>; whether an allocation of so many bytes after the header succeeds is \<open>malloc_ok\<close>.
\<close>

unbundle bit_operations_syntax

section \<open>Scanning\<close>

definition UTF8_PLAIN_ASCII :: nat where [utf8_defs]: "UTF8_PLAIN_ASCII = 0"
definition UTF8_NON_ASCII :: nat where [utf8_defs]: "UTF8_NON_ASCII = 1"
definition UTF8_HAS_16BIT :: nat where [utf8_defs]: "UTF8_HAS_16BIT = 2"
definition UTF8_HAS_NON_BMP1 :: nat where [utf8_defs]: "UTF8_HAS_NON_BMP1 = 4"
definition UTF8_HAS_ERRORS :: nat where [utf8_defs]: "UTF8_HAS_ERRORS = 8"

text \<open>The \<^verbatim>\<open>while\<close> loop of \<^verbatim>\<open>utf8_scan\<close>: the mask and the number of units so far.\<close>

function utf8_scan_loop :: "byte list \<Rightarrow> nat \<Rightarrow> nat \<Rightarrow> (nat \<times> nat) option" where
  "utf8_scan_loop [] kind len = Some (kind, len)"
| "utf8_scan_loop (b # p) kind len =
     (if b < 0x80 then utf8_scan_loop p kind (Suc len)
      else
        case utf8_decode_len (b # p) (length (b # p)) of
          None \<Rightarrow> None
        | Some (c, p_next) \<Rightarrow>
            let kind = (if p_next = p then kind OR UTF8_HAS_ERRORS else kind) in
            if c > 0xFF then
              if c > 0xFFFF
              then utf8_scan_loop p_next (kind OR UTF8_HAS_16BIT OR UTF8_HAS_NON_BMP1) (Suc (Suc len))
              else utf8_scan_loop p_next (kind OR UTF8_HAS_16BIT) (Suc len)
            else utf8_scan_loop p_next kind (Suc len))"
  by pat_completeness auto
termination
  by (relation "measure (\<lambda>(p, _, _). length p)") (auto dest: utf8_decode_len_shorter)

definition utf8_scan :: "byte list \<Rightarrow> (nat \<times> nat) option" where
  "utf8_scan buf =
     (let cbits = fold (\<lambda>b cbits. cbits OR b) buf 0 in
      if 0x80 \<le> cbits then utf8_scan_loop buf UTF8_NON_ASCII 0
      else Some (UTF8_PLAIN_ASCII, length buf))"

section \<open>Decoding a buffer\<close>

text \<open>\<^verbatim>\<open>if (i < dest_len) dest[i] = c;\<close>\<close>

definition put :: "nat \<Rightarrow> 'u list \<Rightarrow> nat \<Rightarrow> 'u \<Rightarrow> 'u list" where
  "put dest_len dest i c = (if i < dest_len then dest[i := c] else dest)"

fun utf8_decode_buf8_loop :: "nat \<Rightarrow> byte list \<Rightarrow> nat \<Rightarrow> byte list \<Rightarrow> (byte list \<times> nat) option" where
  "utf8_decode_buf8_loop dest_len [] i dest = Some (dest, i)"
| "utf8_decode_buf8_loop dest_len (b # p) i dest =
     (let c = ucast b :: u32 in
      if 0xC0 \<le> c then
        (case p of
           [] \<Rightarrow> None
         | b1 # p' \<Rightarrow>
             utf8_decode_buf8_loop dest_len p' (Suc i)
               (put dest_len dest i (ucast (push_bit 6 c + ucast b1 - (push_bit 6 0xC0 + 0x80)))))
      else utf8_decode_buf8_loop dest_len p (Suc i) (put dest_len dest i (ucast c)))"

definition utf8_decode_buf8 :: "byte list \<Rightarrow> nat \<Rightarrow> byte list \<Rightarrow> (byte list \<times> nat) option" where
  "utf8_decode_buf8 dest dest_len src =
     (case utf8_decode_buf8_loop dest_len src 0 dest of
        None \<Rightarrow> None
      | Some (dest, i) \<Rightarrow>
          Some (if i < dest_len then dest[i := 0]
                else if dest_len > 0 then dest[dest_len - 1 := 0]
                else dest, i))"

function utf8_decode_buf16_loop :: "nat \<Rightarrow> byte list \<Rightarrow> nat \<Rightarrow> u16 list \<Rightarrow> (u16 list \<times> nat) option" where
  "utf8_decode_buf16_loop dest_len [] i dest = Some (dest, i)"
| "utf8_decode_buf16_loop dest_len (b # p) i dest =
     (if ucast b < (0x80 :: u32) then utf8_decode_buf16_loop dest_len p (Suc i) (put dest_len dest i (ucast b))
      else
        case utf8_decode_len (b # p) (length (b # p)) of
          None \<Rightarrow> None
        | Some (c, p) \<Rightarrow>
            if c > 0xFFFF
            then utf8_decode_buf16_loop dest_len p (Suc (Suc i))
                   (put dest_len (put dest_len dest i (ucast (get_hi_surrogate c)))
                      (Suc i) (ucast (get_lo_surrogate c)))
            else utf8_decode_buf16_loop dest_len p (Suc i) (put dest_len dest i (ucast c)))"
  by pat_completeness auto
termination
  by (relation "measure (\<lambda>(_, p, _, _). length p)") (auto dest: utf8_decode_len_shorter)

definition utf8_decode_buf16 :: "u16 list \<Rightarrow> nat \<Rightarrow> byte list \<Rightarrow> (u16 list \<times> nat) option" where
  "utf8_decode_buf16 dest dest_len src = utf8_decode_buf16_loop dest_len src 0 dest"

section \<open>Strings\<close>

datatype string_kind = JS_STRING_KIND_NORMAL | JS_STRING_KIND_SLICE | JS_STRING_KIND_INDIRECT

text \<open>A \<^verbatim>\<open>JSString\<close>: its units, \<^verbatim>\<open>is_wide_char\<close> saying of which width.\<close>

datatype js_string = Str8 string_kind "byte list" | Str16 string_kind "u16 list"

datatype string_error = Invalid_string_length | Out_of_memory

definition JS_STRING_LEN_MAX :: nat where
  "JS_STRING_LEN_MAX = 2 ^ 30 - 1"

definition js_alloc_string :: "(nat \<Rightarrow> bool) \<Rightarrow> (nat \<Rightarrow> 'u) \<Rightarrow> nat \<Rightarrow> nat \<Rightarrow> 'u list option" where
  "js_alloc_string malloc_ok junk max_len is_wide_char =
     (if malloc_ok (max_len * 2 ^ is_wide_char + 1 - is_wide_char)
      then Some (map junk [0..<max_len + 1 - is_wide_char])
      else None)"

text \<open>The string made from the UTF-8 bytes \<open>buf\<close>; its length field is \<open>len\<close>, the terminator not included.\<close>

definition js_new_string_len ::
    "(nat \<Rightarrow> bool) \<Rightarrow> (nat \<Rightarrow> byte) \<Rightarrow> (nat \<Rightarrow> u16) \<Rightarrow> byte list \<Rightarrow> (string_error + js_string) option" where
  "js_new_string_len malloc_ok junk8 junk16 buf =
     (if buf = [] then Some (Inr (Str8 JS_STRING_KIND_NORMAL []))
      else
        case utf8_scan buf of
          None \<Rightarrow> None
        | Some (kind, len) \<Rightarrow>
            if len > JS_STRING_LEN_MAX then Some (Inl Invalid_string_length)
            else if kind = UTF8_PLAIN_ASCII then
              (case js_alloc_string malloc_ok junk8 len 0 of
                 None \<Rightarrow> Some (Inl Out_of_memory)
               | Some str \<Rightarrow>
                   Some (Inr (Str8 JS_STRING_KIND_NORMAL
                     (take len ((take len buf @ drop len str)[len := 0])))))
            else if kind = UTF8_NON_ASCII then
              (case js_alloc_string malloc_ok junk8 len 0 of
                 None \<Rightarrow> Some (Inl Out_of_memory)
               | Some str \<Rightarrow>
                   (case utf8_decode_buf8 str (len + 1) buf of
                      None \<Rightarrow> None
                    | Some (str, _) \<Rightarrow> Some (Inr (Str8 JS_STRING_KIND_NORMAL (take len str)))))
            else
              (case js_alloc_string malloc_ok junk16 len 1 of
                 None \<Rightarrow> Some (Inl Out_of_memory)
               | Some str \<Rightarrow>
                   (case utf8_decode_buf16 str len buf of
                      None \<Rightarrow> None
                    | Some (str, _) \<Rightarrow> Some (Inr (Str16 JS_STRING_KIND_NORMAL (take len str))))))"

section \<open>Reading a string as C bytes\<close>

fun js_narrow_loop :: "byte list \<Rightarrow> byte list" where
  "js_narrow_loop [] = []"
| "js_narrow_loop (c # src) =
     (if c < 0x80 then c # js_narrow_loop src
      else (drop_bit 6 c OR 0xC0) # ((c AND 0x3F) OR 0x80) # js_narrow_loop src)"

fun js_wide_loop :: "bool \<Rightarrow> u16 list \<Rightarrow> byte list" where
  "js_wide_loop cesu8 [] = []"
| "js_wide_loop cesu8 (u # src) =
     (let c = ucast u :: u32 in
      if c < 0x80 then ucast c # js_wide_loop cesu8 src
      else if is_hi_surrogate c then
        (case src of
           c1 # src' \<Rightarrow>
             if \<not> cesu8 \<and> is_lo_surrogate (ucast c1)
             then utf8_encode (from_surrogate c (ucast c1)) @ js_wide_loop cesu8 src'
             else utf8_encode c @ js_wide_loop cesu8 src
         | [] \<Rightarrow> utf8_encode c @ js_wide_loop cesu8 src)
      else utf8_encode c @ js_wide_loop cesu8 src)"

text \<open>
  \<open>val\<close> is what \<^verbatim>\<open>js_force_tostring\<close> answers, \<open>None\<close> for an exception.  The inner \<open>None\<close> of the
  result is the NULL pointer.  The allocation for a wide string asks for three times its length
  as an \<^verbatim>\<open>int\<close>.  The bytes and the terminating NUL are written through \<^verbatim>\<open>q\<close> into the new
  string; writing past its end is undefined.
\<close>

definition INT_MAX :: nat where
  "INT_MAX = 2 ^ 31 - 1"

definition store_bytes :: "byte list \<Rightarrow> byte list \<Rightarrow> byte list option option" where
  "store_bytes str_new bytes = (if length bytes + 1 \<le> length str_new then Some (Some bytes) else None)"

definition js_to_cstring_len2 ::
    "(nat \<Rightarrow> bool) \<Rightarrow> (nat \<Rightarrow> byte) \<Rightarrow> js_string option \<Rightarrow> bool \<Rightarrow> byte list option option" where
  "js_to_cstring_len2 malloc_ok junk val cesu8 =
     (case val of
        None \<Rightarrow> Some None
      | Some (Str8 kind src) \<Rightarrow>
          let count = fold (\<lambda>b count. count + unat (drop_bit 7 b)) src 0 in
          if count = 0 \<and> kind = JS_STRING_KIND_NORMAL then Some (Some src)
          else if length src + count > INT_MAX then None
          else
            (case js_alloc_string malloc_ok junk (length src + count) 0 of
               None \<Rightarrow> Some None
             | Some str_new \<Rightarrow> store_bytes str_new (js_narrow_loop src))
      | Some (Str16 kind src) \<Rightarrow>
          if length src * 3 > INT_MAX then None
          else
            (case js_alloc_string malloc_ok junk (length src * 3) 0 of
               None \<Rightarrow> Some None
             | Some str_new \<Rightarrow> store_bytes str_new (js_wide_loop cesu8 src)))"

section \<open>Reference definitions\<close>

text \<open>The code points of a buffer, one sequence after the other.\<close>

function utf8_points :: "byte list \<Rightarrow> u32 list" where
  "utf8_points [] = []"
| "utf8_points (b # p) =
     (case utf8_next (b # p) of None \<Rightarrow> [] | Some (c, q) \<Rightarrow> c # utf8_points q)"
  by pat_completeness auto
termination
  by (relation "measure length") (auto dest: utf8_decode_len_shorter)

text \<open>The UTF-16 units of a code point, and the code points of a list of units.\<close>

definition utf16_units :: "u32 \<Rightarrow> u16 list" where
  "utf16_units c =
     (if c > 0xFFFF then [ucast (get_hi_surrogate c), ucast (get_lo_surrogate c)] else [ucast c])"

fun utf16_points :: "u16 list \<Rightarrow> u32 list" where
  "utf16_points [] = []"
| "utf16_points (u # us) =
     (case us of
        u1 # us' \<Rightarrow>
          if is_hi_surrogate (ucast u) \<and> is_lo_surrogate (ucast u1)
          then from_surrogate (ucast u) (ucast u1) # utf16_points us'
          else ucast u # utf16_points us
      | [] \<Rightarrow> [ucast u])"

fun js_units :: "js_string \<Rightarrow> u16 list" where
  "js_units (Str8 k bs) = map ucast bs"
| "js_units (Str16 k us) = us"

abbreviation units_of :: "byte list \<Rightarrow> u16 list" where
  "units_of buf \<equiv> concat (map utf16_units (utf8_points buf))"

section \<open>Lemmas: a buffer\<close>

declare utf8_points.simps(2) [simp del] utf8_scan_loop.simps(2) [simp del] utf8_decode_buf16_loop.simps(2) [simp del]

lemma utf8_next_safe:
  obtains c q where "utf8_next (b # p) = Some (c, q)" "length q \<le> length p"
proof -
  obtain c q where "utf8_next (b # p) = Some (c, q)" by (rule utf8_decode_len_safe [OF order_refl])
  with utf8_decode_len_shorter that show thesis by fastforce
qed

lemmas utf8_next_inverse = utf8_decode_len_inverse [of _ _ "Suc n" for n, simplified]

lemma utf8_next_ascii:
  assumes "b < 0x80"
  shows "utf8_next (b # p) = Some (ucast b, p)"
proof -
  have "ucast b < (0x80 :: u32)" using assms by (simp add: word_less_nat_alt)
  moreover have "b < 0xE0" "b < 0xF0" using assms by (simp_all add: word_less_nat_alt)
  ultimately show ?thesis using assms by (simp add: utf8_decode_len_def utf8_decode.simps)
qed

text \<open>An induction over the sequences of a buffer.\<close>

lemma utf8_induct [case_names Nil Cons]:
  assumes "P []"
    and "\<And>b p c q. utf8_next (b # p) = Some (c, q) \<Longrightarrow> P q \<Longrightarrow> P (b # p)"
  shows "P buf"
proof (induction buf rule: length_induct)
  case (1 buf)
  show ?case
  proof (cases buf)
    case (Cons b p)
    obtain c q where "utf8_next (b # p) = Some (c, q)" "length q \<le> length p" by (rule utf8_next_safe)
    with 1 Cons assms(2) show ?thesis by simp
  qed (simp add: assms(1))
qed

lemma utf8_points_Cons: "utf8_next (b # p) = Some (c, q) \<Longrightarrow> utf8_points (b # p) = c # utf8_points q"
  by (simp add: utf8_points.simps)

text \<open>A buffer is well formed when it is the encoding of its code points.\<close>

definition utf8_valid :: "byte list \<Rightarrow> bool" where
  "utf8_valid buf \<longleftrightarrow> concat (map utf8_encode (utf8_points buf)) = buf"

lemma utf8_valid_Nil [simp]: "utf8_valid []"
  by (simp add: utf8_valid_def)

lemma utf8_valid_Cons:
  assumes nx: "utf8_next (b # p) = Some (c, q)"
  shows "utf8_valid (b # p) \<longleftrightarrow> \<not> (0x80 \<le> b \<and> q = p) \<and> utf8_valid q"
proof (cases "0x80 \<le> b \<and> q = p")
  case True
  have False if "utf8_valid (b # p)"
  proof -
    let ?X = "concat (map utf8_encode (utf8_points q))"
    from that have e: "b # p = utf8_encode c @ ?X" by (simp add: utf8_valid_def utf8_points_Cons [OF nx])
    have "c < 0x110000" using utf8_next_inverse [OF nx [simplified]] by auto
    then have "utf8_next (b # p) = Some (c, ?X)"
      unfolding e by (rule utf8_decode_len_encode) simp
    with nx True have X: "?X = p" by simp
    with e have "length (utf8_encode c) = 1" by (metis append_eq_append_conv append_Cons append_Nil length_Cons list.size(3) One_nat_def)
    with e have "utf8_encode c = [b]" by (cases "utf8_encode c") auto
    with utf8_encode_lead [OF \<open>c < 0x110000\<close> this] True show False by auto
  qed
  with True show ?thesis by blast
next
  case False
  with utf8_next_inverse [OF nx [simplified]] have "b # p = utf8_encode c @ q" by auto
  moreover have "utf8_valid (b # p) \<longleftrightarrow> utf8_encode c @ concat (map utf8_encode (utf8_points q)) = b # p"
    by (simp add: utf8_valid_def utf8_points_Cons [OF nx])
  ultimately show ?thesis using False by (auto simp: utf8_valid_def)
qed

text \<open>One round of the scanning loop.\<close>

definition scan_flags :: "byte \<Rightarrow> byte list \<Rightarrow> u32 \<Rightarrow> byte list \<Rightarrow> nat" where
  "scan_flags b p c q =
     (if 0x80 \<le> b \<and> q = p then UTF8_HAS_ERRORS else 0) OR
     (if c > 0xFF then UTF8_HAS_16BIT else 0) OR (if c > 0xFFFF then UTF8_HAS_NON_BMP1 else 0)"

lemma utf8_scan_loop_Cons:
  assumes "utf8_next (b # p) = Some (c, q)"
  shows "utf8_scan_loop (b # p) kind len =
    utf8_scan_loop q (kind OR scan_flags b p c q) (len + length (utf16_units c))"
proof (cases "b < 0x80")
  case True
  with assms have "c = ucast b" "q = p" using utf8_next_ascii [of b p] by simp_all
  with True show ?thesis
    by (auto simp: utf8_scan_loop.simps scan_flags_def utf16_units_def word_less_nat_alt word_le_nat_alt)
next
  case False
  moreover have "0xFFFF < c \<Longrightarrow> 0xFF < c" by (simp add: word_less_nat_alt)
  ultimately show ?thesis using assms
    by (auto simp: utf8_scan_loop.simps scan_flags_def utf16_units_def Let_def or.assoc)
qed

lemma scan_flags_bits:
  "bit (scan_flags b p c q) (Suc 0) \<longleftrightarrow> 0xFF < c"
  "bit (scan_flags b p c q) 3 \<longleftrightarrow> 0x80 \<le> b \<and> q = p"
  by (simp_all add: scan_flags_def bit_or_iff bit_Suc_0_iff utf8_defs)

lemma scan_flags_0: "c \<le> 0xFF \<Longrightarrow> \<not> (0x80 \<le> b \<and> q = p) \<Longrightarrow> scan_flags b p c q = 0"
  by (auto simp: scan_flags_def word_less_nat_alt word_le_nat_alt)

text \<open>What the scan finds: the number of units, whether one needs 16 bits, whether the bytes are well formed.\<close>

lemma utf8_scan_loop_spec:
  "\<exists>kind'. utf8_scan_loop buf kind len = Some (kind', len + length (units_of buf)) \<and>
     (bit kind' 1 \<longleftrightarrow> bit kind 1 \<or> (\<exists>c\<in>set (utf8_points buf). 0xFF < c)) \<and>
     (bit kind' 3 \<longleftrightarrow> bit kind 3 \<or> \<not> utf8_valid buf) \<and>
     (\<not> bit kind' 1 \<longrightarrow> kind' = kind)"
proof (induction buf arbitrary: kind len rule: utf8_induct)
  case (Cons b p c q)
  note nx = Cons(1)
  obtain kind' where k: "utf8_scan_loop (b # p) kind len = Some (kind', len + length (units_of (b # p)))"
    and b1: "bit kind' 1 \<longleftrightarrow> bit (kind OR scan_flags b p c q) 1 \<or> (\<exists>c\<in>set (utf8_points q). 0xFF < c)"
    and b3: "bit kind' 3 \<longleftrightarrow> bit (kind OR scan_flags b p c q) 3 \<or> \<not> utf8_valid q"
    and same: "\<not> bit kind' 1 \<longrightarrow> kind' = kind OR scan_flags b p c q"
    using Cons(2) [of "kind OR scan_flags b p c q" "len + length (utf16_units c)"]
    by (auto simp: utf8_scan_loop_Cons [OF nx] utf8_points_Cons [OF nx] add.assoc)
  have "kind' = kind" if "\<not> bit kind' 1"
  proof -
    from that b1 have c: "\<not> 0xFF < c" by (simp add: bit_or_iff scan_flags_bits)
    then have "c \<noteq> 0xFFFD" by auto
    with utf8_next_inverse [OF nx [simplified]] have "b # p = utf8_encode c @ q" by auto
    then have "\<not> (0x80 \<le> b \<and> q = p)" using utf8_encode_lead [of c b "[]"] c
      by (cases "utf8_encode c") (auto simp: word_less_nat_alt word_le_nat_alt)
    with c have "scan_flags b p c q = 0" by (intro scan_flags_0) (auto simp: not_less)
    with same that show ?thesis by simp
  qed
  with k b1 b3 show ?case
    by (auto simp: bit_or_iff scan_flags_bits utf8_points_Cons [OF nx] utf8_valid_Cons [OF nx])
qed simp

section \<open>Lemmas: filling the destination\<close>

lemma ucast_back [simp]:
  "(ucast (ucast (b :: byte) :: u32) :: byte) = b"
  "(ucast (ucast (b :: byte) :: u32) :: u16) = ucast b"
  "(ucast (ucast (u :: u16) :: u32) :: u16) = u"
  by (rule trans [OF ucast_via_nat], rule unat_ucast_wider, simp)+

definition blit :: "nat \<Rightarrow> 'u list \<Rightarrow> 'u list \<Rightarrow> 'u list" where
  "blit i us dest = take i dest @ us @ drop (i + length us) dest"

lemma blit_Nil [simp]: "blit i [] dest = dest"
  by (simp add: blit_def)

lemma blit_put:
  assumes "i + Suc (length us) \<le> n" "n \<le> length dest"
  shows "blit (Suc i) us (put n dest i x) = blit i (x # us) dest"
  using assms by (simp add: blit_def put_def take_Suc_conv_app_nth)

lemma length_put [simp]: "length (put n dest i x) = length dest"
  by (simp add: put_def)

lemma blit_all: "length us = n \<Longrightarrow> n \<le> length dest \<Longrightarrow> take n (blit 0 us dest) = us"
  by (simp add: blit_def)

lemma length_utf16_units: "length (utf16_units c) = (if 0xFFFF < c then 2 else 1)"
  by (simp add: utf16_units_def)

text \<open>One round of the decoding loops.\<close>

lemma utf8_decode_buf16_loop_Cons:
  assumes "utf8_next (b # p) = Some (c, q)"
  shows "utf8_decode_buf16_loop n (b # p) i dest =
    (if 0xFFFF < c
     then utf8_decode_buf16_loop n q (Suc (Suc i))
            (put n (put n dest i (ucast (get_hi_surrogate c))) (Suc i) (ucast (get_lo_surrogate c)))
     else utf8_decode_buf16_loop n q (Suc i) (put n dest i (ucast c)))"
proof (cases "b < 0x80")
  case True
  with assms have c: "c = ucast b" "q = p" using utf8_next_ascii [of b p] by simp_all
  have "ucast b < (0x80 :: u32)" "\<not> (0xFFFF :: u32) < ucast b"
    using True by (simp_all add: word_less_nat_alt)
  then show ?thesis using c by (simp add: utf8_decode_buf16_loop.simps)
next
  case False
  then have "\<not> ucast b < (0x80 :: u32)" by (simp add: word_less_nat_alt)
  with assms show ?thesis by (simp add: utf8_decode_buf16_loop.simps)
qed

lemma utf8_decode_buf16_loop_spec:
  "i + length (units_of buf) \<le> n \<Longrightarrow> n \<le> length dest \<Longrightarrow>
   utf8_decode_buf16_loop n buf i dest = Some (blit i (units_of buf) dest, i + length (units_of buf))"
proof (induction buf arbitrary: i dest rule: utf8_induct)
  case (Cons b p c q)
  show ?case
  proof (cases "0xFFFF < c")
    case True
    with Cons.prems Cons.hyps show ?thesis
      by (simp add: utf8_decode_buf16_loop_Cons [OF Cons(1)] utf8_points_Cons [OF Cons(1)] utf16_units_def
          Cons.IH blit_put)
  next
    case False
    with Cons.prems Cons.hyps show ?thesis
      by (simp add: utf8_decode_buf16_loop_Cons [OF Cons(1)] utf8_points_Cons [OF Cons(1)] utf16_units_def
          Cons.IH blit_put)
  qed
qed simp

text \<open>Bytes that decode to 8-bit code points.\<close>

lemma utf8_next_latin1:
  assumes nx: "utf8_next (b # p) = Some (c, q)" and c: "c \<le> 0xFF" and b: "0x80 \<le> b"
  obtains b1 where "p = b1 # q" "0xC0 \<le> (ucast b :: u32)"
    "push_bit 6 (ucast b) + ucast b1 - (push_bit 6 0xC0 + 0x80) = c"
proof -
  have lt: "c < 0x110000" "c \<noteq> 0xFFFD" using c by (auto simp: word_less_nat_alt word_le_nat_alt)
  with utf8_next_inverse [OF nx [simplified]] have e: "b # p = utf8_encode c @ q" by auto
  define k r where "k = unat c div 64" and "r = unat c mod 64"
  then have k: "unat c = k * 64 + r" "r < 64" by simp_all
  have cn: "(of_nat (k * 64 + r) :: u32) = c" by (simp only: k(1) [symmetric]) simp
  have "\<not> unat c < 0x80"
    using e b utf8_encode_1 [of "unat c"] utf8_encode_lead [OF lt(1), of b "[]"] by auto
  with c k have k2: "2 \<le> k" "k < 4" by (simp_all add: word_le_nat_alt)
  then have enc: "utf8_encode c = [of_nat (k + 0xC0), of_nat (r + 0x80)]"
    using utf8_encode_2 [of r k] k(2) by (simp only: cn)
  with e have bp: "b = of_nat (k + 0xC0)" "p = of_nat (r + 0x80) # q" by simp_all
  show thesis
  proof (rule that [OF bp(2)])
    show "0xC0 \<le> (ucast b :: u32)" using bp(1) k2 by (simp add: byte_cmp del: of_nat_add)
    show "push_bit 6 (ucast b) + ucast (of_nat (r + 0x80) :: byte) - (push_bit 6 0xC0 + 0x80) = c"
      using bp(1) k2 k(2) cn [symmetric] by (simp add: ucast_byte_nat push_bit_eq_mult del: of_nat_add) (simp add: algebra_simps)
  qed
qed

lemma utf8_decode_buf8_loop_Cons:
  assumes nx: "utf8_next (b # p) = Some (c, q)" and c: "c \<le> 0xFF"
  shows "utf8_decode_buf8_loop n (b # p) i dest = utf8_decode_buf8_loop n q (Suc i) (put n dest i (ucast c))"
proof (cases "b < 0x80")
  case True
  with nx have "c = ucast b" "q = p" using utf8_next_ascii [of b p] by simp_all
  moreover have "\<not> 0xC0 \<le> (ucast b :: u32)" using True by (simp add: word_less_nat_alt word_le_nat_alt)
  ultimately show ?thesis by simp
next
  case False
  then have "0x80 \<le> b" by (simp add: not_less)
  from utf8_next_latin1 [OF nx c this] obtain b1 where "p = b1 # q" "0xC0 \<le> (ucast b :: u32)"
    "push_bit 6 (ucast b) + ucast b1 - (push_bit 6 0xC0 + 0x80) = c" by blast
  then show ?thesis by (simp add: Let_def)
qed

declare utf8_decode_buf8_loop.simps(2) [simp del]

lemma utf8_decode_buf8_loop_spec:
  "\<forall>c\<in>set (utf8_points buf). c \<le> 0xFF \<Longrightarrow> i + length (utf8_points buf) \<le> n \<Longrightarrow> n \<le> length dest \<Longrightarrow>
   utf8_decode_buf8_loop n buf i dest =
     Some (blit i (map ucast (utf8_points buf)) dest, i + length (utf8_points buf))"
proof (induction buf arbitrary: i dest rule: utf8_induct)
  case (Cons b p c q)
  then show ?case
    by (simp add: utf8_decode_buf8_loop_Cons [OF Cons(1)] utf8_points_Cons [OF Cons(1)] blit_put)
qed simp

lemma units_of_latin1:
  "\<forall>c\<in>set (utf8_points buf). c \<le> 0xFF \<Longrightarrow>
   units_of buf = map ucast (utf8_points buf)"
proof (induction buf rule: utf8_induct)
  case (Cons b p c q)
  then have "\<not> 0xFFFF < c" by (simp add: utf8_points_Cons [OF Cons(1)] word_less_nat_alt word_le_nat_alt)
  with Cons show ?case by (simp add: utf8_points_Cons [OF Cons(1)] utf16_units_def)
qed simp

text \<open>A buffer without a high bit is its own decoding.\<close>

lemma fold_or_ascii: "fold (\<lambda>b cbits. cbits OR b) buf acc < (0x80 :: byte) \<longleftrightarrow> acc < 0x80 \<and> (\<forall>b\<in>set buf. b < 0x80)"
proof (induction buf arbitrary: acc)
  case (Cons b buf)
  have high: "x < 0x80 \<longleftrightarrow> \<not> bit x 7" for x :: byte
  proof -
    have "bit x 7 \<longleftrightarrow> bit (unat x) 7" by (simp add: bit_unsigned_iff)
    also have "\<dots> \<longleftrightarrow> odd (unat x div 128)" by (simp add: bit_iff_odd)
    finally have "bit x 7 \<longleftrightarrow> odd (unat x div 128)" .
    moreover have "unat x div 128 = (if unat x < 128 then 0 else 1)"
      using unat_byte_less [of x] by (auto intro: div_nat_eqI simp del: unat_byte_less)
    ultimately show ?thesis by (simp add: word_less_nat_alt)
  qed
  show ?case using Cons.IH [of "acc OR b"] by (simp add: high bit_or_iff)
qed simp

lemma cbits_ascii: "0x80 \<le> fold (\<lambda>b cbits. cbits OR b) buf (0 :: byte) \<longleftrightarrow> \<not> (\<forall>b\<in>set buf. b < 0x80)"
  by (simp only: linorder_not_less [symmetric] fold_or_ascii) simp

lemma utf8_points_ascii:
  "\<forall>b\<in>set buf. b < 0x80 \<Longrightarrow> utf8_points buf = map ucast buf"
proof (induction buf)
  case (Cons b buf)
  then have "utf8_next (b # buf) = Some (ucast b, buf)" using utf8_next_ascii [of b buf] by simp
  with Cons show ?case by (simp add: utf8_points_Cons)
qed simp

section \<open>Lemmas: making a string\<close>

lemma utf8_scan_ascii:
  "\<forall>b\<in>set buf. b < 0x80 \<Longrightarrow> utf8_scan buf = Some (UTF8_PLAIN_ASCII, length buf)"
  by (simp add: utf8_scan_def Let_def cbits_ascii)

lemma utf8_scan_other:
  assumes "\<not> (\<forall>b\<in>set buf. b < 0x80)"
  obtains kind where "utf8_scan buf = Some (kind, length (units_of buf))"
    "kind \<noteq> UTF8_PLAIN_ASCII" "kind = UTF8_NON_ASCII \<longleftrightarrow> (\<forall>c\<in>set (utf8_points buf). c \<le> 0xFF)"
    "bit kind 3 \<longleftrightarrow> \<not> utf8_valid buf"
proof -
  have "utf8_scan buf = utf8_scan_loop buf UTF8_NON_ASCII 0"
    using assms by (simp add: utf8_scan_def Let_def cbits_ascii)
  moreover obtain kind where k: "utf8_scan_loop buf UTF8_NON_ASCII 0 = Some (kind, length (units_of buf))"
    and b1: "bit kind 1 \<longleftrightarrow> (\<exists>c\<in>set (utf8_points buf). 0xFF < c)" and b3: "bit kind 3 \<longleftrightarrow> \<not> utf8_valid buf"
    and same: "\<not> bit kind 1 \<Longrightarrow> kind = UTF8_NON_ASCII"
    using utf8_scan_loop_spec [of buf UTF8_NON_ASCII 0] by (auto simp: UTF8_NON_ASCII_def bit_Suc_0_iff)
  moreover have "kind \<noteq> UTF8_PLAIN_ASCII"
  proof
    assume "kind = UTF8_PLAIN_ASCII"
    with same show False by (simp add: utf8_defs)
  qed
  moreover have "kind = UTF8_NON_ASCII \<longleftrightarrow> (\<forall>c\<in>set (utf8_points buf). c \<le> 0xFF)"
    using b1 same by (auto simp: UTF8_NON_ASCII_def bit_Suc_0_iff not_less)
  ultimately show thesis using that [of kind] by simp
qed

text \<open>
  The string made of a buffer, when memory is available: its units are those of the code points, and
  they are eight bits wide exactly when all fit.
\<close>

definition string_of :: "byte list \<Rightarrow> js_string" where
  "string_of buf =
     (if \<forall>c\<in>set (utf8_points buf). c \<le> 0xFF
      then Str8 JS_STRING_KIND_NORMAL (map ucast (utf8_points buf))
      else Str16 JS_STRING_KIND_NORMAL (units_of buf))"

definition string_bytes :: "js_string \<Rightarrow> nat" where
  "string_bytes s = (case s of Str8 k bs \<Rightarrow> length bs + 1 | Str16 k us \<Rightarrow> 2 * length us)"

lemma js_new_string_len_ascii:
  assumes "buf \<noteq> []" "\<forall>b\<in>set buf. b < 0x80"
  shows "js_new_string_len malloc_ok junk8 junk16 buf =
    Some (if length (units_of buf) > JS_STRING_LEN_MAX then Inl Invalid_string_length
          else if malloc_ok (string_bytes (string_of buf)) then Inr (string_of buf) else Inl Out_of_memory)"
proof -
  have pts: "utf8_points buf = map ucast buf" using assms(2) by (rule utf8_points_ascii)
  then have small: "\<forall>c\<in>set (utf8_points buf). c \<le> 0xFF"
    using assms(2) by (auto simp: word_less_nat_alt word_le_nat_alt)
  have id: "map (ucast :: u32 \<Rightarrow> byte) (map ucast buf) = buf"
    by (simp add: comp_def)
  have "length (units_of buf) = length (utf8_points buf)" by (simp only: units_of_latin1 [OF small] length_map)
  then have len: "length (units_of buf) = length buf" by (simp only: pts length_map)
  show ?thesis
    using assms small unfolding len
    by (simp add: js_new_string_len_def utf8_scan_ascii string_of_def js_alloc_string_def
        string_bytes_def pts id del: map_map)
qed

lemma js_new_string_len_other:
  assumes "\<not> (\<forall>b\<in>set buf. b < 0x80)"
  shows "js_new_string_len malloc_ok junk8 junk16 buf =
    Some (if length (units_of buf) > JS_STRING_LEN_MAX then Inl Invalid_string_length
          else if malloc_ok (string_bytes (string_of buf)) then Inr (string_of buf) else Inl Out_of_memory)"
proof -
  from assms obtain kind where k: "utf8_scan buf = Some (kind, length (units_of buf))"
    "kind \<noteq> UTF8_PLAIN_ASCII" "kind = UTF8_NON_ASCII \<longleftrightarrow> (\<forall>c\<in>set (utf8_points buf). c \<le> 0xFF)"
    by (rule utf8_scan_other)
  have ne: "buf \<noteq> []" using assms by auto
  show ?thesis
  proof (cases "\<forall>c\<in>set (utf8_points buf). c \<le> 0xFF")
    case True
    let ?n = "length (utf8_points buf)"
    have len: "length (units_of buf) = ?n" by (simp add: units_of_latin1 [OF True])
    have "utf8_decode_buf8_loop (Suc ?n) buf 0 (map junk8 [0..<Suc ?n]) =
            Some (blit 0 (map ucast (utf8_points buf)) (map junk8 [0..<Suc ?n]), ?n)"
      by (subst utf8_decode_buf8_loop_spec [OF True]) simp_all
    with True k ne show ?thesis
      by (simp add: js_new_string_len_def len string_of_def js_alloc_string_def string_bytes_def
          utf8_decode_buf8_def blit_def del: upt_Suc)
  next
    case False
    let ?n = "length (units_of buf)"
    have "utf8_decode_buf16 (map junk16 [0..<?n]) ?n buf = Some (blit 0 (units_of buf) (map junk16 [0..<?n]), ?n)"
      unfolding utf8_decode_buf16_def by (subst utf8_decode_buf16_loop_spec) simp_all
    moreover from False k have "kind \<noteq> UTF8_NON_ASCII" by blast
    moreover from False have "string_of buf = Str16 JS_STRING_KIND_NORMAL (units_of buf)" by (simp only: string_of_def if_False)
    ultimately show ?thesis using k(1,2) ne
      by (simp add: js_new_string_len_def js_alloc_string_def string_bytes_def blit_def mult.commute del: upt_Suc)
  qed
qed

lemma js_new_string_len_spec:
  "js_new_string_len malloc_ok junk8 junk16 buf =
    Some (if buf = [] then Inr (string_of buf)
          else if length (units_of buf) > JS_STRING_LEN_MAX then Inl Invalid_string_length
          else if malloc_ok (string_bytes (string_of buf)) then Inr (string_of buf) else Inl Out_of_memory)"
proof (cases "buf = []")
  case True
  then show ?thesis by (simp add: js_new_string_len_def string_of_def)
next
  case False
  then show ?thesis
    by (cases "\<forall>b\<in>set buf. b < 0x80") (simp_all add: js_new_string_len_ascii js_new_string_len_other)
qed

lemma js_units_string_of: "js_units (string_of buf) = units_of buf"
proof (cases "\<forall>c\<in>set (utf8_points buf). c \<le> 0xFF")
  case True
  have "(ucast (ucast c :: byte) :: u16) = ucast c" if "c \<in> set (utf8_points buf)" for c
  proof -
    have "unat c < 256" using True that by (auto simp: word_le_nat_alt)
    then have "unat (ucast c :: byte) = unat c" by (simp add: unsigned_ucast_eq take_bit_nat_eq_self_iff)
    then show ?thesis using ucast_via_nat [of "ucast c :: byte" "unat c"] by simp
  qed
  with True show ?thesis by (auto simp: string_of_def units_of_latin1 comp_def)
qed (simp only: string_of_def if_False js_units.simps)

section \<open>Lemmas: surrogates\<close>

lemma hi_surrogate_nat: "is_hi_surrogate c \<longleftrightarrow> 0xD800 \<le> unat c \<and> unat c < 0xDC00"
  and lo_surrogate_nat: "is_lo_surrogate c \<longleftrightarrow> 0xDC00 \<le> unat c \<and> unat c < 0xE000"
proof -
  have tb: "take_bit 32 (unat c) = unat c"
    using unsigned_less [of c, where ?'a = nat] by (simp add: take_bit_nat_eq_self_iff)
  have d: "unat (drop_bit 10 c) = unat c div 1024" by (simp add: unat_bits tb)
  have "is_hi_surrogate c \<longleftrightarrow> unat c div 1024 = 54" "is_lo_surrogate c \<longleftrightarrow> unat c div 1024 = 55"
    by (simp_all add: is_hi_surrogate_def is_lo_surrogate_def word_unat_eq_iff d del: unsigned_drop_bit_eq)
  then show "is_hi_surrogate c \<longleftrightarrow> 0xD800 \<le> unat c \<and> unat c < 0xDC00"
    "is_lo_surrogate c \<longleftrightarrow> 0xDC00 \<le> unat c \<and> unat c < 0xE000"
    by (auto simp: div_nat_eqI)
qed

lemma surrogate_digits:
  "is_hi_surrogate c \<Longrightarrow> \<exists>a<1024. c = of_nat (0xD800 + a)"
  "is_lo_surrogate c \<Longrightarrow> \<exists>a<1024. c = of_nat (0xDC00 + a)"
proof -
  show "\<exists>a<1024. c = of_nat (0xD800 + a)" if "is_hi_surrogate c"
    using that by (intro exI [of _ "unat c - 0xD800"]) (auto simp: hi_surrogate_nat)
  show "\<exists>a<1024. c = of_nat (0xDC00 + a)" if "is_lo_surrogate c"
    using that by (intro exI [of _ "unat c - 0xDC00"]) (auto simp: lo_surrogate_nat)
qed

lemma surrogate_pair_nat:
  assumes "a < 1024" "b < 1024"
  shows "from_surrogate (of_nat (0xD800 + a)) (of_nat (0xDC00 + b)) = of_nat (0x10000 + 1024 * a + b)"
    and "get_hi_surrogate (of_nat (0x10000 + 1024 * a + b)) = of_nat (0xD800 + a)"
    and "get_lo_surrogate (of_nat (0x10000 + 1024 * a + b)) = of_nat (0xDC00 + b)"
proof -
  have m: "(of_nat (k * 1024 + x) :: u32) AND 1023 = of_nat x" if "k * 1024 + x < 0x110000" "x < 1024" for k x
    using that by (simp add: word_unat_eq_iff unsigned_and_eq unat_of_nat_u32 and_as_mod del: of_nat_add)
  have hi: "(of_nat (0xD800 + a) :: u32) AND 1023 = of_nat a" using m [of 54 a] assms by simp
  have lo: "(of_nat (0xDC00 + b) :: u32) AND 1023 = of_nat b" using m [of 55 b] assms by simp
  show "from_surrogate (of_nat (0xD800 + a)) (of_nat (0xDC00 + b)) = of_nat (0x10000 + 1024 * a + b)"
    unfolding from_surrogate_def hi lo by simp
  let ?n = "0x10000 + 1024 * a + b"
  have n: "?n < 0x110000" "?n = (64 + a) * 1024 + b" using assms by simp_all
  have "drop_bit 10 (of_nat ?n :: u32) = of_nat (64 + a)"
  proof -
    have "take_bit 32 ?n = ?n" "?n div 1024 = 64 + a"
      using n(1) assms by (simp_all add: take_bit_nat_eq_self_iff div_nat_eqI)
    then show ?thesis using n(1) assms
      by (simp add: word_unat_eq_iff unsigned_drop_bit_eq drop_bit_eq_div [where 'a = nat] unat_of_nat_u32
          del: of_nat_add)
  qed
  then show "get_hi_surrogate (of_nat ?n) = of_nat (0xD800 + a)"
    by (simp add: get_hi_surrogate_def)
  have "(of_nat ?n :: u32) AND 0x3FF = of_nat b" using m [of "64 + a" b] n assms by (simp only: n(2))
  then show "get_lo_surrogate (of_nat ?n) = of_nat (0xDC00 + b)"
    using assms by (simp add: get_lo_surrogate_def word_unat_eq_iff unsigned_or_eq unat_of_nat_u32 or_as_plus del: of_nat_add)
qed

lemma u16_not_big [simp]: "\<not> 0xFFFF < (ucast (u :: u16) :: u32)" "ucast u < (0x110000 :: u32)"
  using unsigned_less [of u, where ?'a = nat] by (simp_all add: word_less_nat_alt)

lemma utf16_units_u16: "utf16_units (ucast (u :: u16)) = [u]"
  by (simp add: utf16_units_def)

text \<open>A pair combined and taken apart.\<close>

lemma from_surrogate_pair:
  fixes u v :: u16
  assumes "is_hi_surrogate (ucast u)" "is_lo_surrogate (ucast v)"
  shows "utf16_units (from_surrogate (ucast u) (ucast v)) = [u, v]"
    and "0xFFFF < from_surrogate (ucast u) (ucast v)" "from_surrogate (ucast u) (ucast v) < 0x110000"
proof -
  obtain a b where ab: "a < 1024" "b < 1024" "ucast u = (of_nat (0xD800 + a) :: u32)" "ucast v = (of_nat (0xDC00 + b) :: u32)"
    using surrogate_digits assms by blast
  note pair = surrogate_pair_nat [OF ab(1,2)]
  have n: "unat (of_nat (0x10000 + 1024 * a + b) :: u32) = 0x10000 + 1024 * a + b"
    using ab by (simp add: unat_of_nat_u32 del: of_nat_add)
  show big: "0xFFFF < from_surrogate (ucast u) (ucast v)" "from_surrogate (ucast u) (ucast v) < 0x110000"
    unfolding ab(3,4) pair word_less_nat_alt n using ab by simp_all
  have "u = ucast (ucast u :: u32)" "v = ucast (ucast v :: u32)" by simp_all
  with big(1) show "utf16_units (from_surrogate (ucast u) (ucast v)) = [u, v]"
    unfolding utf16_units_def ab(3,4) pair by simp
qed

text \<open>The code points of a list of units: a pair at the front, or a unit on its own.\<close>

definition starts_lo :: "u16 list \<Rightarrow> bool" where
  "starts_lo us \<longleftrightarrow> (case us of v # _ \<Rightarrow> is_lo_surrogate (ucast v) | [] \<Rightarrow> False)"

lemma utf16_points_pair:
  "is_hi_surrogate (ucast u) \<Longrightarrow> is_lo_surrogate (ucast v) \<Longrightarrow>
   utf16_points (u # v # us) = from_surrogate (ucast u) (ucast v) # utf16_points us"
  by simp

lemma utf16_points_unit:
  "\<not> (is_hi_surrogate (ucast u) \<and> starts_lo us) \<Longrightarrow> utf16_points (u # us) = ucast u # utf16_points us"
  by (cases us) (auto simp: starts_lo_def)

declare utf16_points.simps(2) [simp del]

lemma utf16_induct [case_names Nil Pair Unit]:
  assumes "P []"
    and "\<And>u v us. is_hi_surrogate (ucast u) \<Longrightarrow> is_lo_surrogate (ucast v) \<Longrightarrow> P us \<Longrightarrow> P (u # v # us)"
    and "\<And>u us. \<not> (is_hi_surrogate (ucast u) \<and> starts_lo us) \<Longrightarrow> P us \<Longrightarrow> P (u # us)"
  shows "P us"
proof (induction us rule: length_induct)
  case (1 us)
  then have IH: "length vs < length us \<Longrightarrow> P vs" for vs by blast
  show ?case
  proof (cases us)
    case (Cons u us')
    show ?thesis
    proof (cases "is_hi_surrogate (ucast u) \<and> starts_lo us'")
      case True
      then obtain v vs where "us' = v # vs" "is_lo_surrogate (ucast v)" by (auto simp: starts_lo_def split: list.splits)
      with True Cons IH [of vs] assms(2) show ?thesis by simp
    next
      case False
      with Cons IH [of us'] assms(3) show ?thesis by simp
    qed
  qed (simp add: assms(1))
qed

text \<open>UTF-16 there and back.\<close>

lemma utf16_units_points: "concat (map utf16_units (utf16_points us)) = us"
  by (induction us rule: utf16_induct)
    (simp_all add: utf16_points_pair utf16_points_unit utf16_units_u16 from_surrogate_pair)

lemma utf16_points_range: "\<forall>c\<in>set (utf16_points us). c < 0x110000"
  by (induction us rule: utf16_induct)
    (simp_all add: utf16_points_pair utf16_points_unit from_surrogate_pair)

text \<open>Two code points that are the halves of a pair, one after the other.\<close>

fun cesu_pair :: "u32 list \<Rightarrow> bool" where
  "cesu_pair (c # d # cs) \<longleftrightarrow> is_hi_surrogate c \<and> is_lo_surrogate d \<or> cesu_pair (d # cs)"
| "cesu_pair _ \<longleftrightarrow> False"

lemma cesu_pair_Cons:
  "cesu_pair (c # cs) \<longleftrightarrow> is_hi_surrogate c \<and> cs \<noteq> [] \<and> is_lo_surrogate (hd cs) \<or> cesu_pair cs"
  by (cases cs) auto

lemma big_not_surrogate:
  "0xFFFF < c \<Longrightarrow> \<not> is_hi_surrogate c" "0xFFFF < c \<Longrightarrow> \<not> is_lo_surrogate c"
  by (auto simp: hi_surrogate_nat lo_surrogate_nat word_less_nat_alt)

lemma hd_utf16_points: "utf16_points us \<noteq> [] \<and> is_lo_surrogate (hd (utf16_points us)) \<longleftrightarrow> starts_lo us"
proof (induction us rule: utf16_induct)
  case (Pair u v us)
  then have "\<not> is_lo_surrogate (ucast u)" by (auto simp: hi_surrogate_nat lo_surrogate_nat)
  with Pair show ?case by (simp add: utf16_points_pair starts_lo_def big_not_surrogate from_surrogate_pair)
qed (simp_all add: utf16_points_unit starts_lo_def)

lemma no_cesu_pair: "\<not> cesu_pair (utf16_points us)"
proof (induction us rule: utf16_induct)
  case (Pair u v us)
  then show ?case by (simp add: utf16_points_pair cesu_pair_Cons big_not_surrogate from_surrogate_pair)
next
  case (Unit u us)
  then show ?case using hd_utf16_points [of us] by (auto simp: utf16_points_unit cesu_pair_Cons)
qed simp

text \<open>Without such halves, the units of code points determine them.\<close>

lemma utf16_units_cases:
  assumes "c < 0x110000"
  obtains (Unit) u where "c = ucast u" "utf16_units c = [u]"
  | (Pair) u v where "is_hi_surrogate (ucast u)" "is_lo_surrogate (ucast v)" "utf16_units c = [u, v]"
      "c = from_surrogate (ucast u) (ucast v)"
proof (cases "0xFFFF < c")
  case False
  then have "unat c < 65536" by (simp add: word_less_nat_alt)
  then have "unat (ucast c :: u16) = unat c" by (simp add: unsigned_ucast_eq take_bit_nat_eq_self_iff)
  then have "(ucast (ucast c :: u16) :: u32) = of_nat (unat c)" by (rule ucast_via_nat)
  then have "c = ucast (ucast c :: u16)" by simp
  then show thesis by (rule Unit) (simp add: utf16_units_def False)
next
  case True
  define a b where "a = (unat c - 0x10000) div 1024" and "b = (unat c - 0x10000) mod 1024"
  with True have n: "unat c = 0x10000 + 1024 * a + b" by (simp add: word_less_nat_alt)
  have "b < 1024" by (simp add: b_def)
  moreover have "a < 1024" using assms n by (simp add: word_less_nat_alt)
  ultimately have ab: "a < 1024" "b < 1024" by simp_all
  have c: "c = of_nat (0x10000 + 1024 * a + b)" by (simp only: n [symmetric]) simp
  note pair = surrogate_pair_nat [OF ab, folded c]
  define u v where "u = (of_nat (0xD800 + a) :: u16)" and "v = (of_nat (0xDC00 + b) :: u16)"
  have uv: "unat u = 0xD800 + a" "unat v = 0xDC00 + b"
    using ab by (simp_all add: u_def v_def unsigned_of_nat take_bit_nat_eq_self_iff del: of_nat_add)
  then have w: "ucast u = (of_nat (0xD800 + a) :: u32)" "ucast v = (of_nat (0xDC00 + b) :: u32)"
    by (simp_all only: ucast_via_nat)
  have s: "is_hi_surrogate (ucast u)" "is_lo_surrogate (ucast v)"
    using ab uv by (simp_all add: hi_surrogate_nat lo_surrogate_nat)
  have "c = from_surrogate (ucast u) (ucast v)" using pair(1) by (simp only: w)
  then show thesis using Pair [OF s] from_surrogate_pair(1) [OF s] by simp
qed

lemma utf16_points_units:
  "\<forall>c\<in>set cs. c < 0x110000 \<Longrightarrow> \<not> cesu_pair cs \<Longrightarrow> utf16_points (concat (map utf16_units cs)) = cs"
proof (induction cs)
  case (Cons c cs)
  then have IH: "utf16_points (concat (map utf16_units cs)) = cs" by (simp add: cesu_pair_Cons)
  from Cons.prems have "c < 0x110000" by simp
  then show ?case
  proof (cases rule: utf16_units_cases)
    case (Unit u)
    have "\<not> (is_hi_surrogate (ucast u) \<and> starts_lo (concat (map utf16_units cs)))"
      using Cons.prems(2) hd_utf16_points [of "concat (map utf16_units cs)"] Unit by (auto simp: IH cesu_pair_Cons)
    with Unit IH show ?thesis by (simp add: utf16_points_unit)
  next
    case (Pair u v)
    with IH show ?thesis by (simp add: utf16_points_pair)
  qed
qed simp

section \<open>The interface of a self-delimiting code\<close>

text \<open>
  \<open>dec\<close> takes one symbol off the front and hands the rest back, \<open>points\<close> repeats it.  What a client
  needs of such a code is that a sequence of symbols is read back and is determined by its encoding.
\<close>

locale prefix_codec =
  fixes ok :: "'a \<Rightarrow> bool"
    and enc :: "'a \<Rightarrow> 'b list"
    and dec :: "'b list \<Rightarrow> ('a \<times> 'b list) option"
    and points :: "'b list \<Rightarrow> 'a list"
  assumes dec_enc: "ok c \<Longrightarrow> dec (enc c @ q) = Some (c, q)"
    and points_Nil: "points [] = []"
    and points_dec: "dec p = Some (c, q) \<Longrightarrow> p \<noteq> [] \<Longrightarrow> points p = c # points q"
    and enc_ne: "ok c \<Longrightarrow> enc c \<noteq> []"
begin

lemma points_concat: "\<forall>c\<in>set cs. ok c \<Longrightarrow> points (concat (map enc cs)) = cs"
  by (induction cs) (simp_all add: points_Nil points_dec [OF dec_enc] enc_ne)

lemma concat_inj:
  assumes "\<forall>c\<in>set cs. ok c" "\<forall>c\<in>set ds. ok c" "concat (map enc cs) = concat (map enc ds)"
  shows "cs = ds"
proof -
  have "cs = points (concat (map enc cs))" by (rule points_concat [OF assms(1), symmetric])
  also have "\<dots> = ds" unfolding assms(3) by (rule points_concat [OF assms(2)])
  finally show ?thesis .
qed

end

lemma utf8_next_encode: "c < 0x110000 \<Longrightarrow> utf8_next (utf8_encode c @ q) = Some (c, q)"
  by (rule utf8_decode_len_encode) (simp_all only: length_append le_add1)

lemma utf8_points_next: "utf8_next p = Some (c, q) \<Longrightarrow> p \<noteq> [] \<Longrightarrow> utf8_points p = c # utf8_points q"
  by (cases p) (simp only: utf8_points_Cons simp_thms)+

interpretation utf8: prefix_codec "\<lambda>c. c < 0x110000" utf8_encode utf8_next utf8_points
  by unfold_locales
    (erule utf8_next_encode, rule utf8_points.simps(1), erule (1) utf8_points_next, rule utf8_encode_ne)

section \<open>Lemmas: reading a string as bytes\<close>

text \<open>The bytes of a string: the encoding of its code points.\<close>

definition bytes_of_units :: "u16 list \<Rightarrow> byte list" where
  "bytes_of_units us = concat (map utf8_encode (utf16_points us))"

lemma units_of_bytes: "units_of (bytes_of_units us) = us"
  by (simp add: bytes_of_units_def utf8.points_concat [OF utf16_points_range] utf16_units_points)

lemma js_wide_loop_bytes: "js_wide_loop False us = bytes_of_units us"
proof (induction us rule: utf16_induct)
  case (Pair u v us)
  then have "\<not> ucast u < (0x80 :: u32)" by (auto simp: hi_surrogate_nat word_less_nat_alt)
  with Pair show ?case by (simp add: bytes_of_units_def utf16_points_pair)
next
  case (Unit u us)
  show ?case
  proof (cases "ucast u < (0x80 :: u32)")
    case True
    then have "utf8_encode (ucast u) = [ucast (ucast u :: u32)]" by (simp add: utf8_encode_def)
    with True Unit show ?thesis by (simp add: bytes_of_units_def utf16_points_unit)
  next
    case False
    with Unit show ?thesis
      by (cases us) (auto simp: bytes_of_units_def utf16_points_unit starts_lo_def Let_def)
  qed
qed (simp add: bytes_of_units_def)

lemma utf16_points_narrow: "utf16_points (map ucast (bs :: byte list)) = map ucast bs"
proof (induction bs)
  case (Cons b bs)
  have "\<not> is_hi_surrogate (ucast (ucast b :: u16))"
    using unat_byte_less [of b] by (simp add: hi_surrogate_nat del: unat_byte_less)
  moreover have "(ucast (ucast b :: u16) :: u32) = ucast b"
    using ucast_via_nat [of "ucast b :: u16" "unat b", where ?'b = 32] by simp
  ultimately show ?case using Cons by (simp add: utf16_points_unit)
qed simp

text \<open>The two bytes written for a unit that is not ASCII.\<close>

lemma utf8_encode_byte:
  "utf8_encode (ucast (b :: byte)) =
     (if b < 0x80 then [b] else [drop_bit 6 b OR 0xC0, (b AND 0x3F) OR 0x80])"
proof (cases "b < 0x80")
  case True
  then show ?thesis using utf8_encode_1 [of "unat b"] by (simp add: word_less_nat_alt)
next
  case False
  have tb: "take_bit 8 (unat b) = unat b" by (simp add: take_bit_nat_eq_self_iff)
  have d: "unat b div 64 < 4" using unat_byte_less [of b] by (simp del: unat_byte_less)
  have "unat (drop_bit 6 b OR 0xC0) = unat b div 64 + 0xC0" "unat ((b AND 0x3F) OR 0x80) = unat b mod 64 + 0x80"
    using d by (simp_all add: unat_bits tb or_as_plus and_as_mod)
  then have "drop_bit 6 b OR 0xC0 = of_nat (unat b div 64 + 0xC0)" "(b AND 0x3F) OR 0x80 = of_nat (unat b mod 64 + 0x80)"
    by (simp_all only: word_unat_eq_iff) (use d in \<open>simp_all add: unat_of_nat_byte del: of_nat_add\<close>)
  moreover have "\<not> unat b < 0x80" "unat b < 0x800"
    using False unat_byte_less [of b] by (simp_all add: word_less_nat_alt del: unat_byte_less)
  ultimately show ?thesis using False by (simp add: utf8_encode_nat Let_def del: of_nat_add)
qed

lemma js_narrow_loop_bytes: "js_narrow_loop bs = bytes_of_units (map ucast bs)"
  unfolding bytes_of_units_def utf16_points_narrow
  by (induction bs) (simp_all add: utf8_encode_byte)

text \<open>The bytes fit the memory allocated for them.\<close>

lemma fold_count: "fold (\<lambda>b count. count + unat (drop_bit 7 b)) bs n = n + sum_list (map (\<lambda>b. unat (drop_bit 7 b)) bs)"
  by (induction bs arbitrary: n) simp_all

lemma high_bit_count: "unat (drop_bit 7 (b :: byte)) = (if b < 0x80 then 0 else 1)"
proof -
  have "take_bit 8 (unat b) = unat b" by (simp add: take_bit_nat_eq_self_iff)
  then have "unat (drop_bit 7 b) = unat b div 128" by (simp add: unat_bits)
  moreover have "unat b div 128 = (if unat b < 128 then 0 else 1)"
    using unat_byte_less [of b] by (auto intro: div_nat_eqI simp del: unat_byte_less)
  ultimately show ?thesis by (simp add: word_less_nat_alt)
qed

lemma length_js_narrow_loop:
  "length (js_narrow_loop bs) = length bs + sum_list (map (\<lambda>b. unat (drop_bit 7 b)) bs)"
  by (induction bs) (simp_all add: high_bit_count)

lemma js_narrow_loop_ascii: "sum_list (map (\<lambda>b. unat (drop_bit 7 b)) bs) = 0 \<Longrightarrow> js_narrow_loop bs = bs"
  by (induction bs) (simp_all add: high_bit_count split: if_splits)

lemma length_js_wide_loop: "length (js_wide_loop False us) \<le> 3 * length us"
proof (induction us rule: utf16_induct)
  case (Unit u us)
  have "ucast u < (0x10000 :: u32)" using unsigned_less [of u, where ?'a = nat] by (simp add: word_less_nat_alt)
  then have "utf8_encode_len (ucast u) \<le> 3" by (simp add: utf8_encode_len_def)
  with Unit show ?case
    unfolding js_wide_loop_bytes by (simp add: bytes_of_units_def utf16_points_unit length_utf8_encode)
next
  case (Pair u v us)
  have "utf8_encode_len (from_surrogate (ucast u) (ucast v)) \<le> 4" by simp
  with Pair show ?case
    unfolding js_wide_loop_bytes by (simp add: bytes_of_units_def utf16_points_pair length_utf8_encode del: utf8_encode_len_pos)
qed simp

text \<open>How many bytes are asked of the allocator, \<open>None\<close> where the string's own bytes are returned.\<close>

definition cstring_request :: "js_string \<Rightarrow> nat option" where
  "cstring_request s =
     (case s of
        Str8 kind bs \<Rightarrow>
          if kind = JS_STRING_KIND_NORMAL \<and> (\<forall>b\<in>set bs. b < 0x80) then None
          else Some (length (bytes_of_units (js_units s)) + 1)
      | Str16 kind us \<Rightarrow> Some (3 * length us + 1))"

lemma high_bit_sum: "sum_list (map (\<lambda>b. unat (drop_bit 7 b)) bs) = 0 \<longleftrightarrow> (\<forall>b\<in>set bs. b < (0x80 :: byte))"
  by (induction bs) (simp_all add: high_bit_count)

lemma js_to_cstring_len2_spec:
  assumes "3 * length (js_units s) \<le> INT_MAX"
  shows "js_to_cstring_len2 malloc_ok junk (Some s) False =
    Some (if \<forall>n. cstring_request s = Some n \<longrightarrow> malloc_ok n then Some (bytes_of_units (js_units s)) else None)"
proof (cases s)
  case (Str8 kind bs)
  let ?count = "sum_list (map (\<lambda>b. unat (drop_bit 7 b)) bs)"
  have len: "length (bytes_of_units (map ucast bs)) = length bs + ?count"
    by (simp add: js_narrow_loop_bytes [symmetric] length_js_narrow_loop)
  have "?count \<le> length bs" by (induction bs) (simp_all add: high_bit_count)
  with assms Str8 have fit: "\<not> INT_MAX < length bs + ?count" by simp
  have ascii: "bytes_of_units (map ucast bs) = bs" if "?count = 0"
    using js_narrow_loop_ascii [OF that] by (simp add: js_narrow_loop_bytes)
  show ?thesis
    using fit ascii Str8
    by (auto simp: js_to_cstring_len2_def cstring_request_def fold_count high_bit_sum [symmetric] len js_alloc_string_def
        store_bytes_def js_narrow_loop_bytes simp del: sum_list_eq_0_iff)
next
  case (Str16 kind us)
  have "length (bytes_of_units us) \<le> 3 * length us"
    using length_js_wide_loop [of us] by (simp add: js_wide_loop_bytes)
  with assms Str16 show ?thesis
    by (simp add: js_to_cstring_len2_def cstring_request_def js_alloc_string_def store_bytes_def js_wide_loop_bytes mult.commute)
qed

end
