(* ===== verification/String_Boundary.thy ===== *)
theory String_Boundary
  imports Js_String Fetch
begin

text \<open>
  What crosses the boundary between C and the engine unchanged.  A string of the engine survives being
  read as UTF-8 bytes and made into a string again, whatever its units.  Bytes survive being made into
  a string and read back exactly when they are well formed and hold no surrogate pair encoded as two
  sequences; the body of a response, which the fetch polyfill stores as a string, is such bytes only
  for text.
\<close>

unbundle bit_operations_syntax

lemma utf8_scan_errors:
  obtains kind len where "utf8_scan buf = Some (kind, len)" "kind AND UTF8_HAS_ERRORS = 0 \<longleftrightarrow> utf8_valid buf"
proof (cases "\<forall>b\<in>set buf. b < 0x80")
  case True
  then have "utf8_valid buf" by (induction buf) (simp_all add: utf8_valid_Cons [OF utf8_next_ascii] not_le)
  with True that [of UTF8_PLAIN_ASCII "length buf"] show thesis by (simp add: utf8_scan_ascii UTF8_PLAIN_ASCII_def)
next
  case False
  then obtain kind where "utf8_scan buf = Some (kind, length (units_of buf))" "bit kind 3 \<longleftrightarrow> \<not> utf8_valid buf"
    by (rule utf8_scan_other)
  moreover have "kind AND UTF8_HAS_ERRORS = 0 \<longleftrightarrow> \<not> bit kind 3"
    using and_exp_eq_0_iff_not_bit [of kind 3] by (simp add: UTF8_HAS_ERRORS_def)
  ultimately show thesis using that [of kind "length (units_of buf)"] by simp
qed

lemma utf8_points_range: "\<forall>c\<in>set (utf8_points buf). c < 0x110000"
proof (induction buf rule: utf8_induct)
  case (Cons b p c q)
  from utf8_next_inverse [OF Cons(1) [simplified]] have "c < 0x110000" by auto
  with Cons show ?case by (simp add: utf8_points_Cons [OF Cons(1)])
qed simp

text \<open>Reading back what was made: the bytes are the same exactly when they are well formed and without pairs.\<close>

lemma bytes_units_eq_iff: "bytes_of_units (units_of buf) = buf \<longleftrightarrow> utf8_valid buf \<and> \<not> cesu_pair (utf8_points buf)"
proof
  assume "utf8_valid buf \<and> \<not> cesu_pair (utf8_points buf)"
  then show "bytes_of_units (units_of buf) = buf"
    by (simp add: bytes_of_units_def utf16_points_units [OF utf8_points_range] utf8_valid_def)
next
  let ?cs = "utf16_points (units_of buf)"
  assume eq: "bytes_of_units (units_of buf) = buf"
  have "utf8_points (bytes_of_units (units_of buf)) = ?cs"
    unfolding bytes_of_units_def by (rule utf8.points_concat [OF utf16_points_range])
  then have "utf8_points buf = ?cs" by (simp only: eq)
  with eq no_cesu_pair [of "units_of buf"] show "utf8_valid buf \<and> \<not> cesu_pair (utf8_points buf)"
    by (simp add: utf8_valid_def bytes_of_units_def)
qed

text \<open>
  Property C19.  A string of the engine that C reads as UTF-8 (\<^verbatim>\<open>JS_ToCStringLen\<close>) and passes back
  (\<^verbatim>\<open>JS_NewStringLen\<close>) has the same units, lone surrogates included, whatever its width and kind and
  whatever the fresh memory holds: neither call fails while memory is available, neither reads or writes
  outside a buffer, and the bytes fit the memory asked for.  The string is short enough for three times
  its length to fit an int.
\<close>

theorem js_string_survives_c:
  assumes "3 * length (js_units s) \<le> INT_MAX" and "\<And>n. malloc_ok n"
  shows "\<exists>bytes s'. js_to_cstring_len2 malloc_ok junk (Some s) False = Some (Some bytes) \<and>
           js_new_string_len malloc_ok junk8 junk16 bytes = Some (Inr s') \<and> js_units s' = js_units s"
proof (intro exI conjI)
  show "js_to_cstring_len2 malloc_ok junk (Some s) False = Some (Some (bytes_of_units (js_units s)))"
    using assms(2) by (simp add: js_to_cstring_len2_spec [OF assms(1)])
  have "\<not> JS_STRING_LEN_MAX < length (js_units s)"
    using assms(1) by (simp add: JS_STRING_LEN_MAX_def INT_MAX_def)
  then show "js_new_string_len malloc_ok junk8 junk16 (bytes_of_units (js_units s)) =
      Some (Inr (string_of (bytes_of_units (js_units s))))"
    using assms(2) by (simp only: js_new_string_len_spec units_of_bytes) simp
  show "js_units (string_of (bytes_of_units (js_units s))) = js_units s"
    by (simp only: js_units_string_of units_of_bytes)
qed

theorem js_string_survives_c_witness:
  "\<exists>bytes s'. js_to_cstring_len2 (\<lambda>_. True) (\<lambda>_. 0xAA) (Some (Str16 JS_STRING_KIND_SLICE [0xD83D, 0x41, 0xDE00])) False = Some (Some bytes) \<and>
     js_new_string_len (\<lambda>_. True) (\<lambda>_. 0xAA) (\<lambda>_. 0xBBBB) bytes = Some (Inr s') \<and> js_units s' = [0xD83D, 0x41, 0xDE00]"
  using js_string_survives_c [of "Str16 JS_STRING_KIND_SLICE [0xD83D, 0x41, 0xDE00]" "\<lambda>_. True"]
  by (simp add: INT_MAX_def)

text \<open>
  Property C20.  For every buffer \<^verbatim>\<open>JS_NewStringLen\<close> returns, without reading past the buffer: the empty
  string for no bytes, an error where the units are too many or memory is short, and otherwise a string
  whose units are the UTF-16 units of the code points of the bytes, in eight bits exactly where all code
  points fit.  The memory asked for is filled completely: nothing of what it held before shows.
\<close>

theorem js_new_string_len_reference:
  "js_new_string_len malloc_ok junk8 junk16 buf =
     Some (if buf = [] then Inr (Str8 JS_STRING_KIND_NORMAL [])
           else if length (units_of buf) > JS_STRING_LEN_MAX then Inl Invalid_string_length
           else if list_all (\<lambda>c. c \<le> 0xFF) (utf8_points buf) then
             if malloc_ok (length (utf8_points buf) + 1)
             then Inr (Str8 JS_STRING_KIND_NORMAL (map ucast (utf8_points buf))) else Inl Out_of_memory
           else
             if malloc_ok (2 * length (units_of buf))
             then Inr (Str16 JS_STRING_KIND_NORMAL (units_of buf)) else Inl Out_of_memory)"
proof (cases "list_all (\<lambda>c. c \<le> 0xFF) (utf8_points buf)")
  case True
  then have "string_of buf = Str8 JS_STRING_KIND_NORMAL (map ucast (utf8_points buf))"
    by (simp add: string_of_def list_all_iff)
  with True show ?thesis by (cases "buf = []") (simp_all add: js_new_string_len_spec string_bytes_def)
next
  case False
  then have "string_of buf = Str16 JS_STRING_KIND_NORMAL (units_of buf)"
    by (simp only: string_of_def list_all_iff if_False)
  moreover have "buf \<noteq> []" using False by auto
  ultimately show ?thesis using False by (simp add: js_new_string_len_spec string_bytes_def)
qed

text \<open>
  Property C21.  \<^verbatim>\<open>arrayBuffer()\<close> of a response returns the bytes the server sent exactly when they are
  well-formed UTF-8 (the scan of \<^verbatim>\<open>JS_NewStringLen\<close> finds no error) that does not encode the two halves
  of a surrogate pair separately.  The body is kept as a string \<open>s\<close>, made by \<^verbatim>\<open>JS_NewStringLen\<close>, and
  \<open>api\<close> reads the property \<open>v\<close> that holds it by \<^verbatim>\<open>JS_ToCStringLen\<close>; so a binary body, which hardly ever
  is well-formed UTF-8, does not come back.
\<close>

theorem array_buffer_exact_iff:
  assumes "js_new_string_len malloc_ok junk8 junk16 (ro_body (build_response_object e)) = Some (Inr s)"
    and "js_to_cstring_len2 malloc_ok junk (Some s) False = Some (map_option bytes_of (js_cstring_len api v))"
    and "3 * length (js_units s) \<le> INT_MAX" and "\<And>n. malloc_ok n"
  shows "js_resp_array_buffer api v = Resolved (JS_NewArrayBufferCopy (fe_response_body e)) \<longleftrightarrow>
           (\<exists>kind len. utf8_scan (fe_response_body e) = Some (kind, len) \<and> kind AND UTF8_HAS_ERRORS = 0) \<and>
           \<not> cesu_pair (utf8_points (fe_response_body e))"
proof -
  let ?body = "fe_response_body e"
  have "s = string_of ?body"
    using assms(1) by (auto simp: js_new_string_len_spec build_response_object_def split: if_splits)
  then have "js_units s = units_of ?body" by (simp only: js_units_string_of)
  with js_to_cstring_len2_spec [OF assms(3), of malloc_ok junk] assms(2,4)
  have "map_option bytes_of (js_cstring_len api v) = Some (bytes_of_units (units_of ?body))" by simp
  then have "js_resp_array_buffer api v = Resolved (JS_NewArrayBufferCopy (bytes_of_units (units_of ?body)))"
    by (auto simp: js_resp_array_buffer_def)
  moreover obtain kind len where "utf8_scan ?body = Some (kind, len)" "kind AND UTF8_HAS_ERRORS = 0 \<longleftrightarrow> utf8_valid ?body"
    by (rule utf8_scan_errors)
  ultimately show ?thesis by (simp add: bytes_units_eq_iff)
qed

text \<open>A body of one byte, the first of a PNG image: its three-byte replacement comes back.\<close>

lemma png_scan: "utf8_scan [0x89] = Some (11, 1)"
  by (simp add: utf8_scan_def utf8_scan_loop.simps utf8_defs utf8_decode.simps)

lemma png_string:
  "js_new_string_len (\<lambda>_. True) (\<lambda>_. 0) (\<lambda>_. 0) [0x89] = Some (Inr (Str16 JS_STRING_KIND_NORMAL [0xFFFD]))"
  by (simp add: js_new_string_len_def png_scan JS_STRING_LEN_MAX_def js_alloc_string_def utf8_decode_buf16_def
      utf8_decode_buf16_loop.simps utf8_defs put_def)

lemma png_bytes:
  "js_to_cstring_len2 (\<lambda>_. True) (\<lambda>_. 0) (Some (Str16 JS_STRING_KIND_NORMAL [0xFFFD])) False =
     Some (Some [0xEF, 0xBF, 0xBD])"
  by (simp add: js_to_cstring_len2_def INT_MAX_def js_alloc_string_def store_bytes_def utf8_defs)

theorem array_buffer_exact_iff_witness:
  "js_resp_array_buffer ex_fetch_api (chars_of [0xEF, 0xBF, 0xBD]) \<noteq>
     Resolved (JS_NewArrayBufferCopy (fe_response_body (ex_entry\<lparr>fe_response_body := [0x89]\<rparr>)))"
  using array_buffer_exact_iff [of "\<lambda>_. True" "\<lambda>_. 0" "\<lambda>_. 0" "ex_entry\<lparr>fe_response_body := [0x89]\<rparr>"
      "Str16 JS_STRING_KIND_NORMAL [0xFFFD]" "\<lambda>_. 0" ex_fetch_api "chars_of [0xEF, 0xBF, 0xBD]"]
  by (simp add: build_response_object_def ex_fetch_api_def INT_MAX_def UTF8_HAS_ERRORS_def
      png_scan png_string png_bytes)

end
