(* ===== verification/Utf8_Buffers.thy ===== *)
theory Utf8_Buffers
  imports Js_String
begin

text \<open>
  Writing a string into a buffer of a given size (\<^verbatim>\<open>utf8_encode_buf8\<close> and \<^verbatim>\<open>utf8_encode_buf16\<close> of
  \<^verbatim>\<open>src/quickjs/cutils.h\<close>), by which the names in the messages of exceptions get into C strings.  Both
  count on after the buffer is full, as \<^verbatim>\<open>snprintf\<close> does, but cut only between two code points.
\<close>

unbundle bit_operations_syntax

section \<open>The code\<close>

text \<open>The part after the label \<^verbatim>\<open>overflow\<close>: a terminator, and the length of the rest.\<close>

fun buf8_rest :: "byte list \<Rightarrow> nat \<Rightarrow> nat" where
  "buf8_rest [] j = j"
| "buf8_rest (c # src) j = buf8_rest src (j + (1 + (if 0x80 \<le> c then 1 else 0)))"

fun utf8_encode_buf8_loop :: "nat \<Rightarrow> byte list \<Rightarrow> nat \<Rightarrow> byte list \<Rightarrow> nat \<times> byte list" where
  "utf8_encode_buf8_loop dest_len [] j dest = (j, put dest_len dest j 0)"
| "utf8_encode_buf8_loop dest_len (c # src) j dest =
     (if c < 0x80 then
        if dest_len \<le> j + 1 then (buf8_rest (c # src) j, put dest_len dest j 0)
        else utf8_encode_buf8_loop dest_len src (j + 1) (dest[j := c])
      else
        if dest_len \<le> j + 2 then (buf8_rest (c # src) j, put dest_len dest j 0)
        else utf8_encode_buf8_loop dest_len src (j + 2)
               (dest[j := drop_bit 6 c OR 0xC0, j + 1 := (c AND 0x3F) OR 0x80]))"

definition utf8_encode_buf8 :: "byte list \<Rightarrow> nat \<Rightarrow> byte list \<Rightarrow> nat \<times> byte list" where
  "utf8_encode_buf8 dest dest_len src = utf8_encode_buf8_loop dest_len src 0 dest"

text \<open>The code point at the front of the units and the units after it.\<close>

fun next_point :: "u16 \<Rightarrow> u16 list \<Rightarrow> u32 \<times> u16 list" where
  "next_point u [] = (ucast u, [])"
| "next_point u (v # src) =
     (if is_hi_surrogate (ucast u) \<and> is_lo_surrogate (ucast v) then (from_surrogate (ucast u) (ucast v), src)
      else (ucast u, v # src))"

lemma next_point_shorter: "next_point u src = (c, rest) \<Longrightarrow> length rest \<le> length src"
  by (cases src) (auto split: if_splits)

function buf16_rest :: "u16 list \<Rightarrow> nat \<Rightarrow> nat" where
  "buf16_rest [] j = j"
| "buf16_rest (u # src) j =
     (if ucast u < (0x80 :: u32) then buf16_rest src (j + 1)
      else case next_point u src of (c, rest) \<Rightarrow> buf16_rest rest (j + utf8_encode_len c))"
  by pat_completeness auto
termination
  by (relation "measure (\<lambda>(src, _). length src)")
    (auto dest!: next_point_shorter [OF sym] simp: less_Suc_eq_le)

text \<open>On overflow \<^verbatim>\<open>i\<close> goes back to the first unit of the code point that did not fit.\<close>

function utf8_encode_buf16_loop :: "nat \<Rightarrow> u16 list \<Rightarrow> nat \<Rightarrow> byte list \<Rightarrow> nat \<times> byte list" where
  "utf8_encode_buf16_loop dest_len [] j dest = (j, put dest_len dest j 0)"
| "utf8_encode_buf16_loop dest_len (u # src) j dest =
     (if ucast u < (0x80 :: u32) then
        if dest_len \<le> j + 1 then (buf16_rest (u # src) j, put dest_len dest j 0)
        else utf8_encode_buf16_loop dest_len src (j + 1) (dest[j := ucast u])
      else
        case next_point u src of (c, rest) \<Rightarrow>
          if dest_len \<le> j + utf8_encode_len c then (buf16_rest (u # src) j, put dest_len dest j 0)
          else utf8_encode_buf16_loop dest_len rest (j + length (utf8_encode c)) (blit j (utf8_encode c) dest))"
  by pat_completeness auto
termination
  by (relation "measure (\<lambda>(_, src, _, _). length src)")
    (auto dest!: next_point_shorter [OF sym] simp: less_Suc_eq_le)

definition utf8_encode_buf16 :: "byte list \<Rightarrow> nat \<Rightarrow> u16 list \<Rightarrow> nat \<times> byte list" where
  "utf8_encode_buf16 dest dest_len src = utf8_encode_buf16_loop dest_len src 0 dest"

section \<open>One loop over sequences\<close>

fun emit :: "nat \<Rightarrow> byte list list \<Rightarrow> nat \<Rightarrow> byte list \<Rightarrow> nat \<times> byte list" where
  "emit n [] j dest = (j, put n dest j 0)"
| "emit n (q # qs) j dest =
     (if n \<le> j + length q then (j + length (concat (q # qs)), put n dest j 0)
      else emit n qs (j + length q) (blit j q dest))"

text \<open>The sequences that fit with a terminator after them.\<close>

fun fitting :: "nat \<Rightarrow> byte list list \<Rightarrow> byte list list" where
  "fitting n [] = []"
| "fitting n (q # qs) = (if n \<le> length q then [] else q # fitting (n - length q) qs)"

lemma blit_blit:
  "j + length xs + length ys \<le> length dest \<Longrightarrow> blit (j + length xs) ys (blit j xs dest) = blit j (xs @ ys) dest"
  by (simp add: blit_def add.commute add.left_commute)

lemma length_blit: "j + length xs \<le> length dest \<Longrightarrow> length (blit j xs dest) = length dest"
  by (simp add: blit_def)

lemma put_blit: "j < n \<Longrightarrow> n \<le> length dest \<Longrightarrow> put n dest j x = blit j [x] dest"
  by (simp add: put_def blit_def upd_conv_take_nth_drop)

lemma fitting_length: "0 < n \<Longrightarrow> length (concat (fitting n qs)) < n"
  by (induction n qs rule: fitting.induct) auto

lemma emit_spec:
  "n \<le> length dest \<Longrightarrow> j < n \<Longrightarrow>
   emit n qs j dest = (j + length (concat qs), blit j (concat (fitting (n - j) qs) @ [0]) dest)"
proof (induction n qs j dest rule: emit.induct)
  case (1 n j dest)
  then show ?case by (simp add: put_blit)
next
  case (2 n q qs j dest)
  show ?case
  proof (cases "n \<le> j + length q")
    case True
    then have "n - j \<le> length q" by simp
    with True 2 show ?thesis by (simp add: put_blit)
  next
    case False
    let ?r = "concat (fitting (n - (j + length q)) qs) @ [0]"
    have "length ?r \<le> n - (j + length q)" using False fitting_length [of "n - (j + length q)" qs] by simp
    then have "blit (j + length q) ?r (blit j q dest) = blit j (q @ ?r) dest"
      using False 2(2) by (intro blit_blit) simp
    moreover have "\<not> n - j \<le> length q" using False by linarith
    ultimately show ?thesis using False 2 by (simp add: length_blit)
  qed
qed

section \<open>Both routines are that loop\<close>

lemma buf8_rest_length: "buf8_rest src j = j + length (js_narrow_loop src)"
  by (induction src j rule: buf8_rest.induct) (auto simp: not_less [symmetric])

lemma js_narrow_loop_seqs: "concat (map (\<lambda>c. utf8_encode (ucast c)) src) = js_narrow_loop src"
  by (simp add: js_narrow_loop_bytes bytes_of_units_def utf16_points_narrow comp_def)

lemma list_update_blit: "j < length dest \<Longrightarrow> dest[j := x] = blit j [x] dest"
  by (simp add: blit_def upd_conv_take_nth_drop)

lemma buf8_emit:
  "dest_len \<le> length dest \<Longrightarrow>
   utf8_encode_buf8_loop dest_len src j dest = emit dest_len (map (\<lambda>c. utf8_encode (ucast c)) src) j dest"
proof (induction src arbitrary: j dest)
  case (Cons c src)
  have rest: "buf8_rest (c # src) j = j + length (concat (map (\<lambda>c. utf8_encode (ucast c)) (c # src)))"
    by (simp only: buf8_rest_length js_narrow_loop_seqs)
  show ?case
  proof (cases "c < 0x80")
    case True
    with Cons rest show ?thesis by (simp add: utf8_encode_byte list_update_blit length_blit)
  next
    case False
    have "dest[j := x, j + 1 := y] = blit j [x, y] dest" if "j + 2 < dest_len" for x y
      using that Cons.prems blit_blit [of j "[x]" "[y]" dest] by (simp add: list_update_blit length_blit)
    with False Cons rest show ?thesis by (simp add: utf8_encode_byte length_blit)
  qed
qed simp

text \<open>The same for units: the code point at the front.\<close>

lemma utf16_points_next: "utf16_points (u # src) = (case next_point u src of (c, rest) \<Rightarrow> c # utf16_points rest)"
  by (cases src) (auto simp: utf16_points.simps)

lemma next_point_ascii: "ucast u < (0x80 :: u32) \<Longrightarrow> next_point u src = (ucast u, src)"
  by (cases src) (auto simp: hi_surrogate_nat word_less_nat_alt)

lemma utf8_encode_ascii: "ucast (u :: u16) < (0x80 :: u32) \<Longrightarrow> utf8_encode (ucast u) = [ucast u]"
proof -
  assume "ucast u < (0x80 :: u32)"
  then have "utf8_encode (ucast u) = [ucast (ucast u :: u32)]" by (simp add: utf8_encode_def)
  also have "(ucast (ucast u :: u32) :: byte) = ucast u"
    by (rule trans [OF ucast_via_nat]) (rule unat_ucast_wider, simp)
  finally show ?thesis .
qed

lemma buf16_rest_length: "buf16_rest src j = j + length (concat (map utf8_encode (utf16_points src)))"
proof (induction src j rule: buf16_rest.induct)
  case (2 u src j)
  show ?case
  proof (cases "ucast u < (0x80 :: u32)")
    case True
    then have "length (utf8_encode (ucast u)) = 1" by (simp add: utf8_encode_ascii)
    with True 2 show ?thesis by (simp add: utf16_points_next next_point_ascii)
  next
    case False
    with 2 show ?thesis by (cases "next_point u src") (simp add: utf16_points_next length_utf8_encode)
  qed
qed simp

declare buf16_rest.simps(2) [simp del]

lemma buf16_emit:
  "dest_len \<le> length dest \<Longrightarrow>
   utf8_encode_buf16_loop dest_len src j dest = emit dest_len (map utf8_encode (utf16_points src)) j dest"
proof (induction dest_len src j dest rule: utf8_encode_buf16_loop.induct)
  case (2 dest_len u src j dest)
  have rest: "buf16_rest (u # src) j = j + length (concat (map utf8_encode (utf16_points (u # src))))"
    by (rule buf16_rest_length)
  obtain c r where np: "next_point u src = (c, r)" by (cases "next_point u src")
  show ?case
  proof (cases "ucast u < (0x80 :: u32)")
    case True
    with np have c: "c = ucast u" "r = src" by (simp_all add: next_point_ascii)
    with True 2 rest show ?thesis
      by (simp add: utf16_points_next np utf8_encode_ascii list_update_blit length_blit)
  next
    case False
    with 2(2) [OF False np [symmetric]] 2(3) rest show ?thesis
      by (simp add: utf16_points_next np length_utf8_encode length_blit)
  qed
qed simp

section \<open>What the buffer holds\<close>

text \<open>
  Both routines return the number of bytes of the whole string, whether or not it fits, and write into a
  buffer with room for at least one byte exactly the longest run of whole sequences from the start that fits
  with a terminator, the terminator included; every other byte of the memory is as before.
\<close>

theorem utf8_encode_buf_truncates:
  assumes "0 < dest_len" "dest_len \<le> length dest"
  shows "utf8_encode_buf16 dest dest_len us =
           (length (bytes_of_units us), blit 0 (concat (fitting dest_len (map utf8_encode (utf16_points us))) @ [0]) dest)"
    and "utf8_encode_buf8 dest dest_len bs =
           (length (bytes_of_units (map ucast bs)),
            blit 0 (concat (fitting dest_len (map utf8_encode (utf16_points (map ucast bs)))) @ [0]) dest)"
  using assms
  by (simp_all add: utf8_encode_buf16_def utf8_encode_buf8_def buf16_emit buf8_emit emit_spec bytes_of_units_def
      utf16_points_narrow comp_def)

end
