(* ===== verification/Job_Queue.thy ===== *)
theory Job_Queue
  imports Fifo
begin

text \<open>
  The queue of pending jobs of a JavaScript runtime, which every environment drains
  (\<^verbatim>\<open>JS_EnqueueJob\<close>, \<^verbatim>\<open>JS_IsJobPending\<close>, \<^verbatim>\<open>JS_ExecutePendingJob\<close> and the part of \<^verbatim>\<open>JS_FreeRuntime\<close>
  that frees the queue, all in \<^verbatim>\<open>src/quickjs/quickjs.c\<close>), on the circular doubly linked lists of
  \<^verbatim>\<open>src/quickjs/list.h\<close>.  The links are an explicit store, one function from addresses for each of the
  two pointers, so that the aliasing of a list with one element or none is what it is in the code.
  A \<^verbatim>\<open>JSJobEntry\<close> and the \<^verbatim>\<open>list_head\<close> inside it share an address.
\<close>

section \<open>Circular lists\<close>

type_synonym addr = nat

definition NULL :: addr where
  "NULL = 0"

record links =
  prev :: "addr \<Rightarrow> addr"
  nxt :: "addr \<Rightarrow> addr"

definition set_prev :: "addr \<Rightarrow> addr \<Rightarrow> ('x) links_scheme \<Rightarrow> ('x) links_scheme" where
  "set_prev a v s = s\<lparr>prev := (prev s)(a := v)\<rparr>"

definition set_next :: "addr \<Rightarrow> addr \<Rightarrow> ('x) links_scheme \<Rightarrow> ('x) links_scheme" where
  "set_next a v s = s\<lparr>nxt := (nxt s)(a := v)\<rparr>"

definition init_list_head :: "addr \<Rightarrow> ('x) links_scheme \<Rightarrow> ('x) links_scheme" where
  "init_list_head head s = set_next head head (set_prev head head s)"

definition list_add_between :: "addr \<Rightarrow> addr \<Rightarrow> addr \<Rightarrow> ('x) links_scheme \<Rightarrow> ('x) links_scheme" where
  "list_add_between el p n s = set_prev n el (set_next el n (set_prev el p (set_next p el s)))"

definition list_add_tail :: "addr \<Rightarrow> addr \<Rightarrow> ('x) links_scheme \<Rightarrow> ('x) links_scheme" where
  "list_add_tail el head s = list_add_between el (prev s head) head s"

definition list_del :: "addr \<Rightarrow> ('x) links_scheme \<Rightarrow> ('x) links_scheme" where
  "list_del el s =
     (let p = prev s el; n = nxt s el in
      set_next el NULL (set_prev el NULL (set_prev n p (set_next p n s))))"

definition list_empty :: "addr \<Rightarrow> ('x) links_scheme \<Rightarrow> bool" where
  "list_empty el s \<longleftrightarrow> nxt s el = el"

section \<open>The job queue\<close>

text \<open>
  \<open>rt_entries\<close> holds the allocated entries, each with its job (context, function and arguments);
  \<open>rt_brk\<close> is the next address the allocator hands out.
\<close>

record 'j runtime = links +
  rt_entries :: "addr \<rightharpoonup> 'j"
  rt_brk :: addr

definition job_list :: addr where
  "job_list = 1"

definition JS_NewRuntime_jobs :: "'j runtime" where
  "JS_NewRuntime_jobs =
     init_list_head job_list \<lparr>prev = \<lambda>_. NULL, nxt = \<lambda>_. NULL, rt_entries = Map.empty, rt_brk = 2\<rparr>"

text \<open>
  \<open>malloc_ok\<close> is the outcome of the allocation; the result is 0, or -1 for an exception.  The assertion that
  the runtime is not being freed is no branch: freeing the queue runs no job.
\<close>

definition JS_EnqueueJob :: "bool \<Rightarrow> 'j \<Rightarrow> 'j runtime \<Rightarrow> int \<times> 'j runtime" where
  "JS_EnqueueJob malloc_ok job rt =
     (if \<not> malloc_ok then (-1, rt)
      else
        let e = rt_brk rt;
            rt = rt\<lparr>rt_brk := Suc e, rt_entries := (rt_entries rt)(e \<mapsto> job)\<rparr>
        in (0, list_add_tail e job_list rt))"

definition JS_IsJobPending :: "'j runtime \<Rightarrow> bool" where
  "JS_IsJobPending rt \<longleftrightarrow> \<not> list_empty job_list rt"

text \<open>
  The job at the front leaves the list before it runs.  What a job does to the queue is calls of
  \<^verbatim>\<open>JS_EnqueueJob\<close>: \<open>runs job\<close> lists them with the outcome of their allocations, and says whether the
  job ends in an exception.  The entry is freed after the job has run.  The values a job holds are not
  counted; an entry on the list that is not allocated does not occur, by the invariant below.
\<close>

type_synonym 'j job_run = "'j \<Rightarrow> (bool \<times> 'j) list \<times> bool"

definition take_first_job :: "'j runtime \<Rightarrow> (addr \<times> 'j) option \<times> 'j runtime" where
  "take_first_job rt =
     (if list_empty job_list rt then (None, rt)
      else
        let e = nxt rt job_list in
        case rt_entries rt e of
          None \<Rightarrow> (None, rt)
        | Some job \<Rightarrow> (Some (e, job), list_del e rt))"

definition enqueue_all :: "(bool \<times> 'j) list \<Rightarrow> 'j runtime \<Rightarrow> 'j runtime" where
  "enqueue_all calls rt = fold (\<lambda>(ok, job) rt. snd (JS_EnqueueJob ok job rt)) calls rt"

definition JS_ExecutePendingJob :: "'j job_run \<Rightarrow> 'j runtime \<Rightarrow> (int \<times> 'j option) \<times> 'j runtime" where
  "JS_ExecutePendingJob runs rt =
     (case take_first_job rt of
        (None, rt) \<Rightarrow> ((0, None), rt)
      | (Some (e, job), rt) \<Rightarrow>
          (case runs job of
             (calls, exception) \<Rightarrow>
               let rt = enqueue_all calls rt in
               ((if exception then -1 else 1, Some job), rt\<lparr>rt_entries := (rt_entries rt)(e := None)\<rparr>)))"

text \<open>
  The loop of \<^verbatim>\<open>JS_FreeRuntime\<close>: \<open>el\<close> and \<open>el1\<close> are the current element and its saved successor.
  Reading the link of an entry that is not allocated is undefined, the result \<open>None\<close>, as is a walk
  that never gets back to the head.
\<close>

definition deref_next :: "addr \<Rightarrow> 'j runtime \<Rightarrow> addr option" where
  "deref_next a rt = (if a = job_list \<or> rt_entries rt a \<noteq> None then Some (nxt rt a) else None)"

partial_function (option) free_jobs_loop :: "addr \<Rightarrow> addr \<Rightarrow> 'j runtime \<Rightarrow> 'j runtime option" where
  "free_jobs_loop el el1 rt =
     (if el = job_list then Some rt
      else if rt_entries rt el = None then None
      else
        let rt = rt\<lparr>rt_entries := (rt_entries rt)(el := None)\<rparr> in
        case deref_next el1 rt of
          None \<Rightarrow> None
        | Some el2 \<Rightarrow> free_jobs_loop el1 el2 rt)"

definition JS_FreeRuntime_jobs :: "'j runtime \<Rightarrow> 'j runtime option" where
  "JS_FreeRuntime_jobs rt =
     (case deref_next job_list rt of
        None \<Rightarrow> None
      | Some el \<Rightarrow>
          (case deref_next el rt of
             None \<Rightarrow> None
           | Some el1 \<Rightarrow> map_option (init_list_head job_list) (free_jobs_loop el el1 rt)))"

section \<open>The ring\<close>

text \<open>The elements of the list with this head, in order: following either pointer goes round.\<close>

definition ring :: "addr \<Rightarrow> addr list \<Rightarrow> ('x) links_scheme \<Rightarrow> bool" where
  "ring h as s \<longleftrightarrow>
     distinct (h # as) \<and> map (nxt s) (h # as) = as @ [h] \<and> map (prev s) (as @ [h]) = h # as"

lemma ring_init: "ring h [] (init_list_head h s)"
  by (simp add: ring_def init_list_head_def set_next_def set_prev_def)

lemma ring_empty: "ring h as s \<Longrightarrow> list_empty h s \<longleftrightarrow> as = []"
  by (cases as) (auto simp: ring_def list_empty_def)

lemma ring_snoc:
  assumes "ring h as s" "el \<noteq> h" "el \<notin> set as"
  shows "ring h (as @ [el]) (list_add_tail el h s)"
proof -
  obtain ws p where w: "h # as = ws @ [p]" by (metis list.distinct(1) rev_exhaust)
  from assms(1) have d: "distinct (ws @ [p])" and n: "map (nxt s) ws = as" and p: "map (prev s) as = ws" "prev s h = p"
    unfolding ring_def w by auto
  let ?t = "list_add_tail el h s"
  have t: "nxt ?t = (nxt s)(p := el, el := h)" "prev ?t = (prev s)(el := p, h := el)"
    by (simp_all add: list_add_tail_def list_add_between_def set_next_def set_prev_def p)
  have el: "el \<notin> set (ws @ [p])" "h \<notin> set as" using assms unfolding w [symmetric] ring_def by auto
  have "map (nxt ?t) (ws @ [p, el]) = as @ [el, h]" using d el n by (auto simp: t intro!: map_cong [THEN trans])
  moreover have "map (prev ?t) (as @ [el, h]) = ws @ [p, el]"
    using el assms(2,3) p by (auto simp: t intro!: map_cong [THEN trans])
  moreover have "distinct (h # as @ [el])" using assms by (simp add: ring_def)
  moreover have "h # as @ [el] = ws @ [p, el]" using w by simp
  ultimately show ?thesis unfolding ring_def by (simp only: append_assoc append.simps simp_thms)
qed

lemma ring_del:
  assumes "ring h (e # bs) s"
  shows "ring h bs (list_del e s)"
proof -
  from assms have d: "h \<noteq> e" "h \<notin> set bs" "e \<notin> set bs" "distinct bs" and nx: "nxt s h = e"
    "nxt s e # map (nxt s) bs = bs @ [h]" and pv: "prev s e = h" "map (prev s) (bs @ [h]) = e # bs"
    by (auto simp: ring_def)
  obtain n cs where n: "bs @ [h] = n # cs" by (cases "bs @ [h]") auto
  with nx have ne: "nxt s e = n" by simp
  have "distinct (e # bs @ [h])" using d by auto
  then have dn: "n \<notin> set cs" "e \<notin> set (n # cs)" unfolding n by auto
  have t: "nxt (list_del e s) = (nxt s)(h := n, e := NULL)" "prev (list_del e s) = (prev s)(n := h, e := NULL)"
    by (simp_all add: list_del_def set_next_def set_prev_def pv ne Let_def)
  have "map (nxt (list_del e s)) (h # bs) = bs @ [h]"
    using d nx ne by (auto simp: t)
  moreover have "map (prev (list_del e s)) (bs @ [h]) = h # bs"
    using pv(2) dn unfolding n by (auto simp: t)
  ultimately show ?thesis using d by (simp add: ring_def)
qed

section \<open>The invariant\<close>

text \<open>
  The list runs through allocated entries, below the next address.  Between two calls every allocated
  entry is on the list; while a job runs, its own entry is not.
\<close>

definition jq_ring :: "addr list \<Rightarrow> 'j runtime \<Rightarrow> bool" where
  "jq_ring as rt \<longleftrightarrow>
     ring job_list as rt \<and> set as \<subseteq> dom (rt_entries rt) \<and>
     dom (rt_entries rt) \<subseteq> {a. job_list < a \<and> a < rt_brk rt} \<and> job_list < rt_brk rt"

definition jq_inv :: "'j runtime \<Rightarrow> bool" where
  "jq_inv rt \<longleftrightarrow> (\<exists>as. jq_ring as rt \<and> dom (rt_entries rt) = set as)"

text \<open>The addresses on the list, found by walking it.\<close>

partial_function (option) jq_walk :: "addr \<Rightarrow> 'j runtime \<Rightarrow> addr list option" where
  "jq_walk el rt =
     (if el = job_list then Some []
      else Option.bind (jq_walk (nxt rt el) rt) (\<lambda>as. Some (el # as)))"

definition pending :: "'j runtime \<Rightarrow> 'j list" where
  "pending rt =
     (case jq_walk (nxt rt job_list) rt of
        None \<Rightarrow> []
      | Some as \<Rightarrow> map (\<lambda>a. the (rt_entries rt a)) as)"

lemma jq_walk_ring_from:
  "h = job_list \<Longrightarrow> h \<notin> set as \<Longrightarrow> map (nxt rt) as = tl (as @ [h]) \<Longrightarrow> jq_walk (hd (as @ [h])) rt = Some as"
proof (induction as)
  case (Cons a as)
  then have "jq_walk (nxt rt a) rt = Some as" by (cases as) auto
  with Cons.prems show ?case by (subst jq_walk.simps) auto
qed (simp add: jq_walk.simps)

lemma pending_ring:
  assumes "jq_ring as rt"
  shows "pending rt = map (\<lambda>a. the (rt_entries rt a)) as"
proof -
  have "nxt rt job_list = hd (as @ [job_list])" "map (nxt rt) as = tl (as @ [job_list])" "job_list \<notin> set as"
    using assms by (cases as; auto simp: jq_ring_def ring_def)+
  with jq_walk_ring_from [of job_list as rt] show ?thesis by (simp add: pending_def)
qed

lemma jq_ring_new: "jq_ring [] JS_NewRuntime_jobs"
  using ring_init by (simp add: jq_ring_def JS_NewRuntime_jobs_def job_list_def init_list_head_def set_next_def set_prev_def ring_def)

lemma list_ops_rest [simp]:
  "rt_entries (list_add_tail e h rt) = rt_entries rt" "rt_brk (list_add_tail e h rt) = rt_brk rt"
  "rt_entries (list_del e rt) = rt_entries rt" "rt_brk (list_del e rt) = rt_brk rt"
  by (simp_all add: list_add_tail_def list_add_between_def list_del_def set_next_def set_prev_def Let_def)

lemma ring_cong: "nxt s = nxt t \<Longrightarrow> prev s = prev t \<Longrightarrow> ring h as s \<longleftrightarrow> ring h as t"
  by (simp add: ring_def)

lemma jq_ring_enqueue:
  assumes "jq_ring as rt"
  shows "jq_ring (as @ [rt_brk rt]) (snd (JS_EnqueueJob True job rt))"
    and "rt_entries (snd (JS_EnqueueJob True job rt)) = (rt_entries rt)(rt_brk rt \<mapsto> job)"
proof -
  let ?e = "rt_brk rt" and ?rt = "rt\<lparr>rt_brk := Suc (rt_brk rt), rt_entries := (rt_entries rt)(rt_brk rt \<mapsto> job)\<rparr>"
  have "ring job_list as ?rt" "?e \<noteq> job_list" "?e \<notin> set as"
    using assms by (auto simp: jq_ring_def ring_def)
  then have "ring job_list (as @ [?e]) (list_add_tail ?e job_list ?rt)" by (rule ring_snoc)
  with assms show "jq_ring (as @ [rt_brk rt]) (snd (JS_EnqueueJob True job rt))"
    by (auto simp: jq_ring_def JS_EnqueueJob_def Let_def)
  show "rt_entries (snd (JS_EnqueueJob True job rt)) = (rt_entries rt)(rt_brk rt \<mapsto> job)"
    by (simp add: JS_EnqueueJob_def Let_def)
qed

lemma enqueue_all_ring:
  assumes "jq_ring as rt"
  shows "\<exists>bs. jq_ring (as @ bs) (enqueue_all calls rt) \<and> set bs \<inter> dom (rt_entries rt) = {} \<and>
    dom (rt_entries (enqueue_all calls rt)) = dom (rt_entries rt) \<union> set bs \<and>
    (\<forall>a\<in>dom (rt_entries rt). rt_entries (enqueue_all calls rt) a = rt_entries rt a) \<and>
    map (\<lambda>a. the (rt_entries (enqueue_all calls rt) a)) bs = map snd (filter fst calls)"
  using assms
proof (induction calls arbitrary: as rt)
  case Nil
  then show ?case by (intro exI [of _ "[]"]) (simp add: enqueue_all_def)
next
  case (Cons call calls)
  obtain ok job where call: "call = (ok, job)" by (cases call)
  show ?case
  proof (cases ok)
    case False
    then have "enqueue_all (call # calls) rt = enqueue_all calls rt"
      by (simp add: enqueue_all_def call JS_EnqueueJob_def)
    with Cons.IH [OF Cons.prems] False call show ?thesis by simp
  next
    case True
    let ?rt1 = "snd (JS_EnqueueJob True job rt)" and ?e = "rt_brk rt"
    have e: "enqueue_all (call # calls) rt = enqueue_all calls ?rt1" by (simp add: enqueue_all_def call True)
    note ents = jq_ring_enqueue(2) [OF Cons.prems, of job]
    have new: "?e \<notin> dom (rt_entries rt)" using Cons.prems by (auto simp: jq_ring_def)
    from Cons.IH [OF jq_ring_enqueue(1) [OF Cons.prems, of job]] obtain bs where
      bs: "jq_ring ((as @ [?e]) @ bs) (enqueue_all calls ?rt1)" "set bs \<inter> dom (rt_entries ?rt1) = {}"
        "dom (rt_entries (enqueue_all calls ?rt1)) = dom (rt_entries ?rt1) \<union> set bs"
        "\<forall>a\<in>dom (rt_entries ?rt1). rt_entries (enqueue_all calls ?rt1) a = rt_entries ?rt1 a"
        "map (\<lambda>a. the (rt_entries (enqueue_all calls ?rt1) a)) bs = map snd (filter fst calls)"
      by (elim exE conjE)
    show ?thesis unfolding e
    proof (intro exI [of _ "?e # bs"] conjI)
      show "jq_ring (as @ ?e # bs) (enqueue_all calls ?rt1)" using bs(1) by simp
      show "set (?e # bs) \<inter> dom (rt_entries rt) = {}" using bs(2) new by (auto simp: ents)
      show "dom (rt_entries (enqueue_all calls ?rt1)) = dom (rt_entries rt) \<union> set (?e # bs)"
        using bs(3) by (auto simp: ents)
      show "\<forall>a\<in>dom (rt_entries rt). rt_entries (enqueue_all calls ?rt1) a = rt_entries rt a"
        using bs(4) new by (auto simp: ents)
      show "map (\<lambda>a. the (rt_entries (enqueue_all calls ?rt1) a)) (?e # bs) = map snd (filter fst (call # calls))"
        using bs(4,5) by (simp add: call True ents)
    qed
  qed
qed

lemma pending_cong:
  assumes "jq_ring as rt" "jq_ring as rt'" "\<forall>a\<in>set as. rt_entries rt' a = rt_entries rt a"
  shows "pending rt' = pending rt"
  using assms(3) by (simp add: pending_ring [OF assms(1)] pending_ring [OF assms(2)])

lemma enqueue_all_pending:
  assumes "jq_inv rt"
  shows "jq_inv (enqueue_all calls rt) \<and> pending (enqueue_all calls rt) = pending rt @ map snd (filter fst calls)"
proof -
  from assms obtain as where as: "jq_ring as rt" "dom (rt_entries rt) = set as" by (auto simp: jq_inv_def)
  from enqueue_all_ring [OF as(1), of calls] obtain bs where
    bs: "jq_ring (as @ bs) (enqueue_all calls rt)"
      "dom (rt_entries (enqueue_all calls rt)) = dom (rt_entries rt) \<union> set bs"
      "\<forall>a\<in>dom (rt_entries rt). rt_entries (enqueue_all calls rt) a = rt_entries rt a"
      "map (\<lambda>a. the (rt_entries (enqueue_all calls rt) a)) bs = map snd (filter fst calls)"
    by (elim exE conjE)
  have "jq_inv (enqueue_all calls rt)"
    unfolding jq_inv_def by (intro exI [of _ "as @ bs"]) (simp add: bs as)
  moreover have "pending (enqueue_all calls rt) = pending rt @ map snd (filter fst calls)"
    using bs(3,4) as(2) by (simp add: pending_ring [OF as(1)] pending_ring [OF bs(1)])
  ultimately show ?thesis ..
qed

lemma take_first_job_ring:
  assumes "jq_ring (e # as) rt"
  obtains job where "rt_entries rt e = Some job" "take_first_job rt = (Some (e, job), list_del e rt)"
    "jq_ring as (list_del e rt)" "pending rt = job # pending (list_del e rt)"
proof -
  from assms obtain job where j: "rt_entries rt e = Some job" by (auto simp: jq_ring_def)
  have "nxt rt job_list = e" "\<not> list_empty job_list rt"
    using assms ring_empty [of job_list "e # as" rt] by (auto simp: jq_ring_def ring_def)
  moreover have r: "jq_ring as (list_del e rt)"
    using assms ring_del [of job_list e as rt] by (auto simp: jq_ring_def)
  moreover have "pending rt = job # pending (list_del e rt)"
    by (simp add: pending_ring [OF assms] pending_ring [OF r] j)
  ultimately show thesis using that [OF j] j by (simp add: take_first_job_def)
qed

section \<open>Executing jobs\<close>

lemma list_empty_pending:
  assumes "jq_inv rt"
  shows "list_empty job_list rt \<longleftrightarrow> pending rt = []"
proof -
  from assms obtain as where as: "jq_ring as rt" by (auto simp: jq_inv_def)
  then show ?thesis using ring_empty [of job_list as rt] by (simp add: jq_ring_def pending_ring [OF as])
qed

lemma execute_empty:
  "jq_inv rt \<Longrightarrow> pending rt = [] \<Longrightarrow> JS_ExecutePendingJob runs rt = ((0, None), rt)"
  by (simp add: JS_ExecutePendingJob_def take_first_job_def list_empty_pending)

lemma execute_first:
  assumes "jq_inv rt" "pending rt = job # jobs"
  obtains rt' where "JS_ExecutePendingJob runs rt = ((if snd (runs job) then -1 else 1, Some job), rt')"
    "jq_inv rt'" "pending rt' = jobs @ map snd (filter fst (fst (runs job)))"
proof -
  from assms(1) obtain as0 where as0: "jq_ring as0 rt" "dom (rt_entries rt) = set as0" by (auto simp: jq_inv_def)
  with assms(2) obtain e as where as_eq: "as0 = e # as" by (cases as0) (auto simp: pending_ring)
  let ?rt1 = "list_del e rt" and ?calls = "fst (runs job)"
  let ?rt2 = "enqueue_all ?calls ?rt1"
  let ?rt' = "?rt2\<lparr>rt_entries := (rt_entries ?rt2)(e := None)\<rparr>"
  from as0(1) [unfolded as_eq] obtain job' where
    tk: "take_first_job rt = (Some (e, job'), ?rt1)" "jq_ring as ?rt1" "pending rt = job' # pending ?rt1"
    by (rule take_first_job_ring)
  with assms(2) have job: "job' = job" "pending ?rt1 = jobs" by simp_all
  have e: "e \<notin> set as" using as0(1) by (simp add: as_eq jq_ring_def ring_def)
  from enqueue_all_ring [OF tk(2), of ?calls] obtain bs where
    bs: "jq_ring (as @ bs) ?rt2" "set bs \<inter> dom (rt_entries ?rt1) = {}"
      "dom (rt_entries ?rt2) = dom (rt_entries ?rt1) \<union> set bs"
      "\<forall>a\<in>dom (rt_entries ?rt1). rt_entries ?rt2 a = rt_entries ?rt1 a"
      "map (\<lambda>a. the (rt_entries ?rt2 a)) bs = map snd (filter fst ?calls)"
    by (elim exE conjE)
  have eb: "e \<notin> set bs" using bs(2) as0(2) by (auto simp: as_eq)
  have r: "jq_ring (as @ bs) ?rt'"
    using bs(1) e eb by (auto simp: jq_ring_def ring_def)
  moreover have "dom (rt_entries ?rt') = set (as @ bs)" using bs(3) as0(2) e eb by (auto simp: as_eq)
  ultimately have "jq_inv ?rt'" unfolding jq_inv_def by blast
  moreover have "pending ?rt' = jobs @ map snd (filter fst ?calls)"
  proof -
    have "map (\<lambda>a. the (rt_entries ?rt' a)) as = map (\<lambda>a. the (rt_entries ?rt1 a)) as"
      using e bs(4) as0(2) by (auto simp: as_eq)
    moreover have "map (\<lambda>a. the (rt_entries ?rt' a)) bs = map snd (filter fst ?calls)"
      unfolding bs(5) [symmetric] using eb by auto
    ultimately show ?thesis unfolding job(2) [symmetric] pending_ring [OF r] pending_ring [OF tk(2)] by simp
  qed
  moreover have "JS_ExecutePendingJob runs rt = ((if snd (runs job) then -1 else 1, Some job), ?rt')"
    by (simp add: JS_ExecutePendingJob_def tk(1) job Let_def split: prod.splits)
  ultimately show thesis using that by blast
qed

text \<open>The queue behind the first-in first-out interface: jobs that queue nothing themselves.\<close>

definition pop_job :: "'j runtime \<Rightarrow> 'j option \<times> 'j runtime" where
  "pop_job rt = (case JS_ExecutePendingJob (\<lambda>_. ([], False)) rt of ((_, job), rt') \<Rightarrow> (job, rt'))"

definition push_job :: "'j \<Rightarrow> 'j runtime \<Rightarrow> 'j runtime" where
  "push_job job rt = snd (JS_EnqueueJob True job rt)"

lemma push_job_pending:
  "jq_inv rt \<Longrightarrow> jq_inv (push_job job rt) \<and> pending (push_job job rt) = pending rt @ [job]"
  using enqueue_all_pending [of rt "[(True, job)]"] by (simp add: enqueue_all_def push_job_def)

lemma pop_job_first:
  assumes "jq_inv rt" "pending rt = job # jobs"
  obtains rt' where "pop_job rt = (Some job, rt')" "jq_inv rt'" "pending rt' = jobs"
proof -
  obtain rt' where "JS_ExecutePendingJob (\<lambda>_. ([], False)) rt = ((1, Some job), rt')" "jq_inv rt'" "pending rt' = jobs"
    using execute_first [OF assms, of "\<lambda>_. ([], False)"] by auto
  then show thesis using that by (simp add: pop_job_def)
qed

lemma pop_job_empty: "jq_inv rt \<Longrightarrow> pending rt = [] \<Longrightarrow> pop_job rt = (None, rt)"
  by (simp add: pop_job_def execute_empty)

interpretation jobs: fifo_queue jq_inv pending push_job pop_job
proof
  fix rt :: "'a runtime"
  assume inv: "jq_inv rt"
  show "jq_inv (snd (pop_job rt))"
  proof (cases "pending rt")
    case Nil
    with inv show ?thesis by (simp add: pop_job_empty)
  next
    case (Cons job jobs)
    with inv show ?thesis by (rule pop_job_first) simp
  qed
next
  fix rt :: "'a runtime" and job jobs
  assume "jq_inv rt" "pending rt = job # jobs"
  then show "fst (pop_job rt) = Some job \<and> pending (snd (pop_job rt)) = jobs"
    by (rule pop_job_first) simp
qed (simp_all add: push_job_pending pop_job_empty)

text \<open>Up to \<open>n\<close> calls of \<^verbatim>\<open>JS_ExecutePendingJob\<close>, until none is pending.\<close>

fun exec_jobs :: "'j job_run \<Rightarrow> nat \<Rightarrow> 'j runtime \<Rightarrow> 'j list \<times> 'j runtime" where
  "exec_jobs runs 0 rt = ([], rt)"
| "exec_jobs runs (Suc n) rt =
     (case JS_ExecutePendingJob runs rt of
        ((_, None), rt') \<Rightarrow> ([], rt')
      | ((_, Some job), rt') \<Rightarrow> (case exec_jobs runs n rt' of (jobs, rt'') \<Rightarrow> (job # jobs, rt'')))"

text \<open>The jobs a job queues.\<close>

abbreviation queued_by :: "'j job_run \<Rightarrow> 'j \<Rightarrow> 'j list" where
  "queued_by runs job \<equiv> map snd (filter fst (fst (runs job)))"

lemma exec_jobs_order:
  assumes "jq_inv rt"
  shows "\<exists>ran rt'. exec_jobs runs n rt = (ran, rt') \<and> jq_inv rt' \<and>
    ran @ pending rt' = pending rt @ concat (map (queued_by runs) ran) \<and>
    (length ran = n \<or> pending rt' = [])"
  using assms
proof (induction n arbitrary: rt)
  case (Suc n)
  show ?case
  proof (cases "pending rt")
    case Nil
    with Suc.prems show ?thesis by (simp add: execute_empty)
  next
    case (Cons job jobs)
    with Suc.prems obtain rt1 ret where rt1: "JS_ExecutePendingJob runs rt = ((ret, Some job), rt1)" "jq_inv rt1"
      "pending rt1 = jobs @ queued_by runs job"
      by (rule execute_first)
    from Suc.IH [OF rt1(2)] obtain ran rt' where
      "exec_jobs runs n rt1 = (ran, rt')" "jq_inv rt'"
      "ran @ pending rt' = pending rt1 @ concat (map (queued_by runs) ran)" "length ran = n \<or> pending rt' = []"
      by (elim exE conjE)
    with rt1 Cons show ?thesis by (intro exI [of _ "job # ran"] exI [of _ rt']) simp
  qed
qed simp

section \<open>Freeing the queue\<close>

lemma free_jobs_loop_ring:
  "job_list \<notin> set as \<Longrightarrow> distinct as \<Longrightarrow> map (nxt rt) as = tl (as @ [job_list]) \<Longrightarrow> set as \<subseteq> dom (rt_entries rt) \<Longrightarrow>
   free_jobs_loop (hd (as @ [job_list])) (nxt rt (hd (as @ [job_list]))) rt =
     Some (rt\<lparr>rt_entries := rt_entries rt |` (- set as)\<rparr>)"
proof (induction as arbitrary: rt)
  case Nil
  then show ?case by (simp add: free_jobs_loop.simps)
next
  case (Cons a as)
  let ?rt1 = "rt\<lparr>rt_entries := (rt_entries rt)(a := None)\<rparr>" and ?el1 = "hd (as @ [job_list])"
  have n: "nxt rt a = ?el1" using Cons.prems by (cases as) auto
  have el1: "?el1 = job_list \<or> ?el1 \<in> set as \<and> ?el1 \<noteq> a" using Cons.prems(2) by (cases as) auto
  then have "deref_next ?el1 ?rt1 = Some (nxt ?rt1 ?el1)"
    using Cons.prems(4) by (auto simp: deref_next_def)
  moreover have "free_jobs_loop ?el1 (nxt ?rt1 ?el1) ?rt1 = Some (?rt1\<lparr>rt_entries := rt_entries ?rt1 |` (- set as)\<rparr>)"
    using Cons.prems by (intro Cons.IH) (cases as; auto)+
  moreover have "rt_entries ?rt1 |` (- set as) = rt_entries rt |` (- set (a # as))"
    by (auto simp: restrict_map_def)
  ultimately show ?case using Cons.prems by (subst free_jobs_loop.simps) (auto simp: n)
qed

lemma free_runtime_ring:
  assumes "jq_inv rt"
  obtains rt' where "JS_FreeRuntime_jobs rt = Some rt'" "rt_entries rt' = Map.empty" "list_empty job_list rt'"
proof -
  from assms obtain as where as: "jq_ring as rt" "dom (rt_entries rt) = set as" by (auto simp: jq_inv_def)
  let ?el = "hd (as @ [job_list])"
  have r: "job_list \<notin> set as" "distinct as" "map (nxt rt) as = tl (as @ [job_list])" "nxt rt job_list = ?el"
    using as(1) by (cases as; auto simp: jq_ring_def ring_def)+
  have "?el = job_list \<or> ?el \<in> set as" by (cases as) auto
  with as(2) have "deref_next ?el rt = Some (nxt rt ?el)" by (auto simp: deref_next_def)
  moreover have "rt_entries rt |` (- set as) = Map.empty" using as(2) by (auto simp: restrict_map_def fun_eq_iff)
  ultimately have "JS_FreeRuntime_jobs rt = Some (init_list_head job_list (rt\<lparr>rt_entries := Map.empty\<rparr>))"
    using free_jobs_loop_ring [OF r(1-3)] as(2) r(4) by (simp add: JS_FreeRuntime_jobs_def deref_next_def [of job_list])
  then show thesis
    by (rule that) (simp_all add: init_list_head_def set_next_def set_prev_def list_empty_def)
qed

section \<open>The jobs run in order\<close>

text \<open>
  Property C22.  Whatever jobs are queued on a new runtime and whatever each queues itself when it runs,
  and whichever allocations fail, any number of calls of \<^verbatim>\<open>JS_ExecutePendingJob\<close> runs jobs in the order in
  which they were queued: the jobs run followed by those still pending are the jobs queued first followed by
  the jobs each job run has queued, in the order of the runs, and the calls run a job as long as one is
  pending.  Freeing the queue afterwards reads no freed entry, ends, and leaves no entry allocated.
\<close>

theorem jobs_run_in_order:
  "\<exists>ran rt rt'. exec_jobs runs n (enqueue_all calls JS_NewRuntime_jobs) = (ran, rt) \<and>
     ran @ pending rt = map snd (filter fst calls) @ concat (map (queued_by runs) ran) \<and>
     (length ran = n \<or> list_empty job_list rt) \<and>
     JS_FreeRuntime_jobs rt = Some rt' \<and> rt_entries rt' = Map.empty"
proof -
  have new: "jq_inv JS_NewRuntime_jobs" "pending JS_NewRuntime_jobs = []"
    using jq_ring_new pending_ring [OF jq_ring_new]
    by (auto simp: jq_inv_def JS_NewRuntime_jobs_def init_list_head_def set_next_def set_prev_def)
  note start = enqueue_all_pending [OF new(1), of calls, THEN conjunct1]
    enqueue_all_pending [OF new(1), of calls, THEN conjunct2, unfolded new(2) append_Nil]
  from exec_jobs_order [OF start(1), of runs n] obtain ran rt where
    r: "exec_jobs runs n (enqueue_all calls JS_NewRuntime_jobs) = (ran, rt)" "jq_inv rt"
      "ran @ pending rt = map snd (filter fst calls) @ concat (map (queued_by runs) ran)"
      "length ran = n \<or> pending rt = []"
    unfolding start(2) by (elim exE conjE)
  obtain rt' where "JS_FreeRuntime_jobs rt = Some rt'" "rt_entries rt' = Map.empty"
    by (rule free_runtime_ring [OF r(2)])
  with r show ?thesis by (simp add: list_empty_pending)
qed

end
