(* ===== verification/Spec2Isabelle.thy ===== *)
theory Spec2Isabelle
  imports Output Shared_Cache Bounded_Wait Wake_Up Interleaved_Stop Cache_Eviction
    String_Boundary Utf8_Buffers Job_Queue Polyfill Crypto Zlib Buffer Url Encoding
begin

text \<open>
  A verification library for cqjs, a JavaScript runtime in C around the QuickJS engine that reads requests as lines of
  JSON from standard input and writes responses as lines of JSON to standard output.

  \<^bold>\<open>The program.\<close>  A reader thread cuts standard input into lines and queues them (\<^verbatim>\<open>main.c\<close>).  The main thread takes
  the lines one by one, parses them and handles them: it creates, destroys and lists environments (\<^verbatim>\<open>env_manager.c\<close>) or puts
  an evaluation into the request queue of one.  Each environment has its own engine, timers, fetches and dispatch tracker
  and a thread that runs its event loop: it takes requests, evaluates them on a thread with a large stack
  (\<^verbatim>\<open>cqjs.c\<close>), through a bytecode cache that all environments share (\<^verbatim>\<open>bytecode_cache.c\<close>), answers them, and runs pending jobs,
  due timers and completed fetches.  Scripts see the polyfills (\<^verbatim>\<open>polyfill/\<close>), among them timers, \<^verbatim>\<open>fetch\<close>, whose
  transfers run on threads of their own, and \<^verbatim>\<open>__cqjs_send\<close>, which sends events.

  \<^bold>\<open>The theories\<close>, in the order of their dependencies, with the files under \<^verbatim>\<open>src\<close> they model.
  \<^item> \<open>Prelude\<close>: C strings, \<^verbatim>\<open>snprintf\<close>, integer widths, lists and digits.  \<open>Js_Api\<close>: the conversions of the engine as a parameter,
    the results of native functions.  \<open>Fifo\<close>: the interface of a first-in first-out queue (locale \<open>fifo_queue\<close>), interpreted
    by the queue of lines, the queue of requests and the queue of jobs.
  \<^item> \<open>Utf8\<close> and \<open>Js_String\<close> (\<^verbatim>\<open>quickjs/cutils.h\<close>, \<^verbatim>\<open>quickjs/quickjs.c\<close>): how the engine makes a string from C bytes
    (\<open>js_new_string_len\<close>) and C reads it back (\<open>js_to_cstring_len2\<close>), down to the single byte and its place in the buffer; the
    contract of a self-delimiting code is the locale \<open>prefix_codec\<close>, which UTF-8 interprets.  \<open>String_Boundary\<close>: every string of the
    engine survives the way to C and back, bytes survive exactly when they are well formed, and what that means for the body of a
    response.  \<open>Utf8_Buffers\<close>: the same encoding into a buffer of a given size is cut between two code points and
    counts on as \<^verbatim>\<open>snprintf\<close> does.  \<open>Job_Queue\<close> (\<^verbatim>\<open>quickjs/quickjs.c\<close>, \<^verbatim>\<open>quickjs/list.h\<close>): the pending jobs of a runtime on a circular linked list run in
    the order in which they were queued.
  \<^item> \<open>Encoding\<close> (\<^verbatim>\<open>polyfill/encoding.c\<close>), \<open>Buffer\<close> (\<^verbatim>\<open>polyfill/buffer.c\<close>, \<^verbatim>\<open>polyfill/console.c\<close>), \<open>Url\<close> (\<^verbatim>\<open>polyfill/url.c\<close>),
    \<open>Zlib\<close> (\<^verbatim>\<open>polyfill/zlib.c\<close>), \<open>Crypto\<close> (\<^verbatim>\<open>polyfill/crypto.c\<close>): round trips, sizes, the exact inputs on which a round trip fails,
    how the inflate loop ends and with what it settles the promise, destruction of keys on every path.
  \<^item> \<open>Json_Response\<close> (\<^verbatim>\<open>cqjs.c\<close>): the text of a response reads back as its members, is one line, and the buffer is large enough
    under a stated bound and too small beyond it.
  \<^item> \<open>Timespec\<close> and \<open>Timer\<close> (\<^verbatim>\<open>cqjs.c\<close>, \<^verbatim>\<open>polyfill/timer.c\<close>): arithmetic on times equals arithmetic on nanoseconds; the timer
    list keeps its invariant under every operation, also those callbacks perform; a pass over the timers returns
    whatever callbacks do as long as the clock advances; cancelled timers never fire; the timeout is right.
  \<^item> \<open>Dispatch\<close> (\<^verbatim>\<open>cqjs.c\<close>) refines a table of pending requests.  \<open>Lru_Cache\<close>: the contract of a cache that evicts the least recently
    used entry (locale \<open>lru_cache\<close>) and, as a sublocale, what its clients rely on (\<open>code_cache\<close>); \<open>Bytecode_Cache\<close>
    (\<^verbatim>\<open>bytecode_cache.c\<close>) interprets it.  \<open>Cache_Eviction\<close>: how many operations of other threads an entry that a lookup returned
    survives, and that it does not survive more.
  \<^item> \<open>Fetch\<close> (\<^verbatim>\<open>polyfill/fetch.c\<close>): the worker threads against the pass that settles promises: each promise is settled at most
    once, with the outcome of its transfer, only requests that are completed are settled, and all others stay.
  \<^item> \<open>Polyfill\<close> (\<^verbatim>\<open>polyfill/polyfill.c\<close> and the injection functions): which global is bound to which native function.
  \<^item> \<open>Stdin_Reader\<close> (\<^verbatim>\<open>main.c\<close>): the reader thread interleaved with the main thread delivers the lines it cuts the
    input into (\<open>reader_lines\<close>) in order; for input without NUL bytes whose carriage returns stand at line ends these are its
    newline-terminated non-empty lines (\<open>input_lines\<close>, lemma \<open>reader_lines_clean\<close>).
    \<open>Request_Queue\<close> (\<^verbatim>\<open>env_manager.c\<close>): the linked list on an explicit store refines a queue and leaks no node.
  \<^item> \<open>Engine\<close>: the engine as a parameter; a script is a tree of calls into native functions.  \<open>Environment\<close>
    (\<^verbatim>\<open>env_manager.c\<close>, \<^verbatim>\<open>cqjs.c\<close>): the record \<open>js_env\<close> (\<^verbatim>\<open>js_env_t\<close>), \<open>js_env_cqjs_send\<close>, \<open>cqjs_eval\<close>, \<open>cqjs_call\<close>,
    \<open>env_process_jobs\<close>, \<open>env_handle_eval\<close>, \<open>env_handle_eval_file\<close>, \<open>env_event_loop\<close>.  It interprets the locales
    \<open>timer_callbacks\<close> and \<open>fetch_engine\<close> on what scripts can really do.  Its theorems: each request taken gets one answer, in
    order, and evaluation through the cache runs the script that direct evaluation runs.
  \<^item> \<open>Event_Thread\<close> (\<^verbatim>\<open>env_manager.c\<close>, \<^verbatim>\<open>env_event_loop\<close>): the same thread in small steps with a program counter \<open>loop_pc\<close>; a
    turn is a sequence of steps, and joining the thread returns.  \<open>Worker_Pool\<close>: the interface of threads that take requests and
    answer them (locale \<open>request_worker\<close>), with the multiset of ids as what is kept, interpreted by the environments.
    \<open>Due_Work\<close>: a round of jobs leaves no pending timer that is due and no completed fetch behind.  \<open>Wake_Up\<close>: although the loop empties
    the notification pipe before it looks at the fetches, its thread never polls beside a completed fetch that nobody wakes it for.
  \<^item> \<open>Env_Manager\<close> (\<^verbatim>\<open>env_manager.c\<close>): \<open>env_create\<close>, \<open>env_find\<close>, \<open>env_destroy\<close>, \<open>env_manager_free\<close>; what each outcome leaves.
  \<^item> \<open>Server\<close> (\<^verbatim>\<open>main.c\<close>, \<^verbatim>\<open>handle_request\<close>): one definition per type of request; each line is answered or queued
    once, and every response is well-formed (\<open>response_wf\<close>).
  \<^item> \<open>System\<close> (\<^verbatim>\<open>main.c\<close>, \<^verbatim>\<open>main\<close>): the threads as the step relation \<open>system_step\<close>, its reachable states and their invariant.
    \<open>Output\<close> (\<^verbatim>\<open>cqjs.c\<close>): the responses as lines of standard output and what a client reads from them.  \<open>Shared_Cache\<close>: in every
    reachable state the cache holds only what belongs there, so that every eval request runs its own source.  \<open>Bounded_Wait\<close>: a
    queued request is answered after a number of steps of its thread that its position bounds, whatever the other threads
    do.  \<open>Example_Run\<close>: a concrete run for the witnesses.  This theory concludes that every line is accounted for by its id, that no
    thread gets stuck, that the program can always finish, and that a client can tell the answers apart.

  \<^bold>\<open>State, errors and loops.\<close>  Structures are records, null pointers \<open>None\<close>, linked lists and arrays that nothing else
  points into are lists; where a theorem depends on the pointers (the request queue, the queue of jobs) the nodes are in a store.
  A sprintf past its buffer is the status \<open>Overflowed\<close> or a \<open>None\<close> at the place where it happens; \<open>snprintf\<close> truncates.  Loops of the code
  that may not end are \<open>partial_function (option)\<close>: \<open>env_drain\<close>, the passes over timers and fetches, and the
  wait for a stopped thread, \<open>loop_join\<close>.  The theorems about them state that they return: requests stop arriving at some
  point of a turn (\<open>arrivals_end\<close>) and the clock advances (\<open>clock_advances\<close>); a stopped thread takes at most \<open>steps_left\<close> steps.
  \<open>env_jobs_loop\<close> and the program counter \<open>Jobs k\<close> count the 100 rounds of the code's own loop.  The number of turns given to
  \<open>env_event_loop\<close> is arbitrary in its theorem.  Fields without a counterpart in C record history and are
  read by no operation's guard: \<open>je_submitted\<close>, \<open>sv_dropped\<close>, \<open>sy_lines\<close>; \<open>sv_pc\<close> is the program counter of each
  environment's thread; \<open>sv_out\<close> and \<open>je_out\<close> list the responses handed to \<^verbatim>\<open>send_json_response\<close>, each of them, also where its
  \<^verbatim>\<open>malloc\<close> fails and nothing is printed or its buffer is too small, which \<open>Json_Response\<close> and \<open>Output\<close> treat; \<open>je_tick\<close>, \<open>je_clock\<close> and \<open>sv_tick\<close> number the
  questions put to the world.

  \<^bold>\<open>Parameters.\<close>  QuickJS (\<open>engine\<close>, \<open>js_api\<close>, \<open>json_reader\<close>), libcurl, zlib, mbedTLS with its PSA interface, the clock,
  \<^verbatim>\<open>malloc\<close>, \<^verbatim>\<open>pthread_create\<close> and the file system are arguments of the definitions.  What a theorem needs of them is a hypothesis:
  for the cache that running compiled code is running the source (\<open>compile_law\<close>) and that reading back written bytecode gives that
  code (\<open>bytecode_law\<close>), for the round trip of a hash that SHA-256 does not collide on the sources used.

  \<^bold>\<open>Granularity.\<close>  Code under one mutex is one step.  Within an environment, requests arrive and transfers complete at every
  place where the thread takes a mutex or settles a promise.  In \<open>System\<close> a step is an iteration of the reader, the handling of one
  line by the main thread, or a small step of one environment's thread, which touches its request queue at most once: between any
  two of them every other thread may run, and each step may find another world.  The lookup and the insertion of one evaluation are
  in one step; what other threads can do to the entry between the lookup and the use of its bytes is the subject of
  \<open>Cache_Eviction\<close>.  Destroying an environment is one step, in which its thread takes all the steps it still needs;
  \<open>Interleaved_Stop\<close> shows that steps of other threads in between change nothing of its end and its answers.

  A worker thread of \<^verbatim>\<open>fetch\<close> stores the fields of its result and marks the request completed in one step.  A lookup in the cache is
  one step, although the code updates the time stamp under a read lock, where two lookups may race for it.

  \<^bold>\<open>Integers.\<close>  Where the code computes with a width that matters (UTF-8 units, base64, \<^verbatim>\<open>size_t\<close> limits, the conversion of timer
  intervals, the space given to zlib, seconds and nanoseconds) the model has that width or the theorem a bound; counters that grow by one (timer and
  dispatch ids, the capacity of the tracker) and the status code of a transfer are unbounded.  The input length given to zlib is
  cast to 32 bits in the code and is bounded in the theorem.  The code points by which \<open>String_Boundary\<close> states what a buffer means are read by the
  code's own decoder; that the decoder inverts the encoder is the theorem \<open>js_string_survives_c\<close>.

  \<^bold>\<open>Not modelled.\<close>  The engine (vendored under \<^verbatim>\<open>quickjs\<close>) other than its string boundary and its queue of jobs: what parser,
  interpreter, garbage collector and library do with a script is the parameter \<open>engine\<close>, of which the program's own correctness needs no
  more than the laws named above, and the conversions of \<open>js_api\<close> stay a parameter in the polyfills, since values other than strings
  are converted by running scripts.  Scripts that never return; what the engine does with the stack limit it is given;
  output to standard error other than the console's; the failure of an allocation whose result the code does not check (in the queues,
  the tracker, the fetch and zlib buffers), which would crash it; the crash signal handlers, which only leave the process; a write that blocks
  on a full pipe; what a program does that uses memory after a race (a cache entry evicted while it is read, a fetch entry freed
  while its thread runs); the Go client, the JavaScript prelude and the test scripts, which are not part of the program.
\<close>

section \<open>Properties of the whole program\<close>

text \<open>
  Property C1.  Every request gets exactly one answer or is accounted for otherwise.  In every state the program can reach, for every
  input, under every interleaving of its threads and whatever scripts, engine, network and system calls do: the lines handled so far
  are a prefix of the lines into which the reader cuts standard input, in order; the environments have distinct ids and are at
  most 64; and, as long as the buffer of a list of environments has not overflowed, the ids of the results and errors handed
  to \<^verbatim>\<open>send_json_response\<close>, of the requests waiting in the environments' queues
  and of the requests freed with a stopped environment are together, as a multiset, the ids of the lines handled.  Once the
  input is read and no environment is left, every line has been answered under its id or was dropped with its environment.  For an
  input without NUL bytes whose carriage returns stand at line ends, the lines are its newline-terminated non-empty lines.
  (What \<^verbatim>\<open>send_json_response\<close> then prints is the subject of the theories \<open>Json_Response\<close> and \<open>Output\<close>: nothing when its
  \<^verbatim>\<open>malloc\<close> fails, and past its buffer where the text does not fit.)
\<close>

theorem system_accounts_for_every_line:
  assumes "reachable md eng jr input s"
  shows "(\<exists>rest. reader_lines [] input = sy_lines s @ rest) \<and>
    distinct (env_ids (sv_mgr (sy_server s))) \<and> length (em_environments (sv_mgr (sy_server s))) \<le> 64 \<and>
    (sv_status (sy_server s) \<noteq> Overflowed \<longrightarrow>
       replied (sv_out (sy_server s)) + queued (sv_mgr (sy_server s)) + dropped (sy_server s) =
       mset (map (request_id jr) (sy_lines s))) \<and>
    (sv_status (sy_server s) \<noteq> Overflowed \<longrightarrow> sr_eof (sy_stdin s) \<longrightarrow> sr_lines (sy_stdin s) = [] \<longrightarrow>
       em_environments (sv_mgr (sy_server s)) = [] \<longrightarrow>
       replied (sv_out (sy_server s)) + dropped (sy_server s) = mset (map (request_id jr) (reader_lines [] input))) \<and>
    (NUL \<notin> set input \<longrightarrow> cr_at_eol input \<longrightarrow> reader_lines [] input = input_lines [] input)"
proof -
  have inv: "stdin_inv (sy_reader s, sy_stdin s)" "mgr_inv (sv_mgr (sy_server s))"
      "sy_lines s @ sr_lines (sy_stdin s) @ unread (sy_reader s) = reader_lines [] input"
      "sv_status (sy_server s) = Overflowed \<or> balance (sy_server s) = mset (map (request_id jr) (sy_lines s))"
    using reachable_inv [OF assms] by (simp_all add: system_inv_def)
  have clean: "reader_lines [] input = input_lines [] input" if "NUL \<notin> set input" "cr_at_eol input"
    using that by (simp add: reader_lines_clean)
  have all: "sy_lines s = reader_lines [] input" if "sr_eof (sy_stdin s)" "sr_lines (sy_stdin s) = []"
    using inv(1,3) that by (simp add: stdin_inv_def)
  have rest: "\<exists>rest. reader_lines [] input = sy_lines s @ rest" using inv(3) by (metis append_assoc)
  have total: "replied (sv_out (sy_server s)) + queued (sv_mgr (sy_server s)) + dropped (sy_server s) = mset (map (request_id jr) (sy_lines s))"
    if "sv_status (sy_server s) \<noteq> Overflowed" using inv(4) that by (simp add: balance_def)
  have ended: "replied (sv_out (sy_server s)) + dropped (sy_server s) = mset (map (request_id jr) (reader_lines [] input))"
    if "sv_status (sy_server s) \<noteq> Overflowed" "sr_eof (sy_stdin s)" "sr_lines (sy_stdin s) = []" "em_environments (sv_mgr (sy_server s)) = []"
    using total [OF that(1)] all [OF that(2,3)] that(4) by (simp add: queued_def)
  have "distinct (env_ids (sv_mgr (sy_server s)))" "length (em_environments (sv_mgr (sy_server s))) \<le> 64"
    using inv(2) by (simp_all add: mgr_inv_def MAX_ENVIRONMENTS_def)
  with rest total ended clean show ?thesis by (intro conjI impI) assumption+
qed

text \<open>
  Property C2.  No thread gets stuck.  In every reachable state in which the program is serving, the reader can go on until the
  end of the input; the main thread handles the next queued line, whatever it says, or, at the end of the input, shuts down; the
  thread of each environment can take its next step, and after finitely many steps of its own it has emptied
  its request queue, wherever in its loop it is and whatever its scripts do.
\<close>

theorem system_progress:
  assumes "reachable md eng jr input s" and "sv_status (sy_server s) = Serving" and "world_of md w"
  shows "(\<exists>rd sr. stdin_thread_step (sy_reader s, sy_stdin s) = Some (rd, sr) \<and>
       (rd_exited rd \<or> length (rd_input rd) < length (rd_input (sy_reader s)))) \<and>
    (\<exists>s'. main_loop_step w eng jr s = Some s' \<and> main_progress jr s s') \<and>
    (\<forall>k < length (em_environments (sv_mgr (sy_server s))).
       env_thread_step w eng k (sy_server s) \<noteq> None \<and>
       (\<exists>n sv. env_thread_steps n w eng k (sy_server s) = Some sv \<and>
          rq_contents (je_requests (em_environments (sv_mgr sv) ! k)) = []))"
proof -
  have inv: "system_inv jr input s" using assms(1) by (rule reachable_inv)
  have w: "world_ok w" using assms(3) by (rule world_of_ok)
  from inv have "stdin_inv (sy_reader s, sy_stdin s)" and mgr: "mgr_inv (sv_mgr (sy_server s))" "\<forall>i. sv_pc (sy_server s) i \<noteq> Stopped"
    by (simp_all add: system_inv_def)
  from this(1) have "\<exists>rd sr. stdin_thread_step (sy_reader s, sy_stdin s) = Some (rd, sr) \<and>
      (rd_exited rd \<or> length (rd_input rd) < length (rd_input (sy_reader s)))" by (rule thread_step_inv) blast
  moreover have "\<exists>s'. main_loop_step w eng jr s = Some s' \<and> main_progress jr s s'"
    using main_step_spec [OF inv w assms(2), of eng] by blast
  moreover have "env_thread_step w eng k (sy_server s) \<noteq> None" "\<exists>n sv. env_thread_steps n w eng k (sy_server s) = Some sv \<and>
      rq_contents (je_requests (em_environments (sv_mgr sv) ! k)) = []"
    if "k < length (em_environments (sv_mgr (sy_server s)))" for k
    using env_thread_step_spec [OF mgr(1) w that mgr(2), of eng] env_thread_empties [OF mgr(1) w that mgr(2), of eng] by auto
  ultimately show ?thesis by blast
qed

text \<open>
  Property C5.  The program can always finish, whatever its input is.  From every reachable state in which it is serving there are
  finitely many steps to its end: it stops at an exit request, at a list of environments that overflows its buffer, or, when every
  line into which the reader cuts the input is handled, with no environment left and every one of these lines answered under its id or
  dropped with its environment.  For an input without NUL bytes whose carriage returns stand at line ends these are its
  newline-terminated non-empty lines.
\<close>

theorem system_can_finish:
  assumes "reachable md eng jr input s" and "sv_status (sy_server s) = Serving" and "world_of md w"
  shows "(\<exists>s'. (system_step md eng jr)\<^sup>*\<^sup>* s s' \<and>
    ((\<exists>pre l. sy_lines s' = pre @ [l] \<and> ended_by jr l s') \<or>
     (sv_status (sy_server s') = Exited \<and> em_environments (sv_mgr (sy_server s')) = [] \<and> sy_lines s' = reader_lines [] input \<and>
      replied (sv_out (sy_server s')) + dropped (sy_server s') = mset (map (request_id jr) (reader_lines [] input))))) \<and>
    (NUL \<notin> set input \<longrightarrow> cr_at_eol input \<longrightarrow> reader_lines [] input = input_lines [] input)"
proof (intro conjI impI)
  show "reader_lines [] input = input_lines [] input" if "NUL \<notin> set input" "cr_at_eol input"
    using that by (simp add: reader_lines_clean)
  have inv: "system_inv jr input s" using assms(1) by (rule reachable_inv)
  from reader_finishes [OF inv assms(2), of md eng] obtain s1 where
    r: "(system_step md eng jr)\<^sup>*\<^sup>* s s1" "system_inv jr input s1" "sy_server s1 = sy_server s" "sr_eof (sy_stdin s1)" by blast
  from main_finishes [OF r(2) _ r(4) assms(3), of eng] r(3) assms(2) obtain s' where
    m: "(system_step md eng jr)\<^sup>*\<^sup>* s1 s'" "system_inv jr input s'" "shut_down s' \<or> (\<exists>pre l. sy_lines s' = pre @ [l] \<and> ended_by jr l s')"
    by auto
  have steps: "(system_step md eng jr)\<^sup>*\<^sup>* s s'" using r(1) m(1) by (rule rtranclp_trans)
  from m(3) show "\<exists>s'. (system_step md eng jr)\<^sup>*\<^sup>* s s' \<and>
    ((\<exists>pre l. sy_lines s' = pre @ [l] \<and> ended_by jr l s') \<or>
     (sv_status (sy_server s') = Exited \<and> em_environments (sv_mgr (sy_server s')) = [] \<and> sy_lines s' = reader_lines [] input \<and>
      replied (sv_out (sy_server s')) + dropped (sy_server s') = mset (map (request_id jr) (reader_lines [] input))))"
  proof
    assume d: "shut_down s'"
    then have "unread (sy_reader s') = []" using m(2) by (auto simp: system_inv_def stdin_inv_def shut_down_def)
    with m(2) d have "sy_lines s' = reader_lines [] input" "balance (sy_server s') = mset (map (request_id jr) (sy_lines s'))"
      by (auto simp: system_inv_def shut_down_def)
    with steps d show ?thesis by (auto simp: shut_down_def balance_def queued_def)
  qed (use steps in blast)
qed

text \<open>
  Property C6.  The protocol is typed.  In every reachable state each response sent so far is of one of the five kinds: an error with
  a message, the result of an evaluation, a result about an environment, the list of environments, or an event with the id of an
  environment, a name and data; it has the fields of its kind and no others, and only events hold text that scripts put into
  it unescaped.
\<close>

theorem system_responses_well_formed:
  assumes "reachable md eng jr input s"
  shows "list_all response_wf (sv_out (sy_server s))"
  using reachable_inv [OF assms] by (simp add: system_inv_def)

text \<open>
  Property C4.  What a client reads.  In every reachable state, provided that each response fits its buffer and the data that
  scripts put raw into events hold no line feed, standard output splits into exactly one line per response, in the order
  in which they were sent; the id and the type of each can be read from the start of its line, whatever data scripts put into
  it; and the ids of the lines that are not events, of the requests waiting in queues and of those dropped with an environment are
  together exactly the ids of the request lines handled, where an empty id counts as none.
\<close>

theorem system_output_accounts:
  assumes "reachable md eng jr input s" and "\<And>n. malloc_ok n"
    and "\<forall>r \<in> set (sv_out (sy_server s)). length (response_text malloc_ok r) < response_cap r + 256 \<and>
      (r_type r = ''event'' \<longrightarrow> raw_one_line r)"
  shows "\<exists>out ls. write_responses malloc_ok (sv_out (sy_server s)) [] = Sent out \<and> split_lines [] out = (ls, []) \<and>
    map response_head ls = map (\<lambda>r. Some (written_id r, r_type r)) (sv_out (sy_server s)) \<and>
    (sv_status (sy_server s) \<noteq> Overflowed \<longrightarrow>
       answered_ids ls + image_mset shown_id (queued (sv_mgr (sy_server s)) + dropped (sy_server s)) =
       image_mset shown_id (mset (map (request_id jr) (sy_lines s))))"
proof -
  let ?rs = "sv_out (sy_server s)"
  have inv: "system_inv jr input s" using assms(1) by (rule reachable_inv)
  then have "\<forall>r \<in> set ?rs. response_wf r" by (simp add: system_inv_def list_all_iff)
  with assms(3) have "\<forall>r \<in> set ?rs. length (response_text malloc_ok r) < response_cap r + 256" "\<forall>r \<in> set ?rs. raw_one_line r"
    using response_wf_line by blast+
  from write_responses_lines [of malloc_ok, OF assms(2) this] obtain out where
    out: "write_responses malloc_ok ?rs [] = Sent out" "split_lines [] out = (map (response_text malloc_ok) ?rs, [])" by blast
  have "map response_head (map (response_text malloc_ok) ?rs) = map (\<lambda>r. Some (written_id r, r_type r)) ?rs"
    by (simp add: response_head_text [of malloc_ok, OF assms(2)])
  moreover have "answered_ids (map (response_text malloc_ok) ?rs) + image_mset shown_id (queued (sv_mgr (sy_server s)) + dropped (sy_server s)) =
      image_mset shown_id (mset (map (request_id jr) (sy_lines s)))" if "sv_status (sy_server s) \<noteq> Overflowed"
  proof -
    have "mset (map (request_id jr) (sy_lines s)) = balance (sy_server s)" using inv that by (simp add: system_inv_def)
    then show ?thesis by (simp only: answered_ids_replied [of malloc_ok, OF assms(2)] balance_def image_mset_union add.assoc)
  qed
  ultimately show ?thesis using out by blast
qed

section \<open>Witnesses\<close>

text \<open>A run that reads the line \<open>e\<close>, which asks for a request of this unknown type, and handles it.\<close>

definition ex_response :: response where
  "ex_response = error_response (Some ''7'') ''unknown request type: e''"

abbreviation ex_input :: string where
  "ex_input \<equiv> [CHR ''e'', LF]"

abbreviation ex_md :: "(byte list \<Rightarrow> byte list) option" where
  "ex_md \<equiv> w_sha256 ex_world"

lemma ex_world_of: "world_of ex_md ex_world"
  using ex_env_facts(2) by (simp add: world_of_def world_ok_def ex_world_def INT64_MAX_def)

lemmas ex_world_ok = world_of_ok [OF ex_world_of]

lemma ex_id: "request_id ex_json ''e'' = Some ''7''"
  by (simp add: request_id_def ex_json_def json_get_string_def ex_env_api_def js_cstring_def c_str_def Let_def)

lemma ex_handled:
  assumes "sr_lines (sy_stdin s) = [''e'']" and "sy_server s = server_init" and "sy_lines s = []"
    and "main_loop_step ex_world ex_engine ex_json s = Some s'"
  shows "sy_lines s' = [''e'']" and "sv_out (sy_server s') = [ex_response]" and "sv_status (sy_server s') = Serving"
  using assms(4)
  by (auto simp: main_loop_step_def stdin_reader_pop_def assms(1-3) handle_request_def handle_typed_def ex_json_def
      json_get_string_def ex_env_api_def js_cstring_def c_str_def Let_def reply_def server_init_def ex_response_def
      snprintf_def)

lemma ex_run:
  "\<exists>s. reachable ex_md ex_engine ex_json ex_input s \<and> sy_lines s = [''e''] \<and> sv_out (sy_server s) = [ex_response] \<and>
     sv_status (sy_server s) = Serving"
proof -
  let ?s0 = "system_init ex_input :: (string, unit) system"
  have r0: "reachable ex_md ex_engine ex_json ex_input ?s0" by (rule reach_init)
  obtain rd sr where t: "stdin_thread_step (sy_reader ?s0, sy_stdin ?s0) = Some (rd, sr)" and l: "sr_lines sr = [''e'']"
    by (auto simp: system_init_def reader_start_def stdin_reader_init_def stdin_thread_step_def fgets_def reader_chunk_def
        grow_cap.simps c_str_def strip_eol_def is_eol_def stdin_reader_push_def Let_def)
  let ?s1 = "?s0\<lparr>sy_reader := rd, sy_stdin := sr\<rparr>"
  have srv: "sv_status (sy_server ?s0) = Serving" "sv_status (sy_server ?s1) = Serving"
    by (simp_all add: system_init_def server_init_def)
  have r1: "reachable ex_md ex_engine ex_json ex_input ?s1" using r0 step_reader [OF srv(1) t] by (rule reach_step)
  have "system_inv ex_json ex_input ?s1" by (rule reachable_inv [OF r1])
  from main_step_spec [OF this ex_world_ok srv(2), of ex_engine] obtain s2 where
    m: "main_loop_step ex_world ex_engine ex_json ?s1 = Some s2" by blast
  have "reachable ex_md ex_engine ex_json ex_input s2" using r1 step_main [OF srv(2) ex_world_of m] by (rule reach_step)
  with ex_handled [OF _ _ _ m] l show ?thesis by (intro exI [of _ s2]) (simp add: system_init_def)
qed

theorem system_accounts_for_every_line_witness:
  "\<exists>s. reachable ex_md ex_engine ex_json ex_input s \<and> sv_out (sy_server s) = [ex_response] \<and>
     replied [ex_response] + queued (sv_mgr (sy_server s)) + dropped (sy_server s) = {#Some ''7''#}"
proof -
  obtain s where s: "reachable ex_md ex_engine ex_json ex_input s" "sy_lines s = [''e'']" "sv_out (sy_server s) = [ex_response]"
    "sv_status (sy_server s) = Serving" using ex_run by blast
  from system_accounts_for_every_line [OF s(1)] s show ?thesis by (auto simp: ex_id)
qed

text \<open>A reachable state with an environment that has a request to answer, and what its thread makes of it.\<close>

theorem system_progress_witness:
  "\<exists>s e n sv s'. reachable ex_md ex_engine run_json run_input s \<and> em_environments (sv_mgr (sy_server s)) = [e] \<and>
     rq_contents (je_requests e) = [run_request] \<and> main_loop_step run_world ex_engine run_json s = Some s' \<and>
     env_thread_steps n run_world ex_engine 0 (sy_server s) = Some sv \<and>
     rq_contents (je_requests (em_environments (sv_mgr sv) ! 0)) = []"
proof -
  obtain s e where s: "reachable ex_md ex_engine run_json run_input s" "sv_status (sy_server s) = Serving"
    "em_environments (sv_mgr (sy_server s)) = [e]" "rq_contents (je_requests e) = [run_request]" using run_to_request by blast
  from system_progress [OF s(1,2) run_world_of] s show ?thesis by auto
qed

theorem system_can_finish_witness:
  "\<exists>s s'. reachable ex_md ex_engine ex_json ex_input s \<and> (system_step ex_md ex_engine ex_json)\<^sup>*\<^sup>* s s' \<and> sv_status (sy_server s') \<noteq> Serving"
proof -
  obtain s where s: "reachable ex_md ex_engine ex_json ex_input s" "sv_status (sy_server s) = Serving" using ex_run by blast
  from system_can_finish [OF s(1) s(2) ex_world_of] have
    "\<exists>s'. (system_step ex_md ex_engine ex_json)\<^sup>*\<^sup>* s s' \<and> sv_status (sy_server s') \<noteq> Serving" by (force simp: ended_by_def)
  with s(1) show ?thesis by blast
qed

theorem system_responses_well_formed_witness:
  "\<exists>s. reachable ex_md ex_engine ex_json ex_input s \<and> sv_out (sy_server s) = [ex_response] \<and> list_all response_wf [ex_response]"
proof -
  obtain s where s: "reachable ex_md ex_engine ex_json ex_input s" "sv_out (sy_server s) = [ex_response]" using ex_run by blast
  from system_responses_well_formed [OF s(1)] s show ?thesis by auto
qed

theorem system_output_accounts_witness:
  "\<exists>s out l. reachable ex_md ex_engine ex_json ex_input s \<and> sv_out (sy_server s) = [ex_response] \<and>
     write_responses (\<lambda>_. True) [ex_response] [] = Sent out \<and> split_lines [] out = ([l], []) \<and>
     response_head l = Some (Some ''7'', ''error'')"
proof -
  obtain s where s: "reachable ex_md ex_engine ex_json ex_input s" "sv_out (sy_server s) = [ex_response]" using ex_run by blast
  have "length (response_text (\<lambda>_. True) ex_response) < response_cap ex_response + 256" by code_simp
  moreover have "raw_one_line ex_response" by code_simp
  ultimately have "\<forall>r \<in> set (sv_out (sy_server s)). length (response_text (\<lambda>_. True) r) < response_cap r + 256 \<and>
      (r_type r = ''event'' \<longrightarrow> raw_one_line r)"
    by (simp add: s(2))
  from system_output_accounts [OF s(1) TrueI this] obtain out ls where
    "write_responses (\<lambda>_. True) [ex_response] [] = Sent out" "split_lines [] out = (ls, [])"
    "map response_head ls = [Some (written_id ex_response, r_type ex_response)]" unfolding s(2) list.map by (elim exE conjE)
  moreover have "written_id ex_response = Some ''7''" "r_type ex_response = ''error''"
    by (simp_all add: shown_id_def ex_response_def)
  ultimately show ?thesis using s by (auto simp: map_eq_Cons_conv)
qed

end
